(* ===== verification/Prelude.thy ===== *)
theory Prelude
  imports Main "HOL-Library.Word"
begin

text \<open>
  Shared vocabulary of the development: machine-integer types, bytes and characters, the
  \<open>std::string\<close> searches the engine uses (\<open>find\<close>, \<open>substr\<close>, \<open>find_first_not_of\<close>),
  ASCII case folding and positional numerals (\<open>std::to_string\<close>, the \<open>%zx\<close> conversion),
  with the lemmas every component uses about them.

  Conventions. A \<open>std::string\<close> or \<open>std::string_view\<close> is a \<^typ>\<open>string\<close> (one
  \<^typ>\<open>char\<close> per byte); a \<open>uint8_t\<close> buffer is a list of 8-bit words; \<open>size_t\<close> offsets
  are \<^typ>\<open>nat\<close> and \<open>npos\<close> is \<^const>\<open>None\<close>; \<open>int64_t\<close> values are \<^typ>\<open>int\<close> with the
  bounds proved where the code relies on them.
\<close>

unbundle bit_operations_syntax

type_synonym u8 = "8 word"
type_synonym u16 = "16 word"
type_synonym u32 = "32 word"
type_synonym u64 = "64 word"
type_synonym bytes = "u8 list"

named_theorems find_simps \<open>unfolding of the searches on concrete strings\<close>
named_theorems inv_intros \<open>preservation of component invariants\<close>

section \<open>Bytes and characters\<close>

definition byte_of :: "char \<Rightarrow> u8" where
  "byte_of c = of_char c"

definition char_of_byte :: "u8 \<Rightarrow> char" where
  "char_of_byte b = char_of (unat b)"

abbreviation bytes_of :: "string \<Rightarrow> bytes" where
  "bytes_of s \<equiv> map byte_of s"

abbreviation string_of :: "bytes \<Rightarrow> string" where
  "string_of bs \<equiv> map char_of_byte bs"

text \<open>The value of a character as \<open>(unsigned char)ch\<close>.\<close>

definition ord :: "char \<Rightarrow> nat" where
  "ord c = of_char c"

lemma ord_less_256 [simp]: "ord c < 256"
  by (simp add: ord_def)

lemma of_char_word_nat: "(of_char c :: u8) = word_of_nat (of_char c)"
  by (metis of_char_of of_char_mod_256 char_of_def of_char_def of_nat_of_char)

lemma unat_byte_of [simp]: "unat (byte_of c) = ord c"
  by (simp add: byte_of_def ord_def of_char_word_nat unat_of_nat)

lemma char_of_byte_of [simp]: "char_of_byte (byte_of c) = c"
  by (simp add: char_of_byte_def ord_def)

lemma byte_of_char_of_byte [simp]: "byte_of (char_of_byte b) = b"
proof -
  have "unat b < 256" using unsigned_less [of b, where ?'a = nat] by simp
  then have "unat (byte_of (char_of_byte b)) = unat b"
    by (simp add: ord_def char_of_byte_def)
  then show ?thesis by (simp only: word_unat_eq_iff)
qed

lemma string_of_bytes_of [simp]: "string_of (bytes_of s) = s"
  by (induction s) auto

lemma bytes_of_string_of [simp]: "bytes_of (string_of bs) = bs"
  by (induction bs) auto

lemma ord_char_of [simp]: "n < 256 \<Longrightarrow> ord (char_of n) = n"
  by (simp add: ord_def)

lemma ord_eq_iff: "ord a = ord b \<longleftrightarrow> a = b"
  by (simp add: ord_def)

lemma ord_inj: "ord a = ord b \<Longrightarrow> a = b"
  by (simp add: ord_eq_iff)

abbreviation CR :: char where "CR \<equiv> CHR 0x0D"
abbreviation LF :: char where "LF \<equiv> CHR 0x0A"
abbreviation HT :: char where "HT \<equiv> CHR 0x09"
abbreviation SP :: char where "SP \<equiv> CHR 0x20"
abbreviation crlf :: string where "crlf \<equiv> [CR, LF]"

section \<open>Searching: find, substr, find\_first\_not\_of\<close>

text \<open>
  \<open>s.find(pat, pos)\<close>: the least offset at or after \<open>pos\<close> where \<open>pat\<close> occurs; \<open>None\<close> stands
  for \<open>npos\<close>. \<open>find_at\<close> scans the suffix and carries the absolute offset.
\<close>

fun find_at :: "'a list \<Rightarrow> 'a list \<Rightarrow> nat \<Rightarrow> nat option" where
  "find_at pat [] i = (if pat = [] then Some i else None)"
| "find_at pat (x # xs) i =
     (if take (length pat) (x # xs) = pat then Some i else find_at pat xs (Suc i))"

definition find_from :: "'a list \<Rightarrow> 'a list \<Rightarrow> nat \<Rightarrow> nat option" where
  "find_from pat s pos = (if length s < pos then None else find_at pat (drop pos s) pos)"

abbreviation find_sub :: "'a list \<Rightarrow> 'a list \<Rightarrow> nat option" where
  "find_sub pat s \<equiv> find_from pat s 0"

definition substr :: "'a list \<Rightarrow> nat \<Rightarrow> nat \<Rightarrow> 'a list" where
  "substr s pos n = take n (drop pos s)"

definition occurs_at :: "'a list \<Rightarrow> 'a list \<Rightarrow> nat \<Rightarrow> bool" where
  "occurs_at pat s i \<longleftrightarrow> i + length pat \<le> length s \<and> take (length pat) (drop i s) = pat"

lemma occurs_at_append: "occurs_at pat s i \<Longrightarrow> occurs_at pat (s @ t) i"
  by (auto simp: occurs_at_def)

lemma occurs_at_mid [simp]: "occurs_at pat (a @ pat @ b) (length a)"
  by (simp add: occurs_at_def)

lemma occurs_at_Suc: "occurs_at pat (x # xs) (Suc j) \<longleftrightarrow> occurs_at pat xs j"
  by (simp add: occurs_at_def)

lemma find_at_shift: "find_at pat s (i + k) = map_option (\<lambda>j. j + k) (find_at pat s i)"
  by (induction s arbitrary: i) (auto simp flip: add_Suc)

lemma take_eq_length: "take (length p) l = p \<Longrightarrow> length p \<le> length l"
  by (metis length_take min.cobounded1)

lemma find_at_Some_iff:
  "find_at pat s i = Some j \<longleftrightarrow>
     i \<le> j \<and> occurs_at pat s (j - i) \<and> (\<forall>k < j - i. \<not> occurs_at pat s k)"
proof (induction s arbitrary: i)
  case Nil
  then show ?case by (auto simp: occurs_at_def)
next
  case (Cons x xs)
  have zero: "occurs_at pat (x # xs) 0 \<longleftrightarrow> take (length pat) (x # xs) = pat"
    using take_eq_length [of pat "x # xs"] by (auto simp: occurs_at_def)
  show ?case
  proof (cases "take (length pat) (x # xs) = pat")
    case True
    with zero have "occurs_at pat (x # xs) 0" by simp
    with True show ?thesis by (auto intro: le_antisym dest: spec [of _ 0])
  next
    case False
    with zero have n0: "\<not> occurs_at pat (x # xs) 0" by simp
    have split: "(\<forall>k < n. \<not> occurs_at pat (x # xs) k) \<longleftrightarrow>
        (\<forall>k < n - 1. \<not> occurs_at pat xs k)" for n
    proof
      assume "\<forall>k < n. \<not> occurs_at pat (x # xs) k"
      then show "\<forall>k < n - 1. \<not> occurs_at pat xs k"
        by (metis occurs_at_Suc less_diff_conv Suc_eq_plus1)
    next
      assume a: "\<forall>k < n - 1. \<not> occurs_at pat xs k"
      show "\<forall>k < n. \<not> occurs_at pat (x # xs) k"
      proof (intro allI impI)
        fix k assume "k < n"
        then show "\<not> occurs_at pat (x # xs) k"
          using a n0 by (cases k) (auto simp: occurs_at_Suc)
      qed
    qed
    have "find_at pat (x # xs) i = Some j \<longleftrightarrow>
        Suc i \<le> j \<and> occurs_at pat xs (j - Suc i) \<and> (\<forall>k < j - Suc i. \<not> occurs_at pat xs k)"
      using False Cons.IH [of "Suc i"] by simp
    also have "\<dots> \<longleftrightarrow> i \<le> j \<and> occurs_at pat (x # xs) (j - i) \<and>
        (\<forall>k < j - i. \<not> occurs_at pat (x # xs) k)"
    proof (cases "i < j")
      case True
      then have "j - i = Suc (j - Suc i)" by simp
      with True split [of "j - i"] show ?thesis by (simp add: occurs_at_Suc)
    next
      case False
      with n0 show ?thesis by auto
    qed
    finally show ?thesis .
  qed
qed

lemma occurs_at_drop: "p \<le> length s \<Longrightarrow> occurs_at pat (drop p s) k \<longleftrightarrow> occurs_at pat s (p + k)"
  by (auto simp: occurs_at_def add.commute)

lemma find_from_Some_iff:
  "find_from pat s p = Some j \<longleftrightarrow>
     p \<le> j \<and> occurs_at pat s j \<and> (\<forall>k. p \<le> k \<and> k < j \<longrightarrow> \<not> occurs_at pat s k)"
proof (cases "p \<le> length s")
  case True
  have "(\<forall>k < j - p. \<not> occurs_at pat s (p + k)) \<longleftrightarrow>
      (\<forall>k. p \<le> k \<and> k < j \<longrightarrow> \<not> occurs_at pat s k)" if "p \<le> j"
    using that by (metis le_add_diff_inverse less_diff_conv2 add.commute le_add1 add_less_cancel_left)
  with True show ?thesis
    by (auto simp: find_from_def find_at_Some_iff occurs_at_drop)
next
  case False
  then show ?thesis by (auto simp: find_from_def occurs_at_def)
qed

lemma find_from_SomeI:
  "p \<le> j \<Longrightarrow> occurs_at pat s j \<Longrightarrow> (\<And>k. p \<le> k \<Longrightarrow> k < j \<Longrightarrow> \<not> occurs_at pat s k) \<Longrightarrow>
   find_from pat s p = Some j"
  by (simp add: find_from_Some_iff)

lemma find_from_None_iff:
  "find_from pat s p = None \<longleftrightarrow> (\<forall>j. p \<le> j \<longrightarrow> \<not> occurs_at pat s j)"
proof
  assume none: "find_from pat s p = None"
  show "\<forall>j. p \<le> j \<longrightarrow> \<not> occurs_at pat s j"
  proof (intro allI impI notI)
    fix j assume "p \<le> j" "occurs_at pat s j"
    then obtain m where m: "p \<le> m \<and> occurs_at pat s m" and least: "\<forall>k < m. \<not> (p \<le> k \<and> occurs_at pat s k)"
      using exists_least_iff [of "\<lambda>m. p \<le> m \<and> occurs_at pat s m"] by blast
    then have "find_from pat s p = Some m" by (auto simp: find_from_Some_iff)
    with none show False by simp
  qed
next
  assume "\<forall>j. p \<le> j \<longrightarrow> \<not> occurs_at pat s j"
  then show "find_from pat s p = None"
    by (metis find_from_Some_iff option.exhaust)
qed

lemma find_from_bounds:
  "find_from pat s p = Some j \<Longrightarrow> p \<le> j \<and> j + length pat \<le> length s"
  by (auto simp: find_from_Some_iff occurs_at_def)

text \<open>A search that succeeded is not changed by appending more input.\<close>

lemma find_from_append:
  "find_from pat s p = Some j \<Longrightarrow> find_from pat (s @ t) p = Some j"
proof -
  assume a: "find_from pat s p = Some j"
  then have j: "p \<le> j" "occurs_at pat s j" "j + length pat \<le> length s"
    and least: "\<And>k. p \<le> k \<Longrightarrow> k < j \<Longrightarrow> \<not> occurs_at pat s k"
    by (auto simp: find_from_Some_iff occurs_at_def)
  have "\<not> occurs_at pat (s @ t) k" if "p \<le> k" "k < j" for k
    using least [OF that] j(3) that by (auto simp: occurs_at_def)
  with j show ?thesis by (auto simp: find_from_Some_iff intro: occurs_at_append)
qed

lemma occurs_at_1: "occurs_at [c] s i \<longleftrightarrow> i < length s \<and> s ! i = c"
  by (auto simp: occurs_at_def take_Suc_conv_app_nth drop_eq_Nil Cons_nth_drop_Suc [symmetric])

lemma occurs_at_2: "occurs_at [c, d] s i \<longleftrightarrow> Suc i < length s \<and> s ! i = c \<and> s ! Suc i = d"
  by (auto simp: occurs_at_def Cons_nth_drop_Suc [symmetric] Suc_lessD)

text \<open>A delimiter whose first character does not occur before it is found where it stands.\<close>

lemma find_crlf_append:
  "CR \<notin> set a \<Longrightarrow> find_from crlf (p @ a @ crlf @ b) (length p) = Some (length p + length a)"
  by (rule find_from_SomeI) (auto simp: occurs_at_2 nth_append dest: nth_mem split: if_splits)

lemma find_char_append:
  "c \<notin> set a \<Longrightarrow> find_from [c] (p @ a @ c # b) (length p) = Some (length p + length a)"
  by (rule find_from_SomeI) (auto simp: occurs_at_1 nth_append split: if_splits)

lemma find_char_None: "c \<notin> set s \<Longrightarrow> find_from [c] s p = None"
  by (auto simp: find_from_None_iff occurs_at_1)

lemma find_from_drop: "p \<le> length s \<Longrightarrow>
  find_from pat s p = map_option (\<lambda>j. j + p) (find_sub pat (drop p s))"
  using find_at_shift [of pat "drop p s" 0 p] by (simp add: find_from_def)

lemma substr_append [simp]: "substr (a @ b @ c) (length a) (length b) = b"
  by (simp add: substr_def)

lemma length_substr: "length (substr s p n) = min n (length s - p)"
  by (simp add: substr_def)

section \<open>ASCII case folding and trimming\<close>

text \<open>\<open>if (a >= 'A' && a <= 'Z') a += 32;\<close>\<close>

definition lower :: "char \<Rightarrow> char" where
  "lower c = (if 65 \<le> ord c \<and> ord c \<le> 90 then char_of (ord c + 32) else c)"

lemma ord_lower: "ord (lower c) = (if 65 \<le> ord c \<and> ord c \<le> 90 then ord c + 32 else ord c)"
  by (simp add: lower_def)

lemma lower_idem [simp]: "lower (lower c) = lower c"
  by (rule ord_inj) (simp add: ord_lower)

definition is_ows :: "char \<Rightarrow> bool" where
  "is_ows c \<longleftrightarrow> c = SP \<or> c = HT"

definition trim_ows :: "string \<Rightarrow> string" where
  "trim_ows s = rev (dropWhile is_ows (rev (dropWhile is_ows s)))"

lemma trim_ows_Nil [simp]: "trim_ows [] = []"
  by (simp add: trim_ows_def)

lemma dropWhile_id: "(xs \<noteq> [] \<Longrightarrow> \<not> P (hd xs)) \<Longrightarrow> dropWhile P xs = xs"
  by (cases xs) auto

lemma trim_ows_idem [simp]: "trim_ows (trim_ows s) = trim_ows s"
proof -
  let ?t = "dropWhile is_ows s" and ?u = "trim_ows s"
  have u: "?u = rev (dropWhile is_ows (rev ?t))" by (simp add: trim_ows_def)
  have "\<not> is_ows (hd ?u)" if "?u \<noteq> []"
  proof -
    have "rev ?t = takeWhile is_ows (rev ?t) @ rev ?u"
      by (simp add: u)
    then have t: "?t = ?u @ rev (takeWhile is_ows (rev ?t))"
      by (metis rev_append rev_rev_ident)
    with that have "?t \<noteq> []" by (metis append_is_Nil_conv)
    moreover from t that have "hd ?t = hd ?u" by (metis hd_append2)
    ultimately show ?thesis by (metis hd_dropWhile)
  qed
  then have 1: "dropWhile is_ows ?u = ?u" by (rule dropWhile_id)
  have "dropWhile is_ows (rev ?u) = rev ?u" 
    unfolding u rev_rev_ident by (rule dropWhile_id) (metis hd_dropWhile)
  then show ?thesis unfolding trim_ows_def [of ?u] 1 by simp
qed

lemma set_trim_ows: "set (trim_ows s) \<subseteq> set s"
  by (auto simp: trim_ows_def dest!: set_dropWhileD)

section \<open>Positional numerals\<close>

text \<open>Digits of a number in base \<open>b\<close>, most significant first, as \<open>printf\<close> writes them.\<close>

fun to_digits :: "nat \<Rightarrow> nat \<Rightarrow> nat list" where
  "to_digits b n = (if n < b \<or> b < 2 then [n] else to_digits b (n div b) @ [n mod b])"

declare to_digits.simps [simp del]

definition from_digits :: "nat \<Rightarrow> nat list \<Rightarrow> nat" where
  "from_digits b ds = foldl (\<lambda>a d. a * b + d) 0 ds"

lemma from_digits_simps [simp]:
  "from_digits b [] = 0" "from_digits b (ds @ [d]) = from_digits b ds * b + d"
  by (simp_all add: from_digits_def)

lemma from_to_digits [simp]: "2 \<le> b \<Longrightarrow> from_digits b (to_digits b n) = n"
proof (induction b n rule: to_digits.induct)
  case (1 b n)
  show ?case
  proof (cases "n < b")
    case True
    then show ?thesis by (simp add: to_digits.simps [of b n] from_digits_def)
  next
    case False
    with "1" show ?thesis by (simp add: to_digits.simps [of b n])
  qed
qed

lemma to_digits_less: "2 \<le> b \<Longrightarrow> d \<in> set (to_digits b n) \<Longrightarrow> d < b"
proof (induction b n rule: to_digits.induct)
  case (1 b n)
  then show ?case
    by (cases "n < b") (auto simp: to_digits.simps [of b n])
qed

lemma to_digits_nonempty [simp]: "to_digits b n \<noteq> []"
  by (simp add: to_digits.simps [of b n])

lemma length_to_digits: "2 \<le> b \<Longrightarrow> 0 < k \<Longrightarrow> n < b ^ k \<Longrightarrow> length (to_digits b n) \<le> k"
proof (induction k arbitrary: n)
  case 0
  then show ?case by simp
next
  case (Suc k)
  show ?case
  proof (cases "n < b")
    case True
    then show ?thesis by (simp add: to_digits.simps [of b n])
  next
    case False
    with Suc.prems have "0 < k" by (cases k) auto
    from Suc.prems have "n div b < b ^ k"
      by (simp add: div_less_iff_less_mult mult.commute)
    with Suc.IH Suc.prems(1) \<open>0 < k\<close> have "length (to_digits b (n div b)) \<le> k" by simp
    with False Suc.prems(1) show ?thesis by (simp add: to_digits.simps [of b n])
  qed
qed

lemma foldl_digits_less:
  "2 \<le> b \<Longrightarrow> (\<forall>d \<in> set ds. d < b) \<Longrightarrow> from_digits b ds < b ^ length ds"
proof (induction ds rule: rev_induct)
  case Nil
  then show ?case by simp
next
  case (snoc d ds)
  then have "from_digits b ds + 1 \<le> b ^ length ds" and "d < b" by auto
  then have "(from_digits b ds + 1) * b \<le> b ^ length ds * b" by (intro mult_right_mono) auto
  with \<open>d < b\<close> show ?case by (simp add: algebra_simps)
qed

text \<open>The characters \<open>0..9\<close>, \<open>a..f\<close> of the digits.\<close>

definition digit_char :: "nat \<Rightarrow> char" where
  "digit_char d = (if d < 10 then char_of (48 + d) else char_of (87 + d))"

lemma ord_digit_char: "d < 16 \<Longrightarrow> ord (digit_char d) = (if d < 10 then 48 + d else 87 + d)"
  by (simp add: digit_char_def)

definition to_string_nat :: "nat \<Rightarrow> string" where
  "to_string_nat n = map digit_char (to_digits 10 n)"

definition to_string :: "int \<Rightarrow> string" where
  "to_string i = (if i < 0 then CHR ''-'' # to_string_nat (nat (- i)) else to_string_nat (nat i))"

definition to_hex :: "nat \<Rightarrow> string" where
  "to_hex n = map digit_char (to_digits 16 n)"

lemma to_hex_nonempty [simp]: "to_hex n \<noteq> []"
  by (simp add: to_hex_def)

definition is_digit :: "char \<Rightarrow> bool" where
  "is_digit c \<longleftrightarrow> 48 \<le> ord c \<and> ord c \<le> 57"

text \<open>\<open>strtoll\<close> on a string of decimal digits.\<close>

definition dec_val :: "string \<Rightarrow> nat" where
  "dec_val s = from_digits 10 (map (\<lambda>c. ord c - 48) s)"

lemma to_string_nat_digits: "c \<in> set (to_string_nat n) \<Longrightarrow> is_digit c"
  by (auto simp: to_string_nat_def is_digit_def ord_digit_char dest!: to_digits_less [of 10, simplified])

lemma dec_val_to_string_nat [simp]: "dec_val (to_string_nat n) = n"
proof -
  have "map ((\<lambda>c. ord c - 48) \<circ> digit_char) (to_digits 10 n) = map id (to_digits 10 n)"
    by (rule map_cong) (auto simp: ord_digit_char dest!: to_digits_less [of 10, simplified])
  then show ?thesis by (simp add: dec_val_def to_string_nat_def comp_def)
qed

lemma dec_val_less: "(\<forall>c \<in> set s. is_digit c) \<Longrightarrow> dec_val s < 10 ^ length s"
proof -
  assume "\<forall>c \<in> set s. is_digit c"
  then have "\<forall>d \<in> set (map (\<lambda>c. ord c - 48) s). d < 10" by (fastforce simp: is_digit_def)
  then show ?thesis
    using foldl_digits_less [of 10 "map (\<lambda>c. ord c - 48) s"] by (simp add: dec_val_def)
qed

section \<open>Words\<close>

lemma unat_u8_less [simp]: "unat (b :: u8) < 256"
  using unsigned_less [of b, where ?'a = nat] by simp

lemma unat_u8_le: "unat (b :: u8) \<le> 255"
  using unat_u8_less [of b] by linarith

lemma div_eq_bounds: "0 < (k::nat) \<Longrightarrow> (x div k = q) = (q * k \<le> x \<and> x < Suc q * k)"
  using dividend_less_div_times [of k x]
  by (auto intro!: div_nat_eqI simp: mult.commute [of k])

lemma unat_and_mask: "unat (x AND mask n :: 'a::len word) = unat x mod 2 ^ n"
  unfolding take_bit_eq_mask [symmetric] unsigned_take_bit_eq by (simp add: take_bit_eq_mod)

lemma or_disj_add: "(x::'a::len word) AND y = 0 \<Longrightarrow> x OR y = x + y"
  by (metis disjunctive_add bit_and_iff bit_0_eq bot_apply bot_bool_def)

lemma unat_and_not_mask: "unat (x AND NOT (mask n) :: 'a::len word) = unat x div 2 ^ n * 2 ^ n"
proof -
  have "(x AND NOT (mask n)) AND (x AND mask n) = 0"
    by (rule bit_word_eqI) (auto simp: bit_simps)
  then have "(x AND NOT (mask n)) + (x AND mask n) = (x AND NOT (mask n)) OR (x AND mask n)"
    by (simp only: or_disj_add)
  also have "\<dots> = x" by (rule bit_word_eqI) (auto simp: bit_simps)
  finally have "x AND NOT (mask n) = x - (x AND mask n)" by (simp only: eq_diff_eq)
  moreover have "x AND mask n \<le> x" by (simp add: word_and_le2)
  ultimately show ?thesis by (simp only: unat_sub unat_and_mask minus_mod_eq_div_mult)
qed

lemma unat_drop_bit: "unat (drop_bit n (w::'a::len word)) = unat w div 2 ^ n"
  unfolding unat_drop_bit_eq by (simp add: drop_bit_eq_div)

lemma push_ucast_disj:
  "LENGTH('b) \<le> n \<Longrightarrow> push_bit n (l::'a::len word) AND ucast (b::'b::len word) = 0"
  by (rule bit_word_eqI) (auto simp: bit_simps dest: bit_imp_le_length)

lemma push_or_ucast:
  "LENGTH('b) \<le> n \<Longrightarrow> push_bit n (l::'a::len word) OR ucast (b::'b::len word) = l * 2 ^ n + ucast b"
  using or_disj_add [OF push_ucast_disj] by (simp add: push_bit_eq_mult)

text \<open>The masks the byte-level code uses, read as arithmetic on the byte's value.\<close>

lemma low_masks:
  "unat ((b::u8) AND 0x0f) = unat b mod 16" "unat (b AND 0x07) = unat b mod 8"
  "unat (b AND 0x3f) = unat b mod 64" "unat (b AND 0x7f) = unat b mod 128"
proof -
  have m: "(0x0f::u8) = mask 4" "(0x07::u8) = mask 3" "(0x3f::u8) = mask 6" "(0x7f::u8) = mask 7"
    by (simp_all add: mask_eq_exp_minus_1)
  show "unat (b AND 0x0f) = unat b mod 16" "unat (b AND 0x07) = unat b mod 8"
    "unat (b AND 0x3f) = unat b mod 64" "unat (b AND 0x7f) = unat b mod 128"
    unfolding m unat_and_mask by simp_all
qed

lemma high_mask_eq:
  fixes x :: u8
  assumes "m = NOT (mask n)" "v = word_of_nat (q * 2 ^ n)" "q * 2 ^ n < 256"
  shows "(x AND m = v) = (q * 2 ^ n \<le> unat x \<and> unat x < Suc q * 2 ^ n)"
proof -
  have "unat v = q * 2 ^ n"
    unfolding assms(2) using assms(3) by (simp only: unat_of_nat) (simp add: take_bit_eq_mod)
  then have "(x AND m = v) = (unat (x AND m) = q * 2 ^ n)"
    by (simp add: word_unat_eq_iff)
  also have "\<dots> = (unat x div 2 ^ n = q)"
    unfolding assms(1) unat_and_not_mask by simp
  finally show ?thesis by (simp add: div_eq_bounds)
qed

lemma high_masks:
  "((x::u8) AND 0xe0 = 0xc0) = (192 \<le> unat x \<and> unat x < 224)"
  "(x AND 0xf0 = 0xe0) = (224 \<le> unat x \<and> unat x < 240)"
  "(x AND 0xf8 = 0xf0) = (240 \<le> unat x \<and> unat x < 248)"
  "(x AND 0xc0 = 0x80) = (128 \<le> unat x \<and> unat x < 192)"
  using high_mask_eq [of "0xe0" 5 "0xc0" 6 x] high_mask_eq [of "0xf0" 4 "0xe0" 14 x]
    high_mask_eq [of "0xf8" 3 "0xf0" 30 x] high_mask_eq [of "0xc0" 6 "0x80" 2 x]
  by (simp_all add: mask_eq_exp_minus_1)

lemma bit7_iff: "((b::u8) AND 0x80 = 0) = (unat b < 128)"
proof -
  have e: "(0x80::u8) = NOT (mask 7)" by (simp add: mask_eq_exp_minus_1)
  have "(b AND 0x80 = 0) = (unat (b AND 0x80) = 0)" by (simp add: unat_eq_0)
  also have "\<dots> = (unat b div 128 = 0)" unfolding e unat_and_not_mask by simp
  finally show ?thesis by (simp add: div_eq_0_iff)
qed

lemma unat_byte_at:
  "unat (ucast (drop_bit (8 * i) (w::u64) AND 0xff) :: u8) = unat w div 256 ^ i mod 256"
proof -
  have m: "(0xff::u64) = mask 8" by (simp add: mask_eq_exp_minus_1)
  have "unat (drop_bit (8 * i) w AND 0xff) = unat w div 256 ^ i mod 256"
    unfolding m unat_and_mask unat_drop_bit by (simp add: power_mult)
  then show ?thesis by (simp add: unsigned_ucast_eq take_bit_eq_mod)
qed

text \<open>The base-256 digits of a number rebuild it.\<close>

lemma from_digits_256:
  "from_digits 256 (map (\<lambda>i. n div 256 ^ i mod 256) (rev [0..<k])) = n mod 256 ^ k"
proof (induction k arbitrary: n)
  case 0
  then show ?case by simp
next
  case (Suc k)
  have "rev [0..<Suc k] = map Suc (rev [0..<k]) @ [0]"
    by (simp add: rev_map [symmetric] map_Suc_upt upt_conv_Cons del: upt_Suc)
  then have "from_digits 256 (map (\<lambda>i. n div 256 ^ i mod 256) (rev [0..<Suc k])) =
      from_digits 256 (map (\<lambda>i. n div 256 div 256 ^ i mod 256) (rev [0..<k])) * 256 + n mod 256"
    by (simp add: comp_def div_mult2_eq mult.commute del: upt_Suc)
  also have "\<dots> = (n div 256) mod 256 ^ k * 256 + n mod 256" by (simp add: Suc.IH)
  also have "\<dots> = n mod 256 ^ Suc k" by (simp add: mod_mult2_eq mult.commute)
  finally show ?case .
qed

section \<open>Keyed stores\<close>

text \<open>
  The contract of every table of the engine: what a lookup returns after an insertion or a
  deletion, an invariant the operations keep, and a finite set of keys. The route trie, the shards
  of the pending table and the session tables all provide it.
\<close>

locale keyed_store =
  fixes emp :: 's
    and put :: "'r \<Rightarrow> 'v \<Rightarrow> 's \<Rightarrow> 's"
    and del :: "'r \<Rightarrow> 's \<Rightarrow> 's"
    and get :: "'s \<Rightarrow> 'k \<Rightarrow> 'v option"
    and key :: "'r \<Rightarrow> 'k"
    and ok :: "'r \<Rightarrow> bool"
  assumes get_emp: "get emp k = None"
    and get_put: "ok r \<Longrightarrow> get (put r v s) k = (if k = key r then Some v else get s k)"
    and get_del: "ok r \<Longrightarrow> get (del r s) k = (if k = key r then None else get s k)"
begin

lemma get_put_same: "ok r \<Longrightarrow> get (put r v s) (key r) = Some v"
  by (simp add: get_put)

lemma get_put_other: "ok r \<Longrightarrow> k \<noteq> key r \<Longrightarrow> get (put r v s) k = get s k"
  by (simp add: get_put)

lemma get_del_put: "ok r \<Longrightarrow> get s (key r) = None \<Longrightarrow> get (del r (put r v s)) = get s"
  by (auto simp: get_put get_del)

lemma get_put_put: "ok r \<Longrightarrow> get (put r v (put r w s)) = get (put r v s)"
  by (auto simp: get_put)

lemma get_put_comm:
  "ok r \<Longrightarrow> ok t \<Longrightarrow> key r \<noteq> key t \<Longrightarrow> get (put r v (put t w s)) = get (put t w (put r v s))"
  by (auto simp: get_put)

lemma dom_put: "ok r \<Longrightarrow> dom (get (put r v s)) = insert (key r) (dom (get s))"
  by (auto simp: get_put split: if_splits)

lemma dom_del: "ok r \<Longrightarrow> dom (get (del r s)) = dom (get s) - {key r}"
  by (auto simp: get_del split: if_splits)

lemma finite_put: "ok r \<Longrightarrow> finite (dom (get s)) \<Longrightarrow> finite (dom (get (put r v s)))"
  by (simp add: dom_put)

lemma finite_del: "ok r \<Longrightarrow> finite (dom (get s)) \<Longrightarrow> finite (dom (get (del r s)))"
  by (simp add: dom_del)

lemma card_put:
  "ok r \<Longrightarrow> finite (dom (get s)) \<Longrightarrow>
   card (dom (get (put r v s))) =
     (if get s (key r) = None then card (dom (get s)) + 1 else card (dom (get s)))"
  by (auto simp: dom_put card_insert_if domIff)

lemma card_del:
  "ok r \<Longrightarrow> finite (dom (get s)) \<Longrightarrow>
   card (dom (get (del r s))) =
     (if get s (key r) = None then card (dom (get s)) else card (dom (get s)) - 1)"
  by (auto simp: dom_del domIff)

lemma dom_emp: "dom (get emp) = {}"
  by (auto simp: get_emp)

end

end
