(* ===== verification/Common.thy ===== *)
theory Common
  imports Prelude
begin

text \<open>
  The transport-independent vocabulary of the engine: \<open>src/engine/Common.h\<close> (methods, error
  kinds, headers, the method and reason-phrase tables) and \<open>src/engine/EngineTypes.h\<close>
  (the bound server's configuration, the fallible-call result, a parsed request head and the
  calls of the dispatch sink), with the two argument decoders of \<open>src/engine/Wire.h\<close> that do
  not touch the generated codec.
\<close>

section \<open>Enumerations\<close>

datatype Method = Get | Head | Post | Put | Delete | Patch | Options | Trace | All | Custom

fun method_index :: "Method \<Rightarrow> int" where
  "method_index Get = 0" | "method_index Head = 1" | "method_index Post = 2"
| "method_index Put = 3" | "method_index Delete = 4" | "method_index Patch = 5"
| "method_index Options = 6" | "method_index Trace = 7" | "method_index All = 8"
| "method_index Custom = 9"

datatype ErrorKind = ENone | AlreadyRunning | NotRunning | BindFailed | TlsError | RouteNotFound
  | EHandlerTimeout | RequestTooLarge | ResponseTooLarge | Io | BadRequest | EUnknown

fun error_index :: "ErrorKind \<Rightarrow> int" where
  "error_index ENone = 0" | "error_index AlreadyRunning = 1" | "error_index NotRunning = 2"
| "error_index BindFailed = 3" | "error_index TlsError = 4" | "error_index RouteNotFound = 5"
| "error_index EHandlerTimeout = 6" | "error_index RequestTooLarge = 7"
| "error_index ResponseTooLarge = 8" | "error_index Io = 9" | "error_index BadRequest = 10"
| "error_index EUnknown = 11"

datatype BodyKind = Data | End | Error

fun body_index :: "BodyKind \<Rightarrow> int" where
  "body_index Data = 0" | "body_index End = 1" | "body_index Error = 2"

datatype ServerEventKind = Started | Stopped | HandlerTimeout | ClientError | Notice
  | ClientDisconnect

fun event_index :: "ServerEventKind \<Rightarrow> int" where
  "event_index Started = 0" | "event_index Stopped = 1" | "event_index HandlerTimeout = 2"
| "event_index ClientError = 3" | "event_index Notice = 4" | "event_index ClientDisconnect = 5"

section \<open>Headers, parameters and the method tables\<close>

record header =
  h_name :: string
  h_value :: string

record route_param =
  p_name :: string
  p_value :: string

abbreviation hdr :: "string \<Rightarrow> string \<Rightarrow> header" where
  "hdr n v \<equiv> \<lparr>h_name = n, h_value = v\<rparr>"

text \<open>\<open>parseMethod\<close> returns the method and the new contents of the \<open>customOut\<close> reference.\<close>

definition parseMethod :: "string \<Rightarrow> string \<Rightarrow> Method \<times> string" where
  "parseMethod token customOut =
     (if token = ''GET'' then (Get, customOut)
      else if token = ''HEAD'' then (Head, customOut)
      else if token = ''POST'' then (Post, customOut)
      else if token = ''PUT'' then (Put, customOut)
      else if token = ''DELETE'' then (Delete, customOut)
      else if token = ''PATCH'' then (Patch, customOut)
      else if token = ''OPTIONS'' then (Options, customOut)
      else if token = ''TRACE'' then (Trace, customOut)
      else (Custom, token))"

fun methodToken :: "Method \<Rightarrow> string" where
  "methodToken Get = ''GET''"
| "methodToken Head = ''HEAD''"
| "methodToken Post = ''POST''"
| "methodToken Put = ''PUT''"
| "methodToken Delete = ''DELETE''"
| "methodToken Patch = ''PATCH''"
| "methodToken Options = ''OPTIONS''"
| "methodToken Trace = ''TRACE''"
| "methodToken All = ''*''"
| "methodToken Custom = ''''"

text \<open>The eight methods with a wire token of their own.\<close>

definition standard_methods :: "Method list" where
  "standard_methods = [Get, Head, Post, Put, Delete, Patch, Options, Trace]"

definition reason_table :: "(int \<times> string) list" where
  "reason_table =
    [(100, ''Continue''), (101, ''Switching Protocols''), (200, ''OK''), (201, ''Created''),
     (202, ''Accepted''), (204, ''No Content''), (206, ''Partial Content''),
     (301, ''Moved Permanently''), (302, ''Found''), (303, ''See Other''),
     (304, ''Not Modified''), (307, ''Temporary Redirect''), (308, ''Permanent Redirect''),
     (400, ''Bad Request''), (401, ''Unauthorized''), (403, ''Forbidden''),
     (404, ''Not Found''), (405, ''Method Not Allowed''), (406, ''Not Acceptable''),
     (408, ''Request Timeout''), (409, ''Conflict''), (410, ''Gone''),
     (411, ''Length Required''), (412, ''Precondition Failed''), (413, ''Content Too Large''),
     (414, ''URI Too Long''), (415, ''Unsupported Media Type''),
     (416, ''Range Not Satisfiable''), (417, ''Expectation Failed''),
     (422, ''Unprocessable Content''), (426, ''Upgrade Required''),
     (428, ''Precondition Required''), (429, ''Too Many Requests''),
     (431, ''Request Header Fields Too Large''), (500, ''Internal Server Error''),
     (501, ''Not Implemented''), (502, ''Bad Gateway''), (503, ''Service Unavailable''),
     (504, ''Gateway Timeout''), (505, ''HTTP Version Not Supported'')]"

definition reasonPhrase :: "int \<Rightarrow> string" where
  "reasonPhrase status =
     (case map_of reason_table status of
        Some r \<Rightarrow> r
      | None \<Rightarrow>
          (if status \<ge> 500 then ''Server Error'' else if status \<ge> 400 then ''Client Error''
           else if status \<ge> 300 then ''Redirection'' else if status \<ge> 200 then ''Success''
           else ''Informational''))"

text \<open>\<open>Wire.h\<close>: the method token of \<open>unregisterRoute\<close>.\<close>

definition parseUnregisterMethod :: "string \<Rightarrow> string \<Rightarrow> Method \<times> string" where
  "parseUnregisterMethod token customOut =
     (if token = ''*'' then (All, customOut) else parseMethod token customOut)"

section \<open>Engine types\<close>

record ServerConfig =
  host :: string
  port :: int
  backlog :: int
  maxBodyBytes :: int
  defaultTimeoutMs :: int
  keepAliveTimeoutMs :: int
  keepAliveHeader :: bool
  maxRequestsPerConn :: int
  workerThreads :: int
  maxConnections :: int
  maxConnectionsPerIp :: int
  headerTimeoutMs :: int
  writeTimeoutMs :: int
  wsMaxBufferBytes :: int
  streamMaxBufferBytes :: int
  streamIdleTimeoutMs :: int
  maxBufferedBodyBytes :: int
  wsCompression :: bool
  bodyTimeoutMs :: int
  wsIdleTimeoutMs :: int
  maxConnectionAgeMs :: int
  maxInFlightRequests :: int
  http2 :: bool
  tlsRequested :: bool
  tlsCertPem :: string
  tlsKeyPem :: string
  tlsCertFile :: string
  tlsKeyFile :: string
  tlsMinVersion :: int
  tlsCiphers :: string
  tlsCipherSuites :: string
  tlsClientCaPem :: string
  tlsClientCaFile :: string
  proxyProtocol :: bool

text \<open>The member initialisers.\<close>

definition default_config :: ServerConfig where
  "default_config =
    \<lparr>host = ''127.0.0.1'', port = 0, backlog = 128, maxBodyBytes = 10 * 1024 * 1024,
     defaultTimeoutMs = 30000, keepAliveTimeoutMs = 5000, keepAliveHeader = True,
     maxRequestsPerConn = 100, workerThreads = 0, maxConnections = 0, maxConnectionsPerIp = 0,
     headerTimeoutMs = 0, writeTimeoutMs = 30000, wsMaxBufferBytes = 1048576,
     streamMaxBufferBytes = 4194304, streamIdleTimeoutMs = 300000,
     maxBufferedBodyBytes = 67108864, wsCompression = True, bodyTimeoutMs = 0,
     wsIdleTimeoutMs = 60000, maxConnectionAgeMs = 0, maxInFlightRequests = 0, http2 = True,
     tlsRequested = False, tlsCertPem = [], tlsKeyPem = [], tlsCertFile = [], tlsKeyFile = [],
     tlsMinVersion = 12, tlsCiphers = [], tlsCipherSuites = [], tlsClientCaPem = [],
     tlsClientCaFile = [], proxyProtocol = False\<rparr>"

record StatusResult =
  kind :: ErrorKind
  message :: string
  boundPort :: int

definition status_ok :: StatusResult where
  "status_ok = \<lparr>kind = ENone, message = [], boundPort = 0\<rparr>"

record ParsedHead =
  ph_method :: Method
  ph_customMethod :: string
  ph_target :: string
  ph_version :: string
  ph_headers :: "header list"
  ph_ok :: bool
  ph_badVersion :: bool

definition empty_head :: ParsedHead where
  "empty_head = \<lparr>ph_method = Get, ph_customMethod = [], ph_target = [], ph_version = [],
     ph_headers = [], ph_ok = False, ph_badVersion = False\<rparr>"

text \<open>
  One call on the dispatch sink. The sink is outside the engine (Dart, or a test recorder): the
  model logs the calls it receives, in order, with the payload pointers it takes over.
\<close>

datatype emit_call =
    EmitHead int Method string string string "header list" int bool bool string
      "route_param list" string
  | EmitBodyData int nat bytes
  | EmitBodyEnd int
  | EmitBodyError int nat bytes ErrorKind
  | EmitWsMessage int "nat option" bytes int int
  | EmitEvent ServerEventKind int string

section \<open>Lemmas\<close>

lemma standard_methods_iff: "m \<in> set standard_methods \<longleftrightarrow> m \<noteq> All \<and> m \<noteq> Custom"
  by (cases m) (auto simp: standard_methods_def)

lemma method_index_inj: "method_index a = method_index b \<Longrightarrow> a = b"
  by (cases a; cases b) simp_all

lemma method_index_range: "0 \<le> method_index m \<and> method_index m \<le> 9"
  by (cases m) simp_all

lemma parse_methodToken:
  "m \<noteq> All \<Longrightarrow> m \<noteq> Custom \<Longrightarrow> parseMethod (methodToken m) c = (m, c)"
  by (cases m) (simp_all add: parseMethod_def)

lemma methodToken_parse:
  "parseMethod t c = (m, c') \<Longrightarrow> m \<noteq> All \<and> (if m = Custom then c' = t else methodToken m = t \<and> c' = c)"
  by (auto simp: parseMethod_def split: if_splits)

lemma methodToken_inj: "methodToken a = methodToken b \<Longrightarrow> a = b"
  by (cases a; cases b) simp_all

lemma reason_no_crlf_table: "\<forall>(k, r) \<in> set reason_table. CR \<notin> set r \<and> LF \<notin> set r"
  by (simp add: reason_table_def)

lemma reasonPhrase_no_crlf: "CR \<notin> set (reasonPhrase st) \<and> LF \<notin> set (reasonPhrase st)"
proof (cases "map_of reason_table st")
  case None
  then show ?thesis by (simp add: reasonPhrase_def)
next
  case (Some r)
  then have "(st, r) \<in> set reason_table" by (rule map_of_SomeD)
  with reason_no_crlf_table Some show ?thesis by (auto simp: reasonPhrase_def)
qed

end
