(* ===== verification/WsCodec.thy ===== *)
theory WsCodec
  imports Common
begin

text \<open>
  \<open>src/engine/WsCodec.h\<close>: the RFC 6455 handshake (SHA-1, base64, the accept key), the frame
  header parser and encoder, the close-code check and the UTF-8 validator. Buffers are lists of
  8-bit words and every shift and sum is at the source's width.
\<close>

section \<open>SHA-1\<close>

definition handshakeGuid :: string where
  "handshakeGuid = ''258EAFA5-E914-47DA-95CA-C5AB0DC85B11''"

definition rol32 :: "u32 \<Rightarrow> nat \<Rightarrow> u32" where
  "rol32 v n = push_bit n v OR drop_bit (32 - n) v"

text \<open>
  \<open>while (padded % 64 != 56) padded++;\<close> The distance to the next offset that is 56 modulo 64
  shrinks with every turn.
\<close>

definition pad_dist :: "nat \<Rightarrow> nat" where
  "pad_dist m = (if m \<le> 56 then 56 - m else 120 - m)"

lemma pad_dist_Suc:
  assumes "m < 64" "m \<noteq> 56"
  shows "pad_dist (Suc m mod 64) < pad_dist m"
proof (cases "m = 63")
  case False
  with assms have "Suc m < 64" by simp
  then have "Suc m mod 64 = Suc m" by simp
  with assms \<open>Suc m < 64\<close> show ?thesis by (auto simp: pad_dist_def)
qed (simp add: pad_dist_def)

function pad_loop :: "nat \<Rightarrow> nat" where
  "pad_loop padded = (if padded mod 64 \<noteq> 56 then pad_loop (padded + 1) else padded)"
  by pat_completeness auto
termination
proof (relation "measure (\<lambda>p. pad_dist (p mod 64))")
  fix p :: nat
  assume "p mod 64 \<noteq> 56"
  then have "pad_dist (Suc (p mod 64) mod 64) < pad_dist (p mod 64)"
    by (intro pad_dist_Suc) simp_all
  then show "(p + 1, p) \<in> measure (\<lambda>p. pad_dist (p mod 64))"
    by (simp add: mod_Suc_eq)
qed simp

declare pad_loop.simps [simp del]

text \<open>The padded message: data, \<open>0x80\<close>, zeros, the 64-bit big-endian bit length.\<close>

definition sha1_msg :: "bytes \<Rightarrow> bytes" where
  "sha1_msg data =
     (let len = length data;
          bitLen = (word_of_nat (len * 8) :: u64);
          padded = pad_loop (len + 1) + 8
      in data @ 0x80 # replicate (padded - 8 - (len + 1)) 0 @
         map (\<lambda>i. ucast (drop_bit (8 * i) bitLen AND 0xff)) (rev [0..<8]))"

definition be_word :: "u8 \<Rightarrow> u8 \<Rightarrow> u8 \<Rightarrow> u8 \<Rightarrow> u32" where
  "be_word a b c d = push_bit 24 (ucast a) OR push_bit 16 (ucast b) OR push_bit 8 (ucast c) OR ucast d"

fun block_words :: "bytes \<Rightarrow> u32 list" where
  "block_words (a # b # c # d # rest) = be_word a b c d # block_words rest"
| "block_words _ = []"

text \<open>\<open>w[i] = rol32(w[i-3] ^ w[i-8] ^ w[i-14] ^ w[i-16], 1)\<close> for the next \<open>n\<close> values of \<open>i\<close>.\<close>

fun expand :: "nat \<Rightarrow> u32 list \<Rightarrow> u32 list" where
  "expand 0 w = w"
| "expand (Suc n) w =
     (let i = length w
      in expand n (w @ [rol32 (w ! (i - 3) XOR w ! (i - 8) XOR w ! (i - 14) XOR w ! (i - 16)) 1]))"

type_synonym sha1_state = "u32 \<times> u32 \<times> u32 \<times> u32 \<times> u32"

definition sha1_round :: "nat \<Rightarrow> u32 \<Rightarrow> sha1_state \<Rightarrow> sha1_state" where
  "sha1_round i wi s =
     (case s of (a, b, c, d, e) \<Rightarrow>
       let (f, k) =
         (if i < 20 then ((b AND c) OR (NOT b AND d), 0x5A827999)
          else if i < 40 then (b XOR c XOR d, 0x6ED9EBA1)
          else if i < 60 then ((b AND c) OR (b AND d) OR (c AND d), 0x8F1BBCDC)
          else (b XOR c XOR d, 0xCA62C1D6));
         tmp = rol32 a 5 + f + e + k + wi
       in (tmp, a, rol32 b 30, c, d))"

fun sha1_rounds :: "nat \<Rightarrow> u32 list \<Rightarrow> sha1_state \<Rightarrow> sha1_state" where
  "sha1_rounds i [] s = s"
| "sha1_rounds i (wi # ws) s = sha1_rounds (Suc i) ws (sha1_round i wi s)"

definition sha1_block :: "bytes \<Rightarrow> sha1_state \<Rightarrow> sha1_state" where
  "sha1_block blk h =
     (case h of (h0, h1, h2, h3, h4) \<Rightarrow>
      case sha1_rounds 0 (expand 64 (block_words blk)) h of (a, b, c, d, e) \<Rightarrow>
        (h0 + a, h1 + b, h2 + c, h3 + d, h4 + e))"

text \<open>\<open>for (off = 0; off < padded; off += 64)\<close>\<close>

function sha1_blocks :: "bytes \<Rightarrow> sha1_state \<Rightarrow> sha1_state" where
  "sha1_blocks msg h =
     (if msg = [] then h else sha1_blocks (drop 64 msg) (sha1_block (take 64 msg) h))"
  by pat_completeness auto
termination
  by (relation "measure (\<lambda>(msg, h). length msg)") auto

declare sha1_blocks.simps [simp del]

definition be_bytes :: "u32 \<Rightarrow> bytes" where
  "be_bytes w = [ucast (drop_bit 24 w AND 0xff), ucast (drop_bit 16 w AND 0xff),
     ucast (drop_bit 8 w AND 0xff), ucast (w AND 0xff)]"

definition sha1 :: "bytes \<Rightarrow> bytes" where
  "sha1 data =
     (case sha1_blocks (sha1_msg data)
        (0x67452301, 0xEFCDAB89, 0x98BADCFE, 0x10325476, 0xC3D2E1F0) of
      (h0, h1, h2, h3, h4) \<Rightarrow> be_bytes h0 @ be_bytes h1 @ be_bytes h2 @ be_bytes h3 @ be_bytes h4)"

section \<open>Base64 and the accept key\<close>

definition kAlphabet :: string where
  "kAlphabet = ''ABCDEFGHIJKLMNOPQRSTUVWXYZabcdefghijklmnopqrstuvwxyz0123456789+/''"

definition b64_char :: "u32 \<Rightarrow> nat \<Rightarrow> char" where
  "b64_char triple sh = kAlphabet ! unat (drop_bit sh triple AND 0x3f)"

definition b64_triple :: "u8 \<Rightarrow> u8 \<Rightarrow> u8 \<Rightarrow> u32" where
  "b64_triple a b c = push_bit 16 (ucast a) OR push_bit 8 (ucast b) OR ucast c"

fun base64Encode :: "bytes \<Rightarrow> string" where
  "base64Encode [] = []"
| "base64Encode [a] =
     (let t = b64_triple a 0 0 in [b64_char t 18, b64_char t 12, CHR ''='', CHR ''=''])"
| "base64Encode [a, b] =
     (let t = b64_triple a b 0 in [b64_char t 18, b64_char t 12, b64_char t 6, CHR ''=''])"
| "base64Encode (a # b # c # rest) =
     (let t = b64_triple a b c
      in [b64_char t 18, b64_char t 12, b64_char t 6, b64_char t 0] @ base64Encode rest)"

definition acceptKey :: "string \<Rightarrow> string" where
  "acceptKey clientKey = base64Encode (sha1 (bytes_of (clientKey @ handshakeGuid)))"

section \<open>Frames\<close>

definition kContinuation :: nat where "kContinuation = 0x0"
definition kText :: nat where "kText = 0x1"
definition kBinary :: nat where "kBinary = 0x2"
definition kClose :: nat where "kClose = 0x8"
definition kPing :: nat where "kPing = 0x9"
definition kPong :: nat where "kPong = 0xA"

definition isControl :: "nat \<Rightarrow> bool" where
  "isControl opcode \<longleftrightarrow> opcode \<ge> 0x8"

record FrameHeader =
  fh_fin :: bool
  fh_rsv1 :: bool
  fh_opcode :: nat
  fh_masked :: bool
  fh_length :: u64
  fh_headerSize :: nat
  fh_mask :: bytes

text \<open>\<open>for (i = 0; i < 8; i++) length = (length << 8) | data[pos + i];\<close>\<close>

definition be_length :: "bytes \<Rightarrow> u64" where
  "be_length bs = foldl (\<lambda>l b. push_bit 8 l OR ucast b) 0 bs"

definition known_opcode :: "nat \<Rightarrow> bool" where
  "known_opcode op \<longleftrightarrow> op = 0x0 \<or> op = 0x1 \<or> op = 0x2 \<or> op = 0x8 \<or> op = 0x9 \<or> op = 0xA"

text \<open>The extended length field: the length and the offset past it, or \<open>None\<close> for \<open>return false\<close>.\<close>

definition parse_length :: "bytes \<Rightarrow> (u64 \<times> nat) option" where
  "parse_length data =
     (let len7 = data ! 1 AND 0x7f
      in if len7 = 126 then
           (if length data < 4 then None
            else Some (push_bit 8 (ucast (data ! 2)) OR ucast (data ! 3), 4))
         else if len7 = 127 then
           (if length data < 10 then None
            else if data ! 2 AND 0x80 \<noteq> 0 then None
            else Some (be_length (take 8 (drop 2 data)), 10))
         else Some (ucast len7, 2))"

definition parseHeader :: "bytes \<Rightarrow> bool \<Rightarrow> FrameHeader option" where
  "parseHeader data allowRsv1 =
     (if length data < 2 then None else
      let b0 = data ! 0; b1 = data ! 1; opcode = unat (b0 AND 0x0f) in
      if b0 AND 0x30 \<noteq> 0 then None else
      if b0 AND 0x40 \<noteq> 0 \<and> (\<not> allowRsv1 \<or> isControl opcode) then None else
      if \<not> known_opcode opcode then None else
      let masked = (b1 AND 0x80 \<noteq> 0) in
      case parse_length data of None \<Rightarrow> None | Some (len, pos) \<Rightarrow>
      if isControl opcode \<and> b0 AND 0x80 = 0 then None else
      if isControl opcode \<and> len > 125 then None else
      let h = \<lparr>fh_fin = (b0 AND 0x80 \<noteq> 0), fh_rsv1 = (b0 AND 0x40 \<noteq> 0), fh_opcode = opcode,
               fh_masked = masked, fh_length = len, fh_headerSize = pos,
               fh_mask = [0, 0, 0, 0]\<rparr> in
      if masked then
        (if length data < pos + 4 then None
         else Some (h\<lparr>fh_mask := take 4 (drop pos data), fh_headerSize := pos + 4\<rparr>))
      else Some h)"

text \<open>The bytes \<open>encodeFrame\<close> appends to its output vector. \<open>n\<close> is a 64-bit size.\<close>

definition encode_length :: "nat \<Rightarrow> bytes" where
  "encode_length n =
     (if n < 126 then [word_of_nat n]
      else if n \<le> 0xffff then
        [126, ucast (drop_bit 8 (word_of_nat n :: u64) AND 0xff),
         ucast ((word_of_nat n :: u64) AND 0xff)]
      else 127 # map (\<lambda>i. ucast (drop_bit (8 * i) (word_of_nat n :: u64) AND 0xff)) (rev [0..<8]))"

definition encodeFrame :: "nat \<Rightarrow> bytes \<Rightarrow> bool \<Rightarrow> bytes" where
  "encodeFrame opcode payload fin =
     ((if fin then 0x80 else 0x00) OR (word_of_nat opcode AND 0x0f)) #
     encode_length (length payload) @ payload"

definition validCloseCode :: "int \<Rightarrow> bool" where
  "validCloseCode code =
     (if code \<ge> 3000 \<and> code \<le> 4999 then True
      else if code < 1000 \<or> code > 1014 then False
      else code \<noteq> 1004 \<and> code \<noteq> 1005 \<and> code \<noteq> 1006)"

section \<open>The UTF-8 validator\<close>

definition cp3 :: "u8 \<Rightarrow> u8 \<Rightarrow> u8 \<Rightarrow> u32" where
  "cp3 c d1 d2 = push_bit 12 (ucast (c AND 0x0f)) OR push_bit 6 (ucast (d1 AND 0x3f)) OR
     ucast (d2 AND 0x3f)"

definition cp4 :: "u8 \<Rightarrow> u8 \<Rightarrow> u8 \<Rightarrow> u8 \<Rightarrow> u32" where
  "cp4 c d1 d2 d3 = push_bit 18 (ucast (c AND 0x07)) OR push_bit 12 (ucast (d1 AND 0x3f)) OR
     push_bit 6 (ucast (d2 AND 0x3f)) OR ucast (d3 AND 0x3f)"

text \<open>The continuation bytes a lead byte needs, or \<open>None\<close> where the code returns false.\<close>

definition utf8_need :: "u8 \<Rightarrow> nat option" where
  "utf8_need c =
     (if c < 0x80 then Some 0
      else if c AND 0xe0 = 0xc0 then (if c < 0xc2 then None else Some 1)
      else if c AND 0xf0 = 0xe0 then Some 2
      else if c AND 0xf8 = 0xf0 then (if c > 0xf4 then None else Some 3)
      else None)"

fun validUtf8 :: "bytes \<Rightarrow> bool" where
  "validUtf8 [] = True"
| "validUtf8 (c # rest) =
     (case utf8_need c of
        None \<Rightarrow> False
      | Some need \<Rightarrow>
          if length rest < need then False
          else if \<exists>j < need. rest ! j AND 0xc0 \<noteq> 0x80 then False
          else if need = 2 \<and>
            (let cp = cp3 c (rest ! 0) (rest ! 1) in cp < 0x800 \<or> (cp \<ge> 0xd800 \<and> cp \<le> 0xdfff))
            then False
          else if need = 3 \<and> cp4 c (rest ! 0) (rest ! 1) (rest ! 2) < 0x10000 then False
          else validUtf8 (drop need rest))"

section \<open>Lemmas: SHA-1 and base64\<close>

lemma pad_loop_spec: "pad_loop p mod 64 = 56 \<and> p \<le> pad_loop p \<and> pad_loop p \<le> p + pad_dist (p mod 64)"
proof (induction p rule: pad_loop.induct)
  case (1 p)
  show ?case
  proof (cases "p mod 64 = 56")
    case True
    then show ?thesis by (simp add: pad_loop.simps [of p])
  next
    case False
    then have "pad_dist (Suc (p mod 64) mod 64) < pad_dist (p mod 64)"
      by (intro pad_dist_Suc) simp_all
    then have d: "pad_dist (Suc p mod 64) < pad_dist (p mod 64)"
      by (simp only: mod_Suc_eq)
    from False have e: "pad_loop p = pad_loop (Suc p)" by (simp add: pad_loop.simps [of p])
    from False "1.IH" have "pad_loop (Suc p) mod 64 = 56 \<and> Suc p \<le> pad_loop (Suc p) \<and>
        pad_loop (Suc p) \<le> Suc p + pad_dist (Suc p mod 64)"
      by (simp only: Suc_eq_plus1 not_False_eq_True simp_thms)
    with d show ?thesis unfolding e by linarith
  qed
qed

lemma length_sha1_msg: "length (sha1_msg d) mod 64 = 0 \<and> length (sha1_msg d) = pad_loop (length d + 1) + 8"
proof -
  let ?p = "pad_loop (length d + 1)"
  from pad_loop_spec [of "length d + 1"] have p: "?p mod 64 = 56" "length d + 1 \<le> ?p" by auto
  then have "length (sha1_msg d) = ?p + 8" by (simp add: sha1_msg_def Let_def)
  moreover have "(?p + 8) mod 64 = 0" using p(1) by (simp only: mod_add_left_eq [symmetric, of ?p]) simp
  ultimately show ?thesis by simp
qed

lemma take_sha1_msg: "take (length d + 1) (sha1_msg d) = d @ [0x80]"
  by (simp add: sha1_msg_def Let_def)

lemma length_sha1: "length (sha1 d) = 20"
  by (simp add: sha1_def be_bytes_def split: prod.splits)

lemma length_base64: "length (base64Encode d) = 4 * ((length d + 2) div 3)"
proof (induction d rule: base64Encode.induct)
  case (4 a b c rest)
  have "(5 + length rest) div 3 = Suc ((2 + length rest) div 3)" by presburger
  with 4 show ?case by (simp add: Let_def)
qed (simp_all add: Let_def)

section \<open>Lemmas: base64 round trip\<close>

lemma unat_b64_triple: "unat (b64_triple a b c) = unat a * 65536 + unat b * 256 + unat c"
proof -
  have b: "unat a \<le> 255" "unat b \<le> 255" "unat c \<le> 255"
    using unat_u8_less [of a] unat_u8_less [of b] unat_u8_less [of c] by linarith+
  have e: "b64_triple a b c = ucast a * 65536 + (ucast b * 256 + ucast c)"
  proof -
    have 1: "push_bit 8 (ucast b) OR ucast c = (ucast b * 256 + ucast c :: u32)"
      by (simp add: push_or_ucast)
    have 2: "push_bit 16 (ucast a :: u32) AND (push_bit 8 (ucast b) OR ucast c) = 0"
      by (rule bit_word_eqI) (auto simp: bit_simps dest: bit_imp_le_length)
    show ?thesis unfolding b64_triple_def or_disj_add [OF 2] unfolding 1
      by (simp add: push_bit_eq_mult)
  qed
  have u: "unat (ucast x :: u32) = unat x" for x :: u8
  proof -
    have "unat x < 2 ^ 32" using unat_u8_less [of x] by (rule less_trans) simp
    then show ?thesis by (simp add: unsigned_ucast_eq take_bit_eq_mod)
  qed
  have "b64_triple a b c = word_of_nat (unat a * 65536 + unat b * 256 + unat c)"
    unfolding e by (rule word_unat_eq_iff [THEN iffD2]) (simp add: unat_word_ariths u unat_of_nat take_bit_eq_mod mod_simps add.assoc)
  then show ?thesis using b by (simp only: unat_of_nat) (simp add: take_bit_eq_mod)
qed

text \<open>The RFC 4648 reading of the alphabet, and a decoder over it.\<close>

definition b64_idx :: "char \<Rightarrow> nat" where
  "b64_idx c = length (takeWhile (\<lambda>x. x \<noteq> c) kAlphabet)"

lemma distinct_kAlphabet: "distinct kAlphabet"
  by (simp add: kAlphabet_def)

lemma length_kAlphabet: "length kAlphabet = 64" by (simp add: kAlphabet_def)

lemma b64_idx_nth: "i < 64 \<Longrightarrow> b64_idx (kAlphabet ! i) = i"
proof -
  assume i: "i < 64"
  have "takeWhile (\<lambda>x. x \<noteq> kAlphabet ! i) kAlphabet = take i kAlphabet"
    by (rule takeWhile_eq_take_P_nth)
      (use i distinct_kAlphabet in \<open>auto simp: length_kAlphabet nth_eq_iff_index_eq\<close>)
  with i show ?thesis by (simp add: b64_idx_def length_kAlphabet)
qed

lemma b64_char_idx: "b64_idx (b64_char t sh) = unat t div 2 ^ sh mod 64"
proof -
  have m: "(0x3f::u32) = mask 6" by (simp add: mask_eq_exp_minus_1)
  have "unat (drop_bit sh t AND 0x3f) = unat t div 2 ^ sh mod 64"
    unfolding m unat_and_mask unat_drop_bit by simp
  then show ?thesis by (simp add: b64_char_def b64_idx_nth)
qed

fun b64_decode :: "string \<Rightarrow> nat list" where
  "b64_decode (p # q # r # s # rest) =
     (let n = b64_idx p * 262144 + b64_idx q * 4096 +
            (if r = CHR ''='' then 0 else b64_idx r * 64) +
            (if s = CHR ''='' then 0 else b64_idx s)
      in (if r = CHR ''='' then [n div 65536]
          else if s = CHR ''='' then [n div 65536, n div 256 mod 256]
          else [n div 65536, n div 256 mod 256, n mod 256]) @ b64_decode rest)"
| "b64_decode _ = []"

lemma b64_char_not_pad: "b64_char t sh \<noteq> CHR ''=''"
proof -
  have "unat (drop_bit sh t AND 0x3f) < 64"
  proof -
    have m: "(0x3f::u32) = mask 6" by (simp add: mask_eq_exp_minus_1)
    show ?thesis unfolding m unat_and_mask by simp
  qed
  then have "b64_char t sh \<in> set kAlphabet" by (simp add: b64_char_def length_kAlphabet)
  then show ?thesis by (auto simp: kAlphabet_def)
qed

lemma b64_sum: "t < 16777216 \<Longrightarrow>
  t div 262144 * 262144 + t div 4096 mod 64 * 4096 + t div 64 mod 64 * 64 + t mod 64 = (t::nat) \<and> t div 262144 mod 64 = t div 262144"
proof -
  assume t: "t < 16777216"
  have e: "t div 4096 = t div 64 div 64" "t div 262144 = t div 64 div 64 div 64"
    by (simp_all add: div_mult2_eq [symmetric])
  from t have "t div 64 div 64 div 64 mod 64 = t div 64 div 64 div 64"
    by (simp add: div_mult2_eq [symmetric] div_less_iff_less_mult)
  moreover have "t div 64 div 64 div 64 * 262144 + t div 64 div 64 mod 64 * 4096 + t div 64 mod 64 * 64 + t mod 64 = t"
    using div_mult_mod_eq [of t 64] div_mult_mod_eq [of "t div 64" 64]
      div_mult_mod_eq [of "t div 64 div 64" 64] by linarith
  ultimately show ?thesis unfolding e by blast
qed

lemma b64_bytes:
  "a < 256 \<Longrightarrow> b < 256 \<Longrightarrow> c < 256 \<Longrightarrow> (a * 65536 + b * 256 + c) div 65536 = (a::nat)"
  "a < 256 \<Longrightarrow> b < 256 \<Longrightarrow> c < 256 \<Longrightarrow> (a * 65536 + b * 256 + c) div 256 mod 256 = b"
  "c < 256 \<Longrightarrow> (a * 65536 + b * 256 + c) mod 256 = c"
proof -
  have e: "a * 65536 + b * 256 + c = (a * 256 + b) * 256 + c" by simp
  have d: "(x * 256 + y) div 256 = x" "(x * 256 + y) mod 256 = y" if "y < 256" for x y :: nat
    using that by simp_all
  show "(a * 65536 + b * 256 + c) mod 256 = c" if "c < 256" unfolding e using that by (rule d)
  assume b: "a < 256" "b < 256" "c < 256"
  show "(a * 65536 + b * 256 + c) div 256 mod 256 = b" unfolding e d(1) [OF b(3)] by (rule d(2) [OF b(2)])
  have "(a * 65536 + b * 256 + c) div 65536 = (a * 65536 + b * 256 + c) div 256 div 256"
    by (simp add: div_mult2_eq [symmetric])
  then show "(a * 65536 + b * 256 + c) div 65536 = a"
    unfolding e d(1) [OF b(3)] d(1) [OF b(2)] .
qed

lemma b64_decode_encode: "b64_decode (base64Encode d) = map unat d"
proof (induction d rule: base64Encode.induct)
  case 1
  then show ?case by simp
next
  case (2 a)
  define t where "t = unat a * 65536"
  have z: "t div 64 mod 64 = 0" "t mod 64 = 0" by (simp_all add: t_def)
  have "t < 16777216" using unat_u8_less [of a] by (simp add: t_def)
  from b64_sum [OF this] z have "t div 262144 * 262144 + t div 4096 mod 64 * 4096 = t" "t div 262144 mod 64 = t div 262144" by linarith+
  moreover have "unat (b64_triple a 0 0) = t" "t div 65536 = unat a" by (simp_all add: unat_b64_triple t_def)
  ultimately show ?case by (simp add: Let_def b64_char_idx)
next
  case (3 a b)
  define t where "t = unat a * 65536 + unat b * 256"
  have "t = 64 * (unat a * 1024 + unat b * 4)" by (simp add: t_def)
  then have z: "t mod 64 = 0" by simp
  have "t < 16777216" using unat_u8_le [of a] unat_u8_le [of b] by (simp add: t_def)
  from b64_sum [OF this] z
  have "t div 262144 * 262144 + t div 4096 mod 64 * 4096 + t div 64 mod 64 * 64 = t"
    "t div 262144 mod 64 = t div 262144" by linarith+
  moreover have "unat (b64_triple a b 0) = t" by (simp add: unat_b64_triple t_def)
  moreover have "t div 65536 = unat a" "t div 256 mod 256 = unat b"
    using b64_bytes [of "unat a" "unat b" 0] by (simp_all add: t_def)
  ultimately show ?case by (simp add: Let_def b64_char_idx b64_char_not_pad)
next
  case (4 a b c rest)
  define t where "t = unat a * 65536 + unat b * 256 + unat c"
  have "t < 16777216" using unat_u8_le [of a] unat_u8_le [of b] unat_u8_le [of c] by (simp add: t_def)
  note s = b64_sum [OF this]
  have "unat (b64_triple a b c) = t" by (simp add: unat_b64_triple t_def)
  moreover have "t div 65536 = unat a" "t div 256 mod 256 = unat b" "t mod 256 = unat c"
    using b64_bytes(1,2) [of "unat a" "unat b" "unat c"] b64_bytes(3) [of "unat c" "unat a" "unat b"]
    by (simp_all add: t_def)
  ultimately show ?case using 4 s by (simp add: Let_def b64_char_idx b64_char_not_pad)
qed

section \<open>Lemmas: frames\<close>

lemma be_length_snoc: "be_length (bs @ [b]) = be_length bs * 256 + ucast b"
  by (simp add: be_length_def push_or_ucast)

lemma unat_be_length: "length bs \<le> 8 \<Longrightarrow> unat (be_length bs) = from_digits 256 (map unat bs)"
proof (induction bs rule: rev_induct)
  case Nil
  then show ?case by (simp add: be_length_def)
next
  case (snoc b bs)
  let ?d = "from_digits 256 (map unat bs)"
  from snoc have IH: "unat (be_length bs) = ?d" by simp
  have "?d < 256 ^ length bs" using foldl_digits_less [of 256 "map unat bs"] by simp
  also have "(256::nat) ^ length bs \<le> 256 ^ 7" using snoc.prems by (intro power_increasing) auto
  finally have "?d < 2 ^ 56" by simp
  moreover have "unat b \<le> 255" using unat_u8_less [of b] by linarith
  ultimately have "?d * 256 + unat b < 2 ^ 64" by simp
  then show ?case
    by (simp add: be_length_snoc unat_word_ariths IH unsigned_ucast_eq take_bit_eq_mod mod_simps)
qed

lemma unat_be_length_16:
  "unat (push_bit 8 (ucast (a::u8)) OR ucast (b::u8) :: u64) = unat a * 256 + unat b"
proof -
  have "push_bit 8 (ucast a) OR ucast b = be_length [a, b]"
    by (simp add: be_length_def)
  then show ?thesis by (simp add: unat_be_length from_digits_def)
qed

lemma parse_length_encode:
  assumes "n < 2 ^ 63"
  shows "parse_length (b0 # encode_length n @ rest) = Some (word_of_nat n, 1 + length (encode_length n))"
proof -
  have u64: "unat (word_of_nat n :: u64) = n" using assms by (simp add: unat_of_nat take_bit_eq_mod)
  consider "n < 126" | "126 \<le> n" "n \<le> 0xffff" | "0xffff < n" by linarith
  then show ?thesis
  proof cases
    case 1
    then have u8: "unat (word_of_nat n :: u8) = n" by (simp add: unat_of_nat take_bit_eq_mod)
    have 7: "word_of_nat n AND 0x7f = (word_of_nat n :: u8)"
      by (rule word_unat_eq_iff [THEN iffD2]) (use 1 in \<open>simp only: low_masks u8; simp\<close>)
    have ne: "(word_of_nat n :: u8) \<noteq> 126" "(word_of_nat n :: u8) \<noteq> 127"
      using 1 u8 by auto
    have "(ucast (word_of_nat n :: u8) :: u64) = word_of_nat n"
      by (rule word_unat_eq_iff [THEN iffD2]) (use 1 u8 u64 in \<open>simp add: unsigned_ucast_eq take_bit_eq_mod\<close>)
    with 1 7 ne show ?thesis by (simp add: parse_length_def encode_length_def Let_def)
  next
    case 2
    let ?w = "word_of_nat n :: u64"
    have hi: "unat (ucast (drop_bit 8 ?w AND 0xff) :: u8) = n div 256 mod 256"
      using unat_byte_at [of 1 ?w] by (simp only: u64) simp
    have lo: "unat (ucast (?w AND 0xff) :: u8) = n mod 256"
      using unat_byte_at [of 0 ?w] by (simp only: u64) simp
    have "push_bit 8 (ucast (ucast (drop_bit 8 ?w AND 0xff) :: u8)) OR ucast (ucast (?w AND 0xff) :: u8) = ?w"
      by (rule word_unat_eq_iff [THEN iffD2])
        (use 2 in \<open>simp only: unat_be_length_16 hi lo u64, simp\<close>)
    with 2 show ?thesis by (simp add: parse_length_def encode_length_def Let_def)
  next
    case 3
    let ?w = "word_of_nat n :: u64"
    let ?bs = "map (\<lambda>i. ucast (drop_bit (8 * i) ?w AND 0xff)) (rev [0..<8]) :: bytes"
    have len: "length ?bs = 8" by simp
    have bs: "map unat ?bs = map (\<lambda>i. n div 256 ^ i mod 256) (rev [0..<8])"
      unfolding list.map_comp comp_def unat_byte_at u64 by (rule refl)
    have "from_digits 256 (map unat ?bs) = n"
      unfolding bs from_digits_256 using assms by simp
    then have "be_length ?bs = ?w"
      by (intro word_unat_eq_iff [THEN iffD2]) (simp only: unat_be_length len u64)
    moreover have "?bs ! 0 AND 0x80 = 0"
    proof -
      have "unat (?bs ! 0) = n div 256 ^ 7 mod 256"
        using unat_byte_at [of 7 ?w] by (simp only: u64) (simp add: upt_rec)
      also have "\<dots> < 128" using assms by (simp add: div_less_iff_less_mult)
      finally show ?thesis by (simp only: bit7_iff)
    qed
    moreover have "take 8 (?bs @ rest) = ?bs" "(?bs @ rest) ! 0 = ?bs ! 0"
      using len by (simp_all add: nth_append)
    moreover have e: "encode_length n = 127 # ?bs" using 3 by (simp add: encode_length_def)
    ultimately show ?thesis unfolding e
      by (simp add: parse_length_def Let_def numeral_2_eq_2 del: upt_Suc)
  qed
qed

lemma opcode_byte:
  fixes b :: u8
  assumes "known_opcode op" "b = ((if fin then 0x80 else 0x00) OR (word_of_nat op AND 0x0f))"
  shows "b AND 0x30 = 0" "b AND 0x40 = 0" "unat (b AND 0x0f) = op" "(b AND 0x80 = 0) = (\<not> fin)"
  using assms(1) unfolding assms(2) known_opcode_def by (cases fin; auto)+

lemma encode_length_unmasked: "(b0 # encode_length n @ rest) ! 1 AND 0x80 = 0"
proof (cases "n < 126")
  case True
  then have "unat (word_of_nat n :: u8) < 128" by (simp add: unat_of_nat take_bit_eq_mod)
  with True show ?thesis by (simp add: encode_length_def bit7_iff)
qed (simp add: encode_length_def)

lemma encode_length_nonempty [simp]: "encode_length n \<noteq> []"
  by (simp add: encode_length_def)

lemma parseHeader_encodeFrame:
  assumes "known_opcode op" "isControl op \<longrightarrow> fin \<and> length p \<le> 125" "length p < 2 ^ 63"
  shows "parseHeader (encodeFrame op p fin @ rest) r =
    Some \<lparr>fh_fin = fin, fh_rsv1 = False, fh_opcode = op, fh_masked = False,
      fh_length = word_of_nat (length p), fh_headerSize = 1 + length (encode_length (length p)),
      fh_mask = [0, 0, 0, 0]\<rparr>"
proof -
  let ?n = "length p"
  define b :: u8 where "b = ((if fin then 0x80 else 0x00) OR (word_of_nat op AND 0x0f))"
  note ob = opcode_byte [OF assms(1) b_def]
  have fr: "encodeFrame op p fin @ rest = b # encode_length ?n @ (p @ rest)"
    by (simp add: encodeFrame_def b_def)
  have small: "\<not> (125::u64) < word_of_nat ?n" if "isControl op"
    using assms(2) that by (simp add: word_less_nat_alt unat_of_nat take_bit_eq_mod)
  from ob small assms(1,2) show ?thesis
    unfolding fr parseHeader_def Let_def parse_length_encode [OF assms(3)]
    by (simp add: encode_length_unmasked [simplified])
qed

text \<open>Bytes that arrive later never change a header that parsed.\<close>

lemma parse_length_append:
  "2 \<le> length d \<Longrightarrow> parse_length d = Some x \<Longrightarrow> parse_length (d @ e) = Some x"
  by (auto simp: parse_length_def Let_def nth_append split: if_splits)

lemma parse_length_bounds: "parse_length d = Some (n, pos) \<Longrightarrow> 2 \<le> pos \<and> pos \<le> 10 \<and> (2 \<le> length d \<longrightarrow> pos \<le> length d)"
  by (auto simp: parse_length_def Let_def split: if_splits)

lemma parseHeader_append:
  assumes "parseHeader d r = Some h"
  shows "parseHeader (d @ e) r = Some h"
proof -
  from assms obtain n pos where d: "2 \<le> length d" "parse_length d = Some (n, pos)"
    by (auto simp: parseHeader_def Let_def split: if_splits option.splits)
  note bs = parse_length_bounds [OF d(2)] and pe = parse_length_append [OF d, of e]
  have n: "(d @ e) ! 0 = d ! 0" "(d @ e) ! 1 = d ! 1" using d(1) by (auto simp: nth_append)
  show ?thesis
    using assms d(1) bs unfolding parseHeader_def Let_def n pe d(2)
    by (auto split: if_splits)
qed

lemma parseHeader_size:
  assumes "parseHeader d r = Some h"
  shows "2 \<le> fh_headerSize h \<and> fh_headerSize h \<le> 14 \<and> fh_headerSize h \<le> length d \<and>
    known_opcode (fh_opcode h) \<and> length (fh_mask h) = 4 \<and>
    (isControl (fh_opcode h) \<longrightarrow> fh_fin h \<and> \<not> fh_rsv1 h \<and> unat (fh_length h) \<le> 125)"
proof -
  from assms obtain n pos where d: "2 \<le> length d" "parse_length d = Some (n, pos)"
    by (auto simp: parseHeader_def Let_def split: if_splits option.splits)
  from assms parse_length_bounds [OF d(2)] d show ?thesis
    by (auto simp: parseHeader_def Let_def word_less_nat_alt split: if_splits)
qed

section \<open>Properties\<close>

text \<open>
  C24: A frame the server encodes is read back by the frame parser, whatever follows it in the
  buffer: the header names the same opcode, FIN bit and length, is not masked, and the payload
  stands right after it. Every opcode the engine speaks is covered, control frames within the
  RFC's 125 bytes, and payloads up to the 63-bit length limit.
\<close>

theorem encode_parse_roundtrip:
  assumes "known_opcode op" "isControl op \<longrightarrow> fin \<and> length p \<le> 125" "length p < 2 ^ 63"
  shows "\<exists>h. parseHeader (encodeFrame op p fin @ rest) r = Some h \<and>
    fh_opcode h = op \<and> fh_fin h = fin \<and> \<not> fh_rsv1 h \<and> \<not> fh_masked h \<and>
    unat (fh_length h) = length p \<and>
    fh_headerSize h + length p = length (encodeFrame op p fin) \<and>
    take (length p) (drop (fh_headerSize h) (encodeFrame op p fin @ rest)) = p"
proof -
  have "unat (word_of_nat (length p) :: u64) = length p"
    using assms(3) by (simp add: unat_of_nat take_bit_eq_mod)
  with parseHeader_encodeFrame [OF assms, of rest r] show ?thesis
    by (simp add: encodeFrame_def)
qed

theorem encode_parse_roundtrip_witness:
  "\<exists>h. parseHeader (encodeFrame 8 [3, 232] True @ [7]) False = Some h \<and> fh_opcode h = 8 \<and>
     unat (fh_length h) = 2 \<and> fh_headerSize h = 2"
proof -
  have "known_opcode 8" "isControl 8 \<longrightarrow> True \<and> length [3, 232 :: u8] \<le> 125" "length [3, 232 :: u8] < 2 ^ 63"
    by (simp_all add: known_opcode_def)
  from encode_parse_roundtrip [OF this, of "[7]" False] show ?thesis
    by (auto simp: encodeFrame_def encode_length_def)
qed

text \<open>
  The handshake answer is well formed for every client key: the accept key is the base64 text
  of a 20-byte digest (28 characters), it decodes back to exactly that digest, and the padded
  message the digest is computed over is a whole number of 64-byte blocks that starts with the
  key and the RFC 6455 GUID.
\<close>

theorem acceptKey_wellformed:
  "length (acceptKey k) = 28 \<and>
   b64_decode (acceptKey k) = map unat (sha1 (bytes_of (k @ handshakeGuid))) \<and>
   length (sha1_msg (bytes_of (k @ handshakeGuid))) mod 64 = 0 \<and>
   take (length k + 37) (sha1_msg (bytes_of (k @ handshakeGuid))) = bytes_of (k @ handshakeGuid) @ [0x80]"
proof -
  let ?m = "bytes_of (k @ handshakeGuid)"
  have "length ?m + 1 = length k + 37" by (simp add: handshakeGuid_def)
  with take_sha1_msg [of ?m] have "take (length k + 37) (sha1_msg ?m) = ?m @ [0x80]" by (simp only:)
  moreover have "length (acceptKey k) = 28"
    by (simp add: acceptKey_def length_base64 length_sha1)
  moreover have "b64_decode (acceptKey k) = map unat (sha1 ?m)"
    by (simp add: acceptKey_def b64_decode_encode)
  ultimately show ?thesis using length_sha1_msg [of ?m] by blast
qed

text \<open>
  A header that parses is in bounds and stable: it lies inside the buffered bytes, is at most 14
  bytes long, names an opcode the engine speaks, never describes a fragmented, compressed or
  over-long control frame, and stays the same when more bytes arrive (so waiting for the payload
  re-reads the same header).
\<close>

theorem parseHeader_stable:
  assumes "parseHeader d r = Some h"
  shows "parseHeader (d @ e) r = Some h \<and> fh_headerSize h \<le> length d \<and> fh_headerSize h \<le> 14 \<and>
    known_opcode (fh_opcode h) \<and>
    (isControl (fh_opcode h) \<longrightarrow> fh_fin h \<and> \<not> fh_rsv1 h \<and> unat (fh_length h) \<le> 125)"
  using parseHeader_append [OF assms, of e] parseHeader_size [OF assms] by simp

theorem parseHeader_stable_witness:
  "parseHeader ([0x81, 0x83, 1, 2, 3, 4] @ [5, 6]) False \<noteq> None"
proof -
  have "parseHeader [0x81, 0x83, 1, 2, 3, 4] False =
      Some \<lparr>fh_fin = True, fh_rsv1 = False, fh_opcode = 1, fh_masked = True, fh_length = 3,
        fh_headerSize = 6, fh_mask = [1, 2, 3, 4]\<rparr>"
    by (simp add: parseHeader_def parse_length_def Let_def known_opcode_def isControl_def)
  from parseHeader_stable [OF this, of "[5, 6]"] show ?thesis by simp
qed

end
