(* ===== verification/WsUtf8.thy ===== *)
theory WsUtf8
  imports WsCodec
begin

text \<open>
  What \<open>ws::validUtf8\<close> accepts, as a set of code points. The validator of \<open>WsCodec.h\<close> is related
  to an encoder written from RFC 3629: a buffer is accepted exactly when it is a concatenation of
  encodings of code points below \<open>0x140000\<close> that are not surrogates. The upper bound is not
  Unicode's \<open>0x10FFFF\<close>: the check on the lead byte lets \<open>F4 90\<close> and above through.
\<close>

text \<open>The encoding of a code point in one to four bytes (RFC 3629).\<close>

definition utf8_enc :: "nat \<Rightarrow> nat list" where
  "utf8_enc cp =
     (if cp < 0x80 then [cp]
      else if cp < 0x800 then [0xC0 + cp div 64, 0x80 + cp mod 64]
      else if cp < 0x10000 then [0xE0 + cp div 4096, 0x80 + cp div 64 mod 64, 0x80 + cp mod 64]
      else [0xF0 + cp div 262144, 0x80 + cp div 4096 mod 64, 0x80 + cp div 64 mod 64,
            0x80 + cp mod 64])"

definition utf8_encode :: "nat \<Rightarrow> bytes" where
  "utf8_encode cp = map word_of_nat (utf8_enc cp)"

definition accepted_cp :: "nat \<Rightarrow> bool" where
  "accepted_cp cp \<longleftrightarrow> cp < 0xD800 \<or> (0xE000 \<le> cp \<and> cp < 0x140000)"

lemma unat_ucast32 [simp]: "unat (ucast (b::u8) :: u32) = unat b"
proof -
  have "unat b < 2 ^ 32" using unat_u8_less [of b] by (rule less_trans) simp
  then show ?thesis by (simp add: unsigned_ucast_eq take_bit_eq_mod)
qed

lemma push_or_small:
  fixes x y :: u32
  assumes "unat y < 2 ^ k" "unat x * 2 ^ k + unat y < 2 ^ 32" 
  shows "unat (push_bit k x OR y) = unat x * 2 ^ k + unat y"
proof -
  have "push_bit k x AND y = 0"
  proof (rule bit_word_eqI)
    fix n assume "n < LENGTH(32)"
    have "\<not> bit y n" if "k \<le> n"
    proof -
      have "unat y div 2 ^ n = 0" using assms(1) that
        by (meson div_less order_less_le_trans one_le_numeral power_increasing)
      then have "\<not> bit (unat y) n" by (simp add: bit_nat_def)
      then show ?thesis by (simp add: bit_unsigned_iff)
    qed
    then show "bit (push_bit k x AND y) n = bit 0 n" by (auto simp: bit_simps)
  qed
  then have "push_bit k x OR y = x * 2 ^ k + y" by (simp add: or_disj_add push_bit_eq_mult)
  also have "\<dots> = word_of_nat (unat x * 2 ^ k + unat y)" by simp
  finally show ?thesis using assms(2) by (simp only: unat_of_nat) (simp add: take_bit_eq_mod)
qed

lemma unat_cp3: "unat (cp3 c d1 d2) = unat c mod 16 * 4096 + unat d1 mod 64 * 64 + unat d2 mod 64"
proof -
  have b: "unat c mod 16 < 16" "unat d1 mod 64 < 64" "unat d2 mod 64 < 64" by simp_all
  have 1: "unat (push_bit 6 (ucast (d1 AND 0x3f)) OR ucast (d2 AND 0x3f) :: u32) =
      unat d1 mod 64 * 64 + unat d2 mod 64"
    using b push_or_small [of "ucast (d2 AND 0x3f)" 6 "ucast (d1 AND 0x3f)"]
    by (simp add: low_masks)
  show ?thesis
    using b push_or_small [of "push_bit 6 (ucast (d1 AND 0x3f)) OR ucast (d2 AND 0x3f)" 12 "ucast (c AND 0x0f)"]
    unfolding cp3_def 1 by (simp add: low_masks)
qed

lemma unat_cp4: "unat (cp4 c d1 d2 d3) =
  unat c mod 8 * 262144 + unat d1 mod 64 * 4096 + unat d2 mod 64 * 64 + unat d3 mod 64"
proof -
  have b: "unat c mod 8 < 8" "unat d1 mod 64 < 64" "unat d2 mod 64 < 64" "unat d3 mod 64 < 64" by simp_all
  have 1: "unat (push_bit 6 (ucast (d2 AND 0x3f)) OR ucast (d3 AND 0x3f) :: u32) =
      unat d2 mod 64 * 64 + unat d3 mod 64"
    using b push_or_small [of "ucast (d3 AND 0x3f)" 6 "ucast (d2 AND 0x3f)"]
    by (simp add: low_masks)
  have 2: "unat (push_bit 12 (ucast (d1 AND 0x3f)) OR (push_bit 6 (ucast (d2 AND 0x3f)) OR ucast (d3 AND 0x3f)) :: u32) =
      unat d1 mod 64 * 4096 + unat d2 mod 64 * 64 + unat d3 mod 64"
    using b push_or_small [of "push_bit 6 (ucast (d2 AND 0x3f)) OR ucast (d3 AND 0x3f)" 12 "ucast (d1 AND 0x3f)"]
    unfolding 1 by (simp add: low_masks)
  show ?thesis
    using b push_or_small [of "push_bit 12 (ucast (d1 AND 0x3f)) OR (push_bit 6 (ucast (d2 AND 0x3f)) OR ucast (d3 AND 0x3f))" 18 "ucast (c AND 0x07)"]
    unfolding cp4_def 2 by (simp add: low_masks)
qed

lemma word_le_consts:
  "((c::u8) < 0x80) = (unat c < 128)" "(c < 0xc2) = (unat c < 194)" "(c > 0xf4) = (244 < unat c)"
  by (simp_all add: word_less_nat_alt)

lemma utf8_need_unat:
  "utf8_need c =
     (if unat c < 128 then Some 0
      else if 194 \<le> unat c \<and> unat c < 224 then Some 1
      else if 224 \<le> unat c \<and> unat c < 240 then Some 2
      else if 240 \<le> unat c \<and> unat c < 245 then Some 3 else None)"
  unfolding utf8_need_def high_masks word_le_consts by auto

text \<open>What one turn of the validator's loop accepts, in arithmetic on the byte values.\<close>

definition utf8_head :: "nat list \<Rightarrow> nat option" where
  "utf8_head ns =
     (case ns of
        [] \<Rightarrow> None
      | c # rest \<Rightarrow>
          if c < 128 then Some 1
          else if 194 \<le> c \<and> c < 224 then
            (case rest of d1 # _ \<Rightarrow> if 128 \<le> d1 \<and> d1 < 192 then Some 2 else None | _ \<Rightarrow> None)
          else if 224 \<le> c \<and> c < 240 then
            (case rest of d1 # d2 # _ \<Rightarrow>
               let cp = (c - 224) * 4096 + (d1 - 128) * 64 + (d2 - 128) in
               if 128 \<le> d1 \<and> d1 < 192 \<and> 128 \<le> d2 \<and> d2 < 192 \<and> 0x800 \<le> cp \<and>
                  \<not> (0xd800 \<le> cp \<and> cp \<le> 0xdfff) then Some 3 else None
             | _ \<Rightarrow> None)
          else if 240 \<le> c \<and> c < 245 then
            (case rest of d1 # d2 # d3 # _ \<Rightarrow>
               let cp = (c - 240) * 262144 + (d1 - 128) * 4096 + (d2 - 128) * 64 + (d3 - 128) in
               if 128 \<le> d1 \<and> d1 < 192 \<and> 128 \<le> d2 \<and> d2 < 192 \<and> 128 \<le> d3 \<and> d3 < 192 \<and>
                  0x10000 \<le> cp then Some 4 else None
             | _ \<Rightarrow> None)
          else None)"

lemma mod_minus: "k * q \<le> (n::nat) \<Longrightarrow> n < k * q + k \<Longrightarrow> n mod k = n - k * q"
  by (metis add_diff_cancel_left' le_add_diff_inverse less_diff_conv2 add.commute mod_less mod_mult_self2 mult.commute)

lemma cont_mod: "128 \<le> d \<Longrightarrow> d < 192 \<Longrightarrow> d mod 64 = d - (128::nat)"
  using mod_minus [of 64 2 d] by simp

lemma validUtf8_lead3:
  assumes c: "224 \<le> unat c" "unat c < 240"
  shows "validUtf8 (c # rest) =
     (case utf8_head (map unat (c # rest)) of None \<Rightarrow> False
      | Some k \<Rightarrow> validUtf8 (drop k (c # rest)))"
proof (cases "\<exists>d1 d2 r. rest = d1 # d2 # r")
  case True
  then obtain d1 d2 r where r: "rest = d1 # d2 # r" by blast
  have m: "unat c mod 16 = unat c - 224" using mod_minus [of 16 14 "unat c"] c by simp
  have j: "(\<exists>j < 2. rest ! j AND 0xc0 \<noteq> 0x80) = (d1 AND 0xc0 \<noteq> 0x80 \<or> d2 AND 0xc0 \<noteq> 0x80)"
    by (simp add: r numeral_2_eq_2 Ex_less_Suc2)
  show ?thesis
  proof (cases "d1 AND 0xc0 = 0x80 \<and> d2 AND 0xc0 = 0x80")
    case True
    then have d: "128 \<le> unat d1" "unat d1 < 192" "128 \<le> unat d2" "unat d2 < 192"
      by (simp_all add: high_masks)
    then have cp: "unat (cp3 c d1 d2) = (unat c - 224) * 4096 + (unat d1 - 128) * 64 + (unat d2 - 128)"
      by (simp only: unat_cp3 m cont_mod)
    with c True j d show ?thesis
      by (simp add: r utf8_head_def utf8_need_unat Let_def word_less_nat_alt word_le_nat_alt cp) auto
  next
    case False
    with c j show ?thesis by (auto simp: r utf8_head_def utf8_need_unat high_masks Let_def)
  qed
next
  case False
  then have "length rest < 2" by (metis Suc_le_length_iff linorder_not_le numeral_2_eq_2)
  with c False show ?thesis by (auto simp: utf8_head_def utf8_need_unat split: list.splits)
qed

lemma validUtf8_lead4:
  assumes c: "240 \<le> unat c" "unat c < 245"
  shows "validUtf8 (c # rest) =
     (case utf8_head (map unat (c # rest)) of None \<Rightarrow> False
      | Some k \<Rightarrow> validUtf8 (drop k (c # rest)))"
proof (cases "\<exists>d1 d2 d3 r. rest = d1 # d2 # d3 # r")
  case True
  then obtain d1 d2 d3 r where r: "rest = d1 # d2 # d3 # r" by blast
  have m: "unat c mod 8 = unat c - 240" using mod_minus [of 8 30 "unat c"] c by simp
  have j: "(\<exists>j < 3. rest ! j AND 0xc0 \<noteq> 0x80) =
      (d1 AND 0xc0 \<noteq> 0x80 \<or> d2 AND 0xc0 \<noteq> 0x80 \<or> d3 AND 0xc0 \<noteq> 0x80)"
    by (simp add: r numeral_3_eq_3 Ex_less_Suc2)
  show ?thesis
  proof (cases "d1 AND 0xc0 = 0x80 \<and> d2 AND 0xc0 = 0x80 \<and> d3 AND 0xc0 = 0x80")
    case True
    then have d: "128 \<le> unat d1" "unat d1 < 192" "128 \<le> unat d2" "unat d2 < 192"
        "128 \<le> unat d3" "unat d3 < 192"
      by (simp_all add: high_masks)
    then have cp: "unat (cp4 c d1 d2 d3) = (unat c - 240) * 262144 + (unat d1 - 128) * 4096 +
        (unat d2 - 128) * 64 + (unat d3 - 128)"
      by (simp only: unat_cp4 m cont_mod)
    with c True j d show ?thesis
      by (simp add: r utf8_head_def utf8_need_unat Let_def word_less_nat_alt word_le_nat_alt cp) auto
  next
    case False
    with c j show ?thesis by (auto simp: r utf8_head_def utf8_need_unat high_masks Let_def)
  qed
next
  case False
  then have "length rest < 3" by (metis Suc_le_length_iff linorder_not_le numeral_3_eq_3)
  with c False show ?thesis by (auto simp: utf8_head_def utf8_need_unat split: list.splits)
qed

lemma validUtf8_Cons:
  "validUtf8 (c # rest) =
     (case utf8_head (map unat (c # rest)) of None \<Rightarrow> False
      | Some k \<Rightarrow> validUtf8 (drop k (c # rest)))"
proof -
  consider "unat c < 128" | "194 \<le> unat c" "unat c < 224" | "224 \<le> unat c" "unat c < 240"
    | "240 \<le> unat c" "unat c < 245" | "128 \<le> unat c" "\<not> (194 \<le> unat c \<and> unat c < 245)" by linarith
  then show ?thesis
  proof cases
    case 1
    then show ?thesis by (simp add: utf8_head_def utf8_need_unat)
  next
    case 2
    then show ?thesis by (cases rest) (auto simp: utf8_head_def utf8_need_unat high_masks)
  next
    case 3
    then show ?thesis by (rule validUtf8_lead3)
  next
    case 4
    then show ?thesis by (rule validUtf8_lead4)
  next
    case 5
    then show ?thesis by (auto simp: utf8_head_def utf8_need_unat)
  qed
qed

declare validUtf8.simps(2) [simp del]

lemma div_mod_64:
  "c < 64 \<Longrightarrow> (a * 64 + c) div 64 = (a::nat)" "c < 64 \<Longrightarrow> (a * 64 + c) mod 64 = c"
  by simp_all

lemma utf8_head_enc:
  "accepted_cp cp \<Longrightarrow> utf8_head (utf8_enc cp @ ns) = Some (length (utf8_enc cp))"
proof -
  assume a: "accepted_cp cp"
  have e: "cp div 4096 = cp div 64 div 64" "cp div 262144 = cp div 64 div 64 div 64"
    by (simp_all add: div_mult2_eq [symmetric])
  have r: "cp div 4096 * 4096 + cp div 64 mod 64 * 64 + cp mod 64 = cp"
    "cp div 262144 * 262144 + cp div 4096 mod 64 * 4096 + cp div 64 mod 64 * 64 + cp mod 64 = cp"
    unfolding e using div_mult_mod_eq [of cp 64] div_mult_mod_eq [of "cp div 64" 64]
      div_mult_mod_eq [of "cp div 64 div 64" 64] by linarith+
  consider "cp < 0x80" | "0x80 \<le> cp" "cp < 0x800" | "0x800 \<le> cp" "cp < 0x10000" | "0x10000 \<le> cp" by linarith
  then show ?thesis
  proof cases
    case 1 then show ?thesis by (simp add: utf8_enc_def utf8_head_def)
  next
    case 2
    then have "2 \<le> cp div 64" "cp div 64 < 32" by (simp_all add: div_less_iff_less_mult less_eq_div_iff_mult_less_eq)
    with 2 show ?thesis by (simp add: utf8_enc_def utf8_head_def)
  next
    case 3
    then have "cp div 4096 < 16" by (simp add: div_less_iff_less_mult)
    with 3 a r(1) show ?thesis
      by (simp add: utf8_enc_def utf8_head_def Let_def accepted_cp_def) auto
  next
    case 4
    from 4 a have "cp div 262144 < 5" by (simp add: div_less_iff_less_mult accepted_cp_def)
    with 4 a r(2) show ?thesis
      by (simp add: utf8_enc_def utf8_head_def Let_def)
  qed
qed

lemma enc3:
  "c < 16 \<Longrightarrow> d1 < 64 \<Longrightarrow> d2 < 64 \<Longrightarrow> 0x800 \<le> c * 4096 + d1 * 64 + d2 \<Longrightarrow>
   utf8_enc (c * 4096 + d1 * 64 + d2) = [0xE0 + c, 0x80 + d1, 0x80 + d2]"
proof -
  assume b: "c < 16" "d1 < 64" "d2 < 64" "0x800 \<le> c * 4096 + d1 * 64 + d2"
  have e: "c * 4096 + d1 * 64 + d2 = (c * 64 + d1) * 64 + d2" by simp
  have "(c * 4096 + d1 * 64 + d2) div 64 = c * 64 + d1" "(c * 4096 + d1 * 64 + d2) mod 64 = d2"
    unfolding e using b div_mod_64 [of d2 "c * 64 + d1"] by blast+
  moreover from this have "(c * 4096 + d1 * 64 + d2) div 4096 = c"
    using b div_mod_64 [of d1 c] div_mult2_eq [of _ 64 64] by simp
  ultimately show ?thesis using b by (simp add: utf8_enc_def)
qed

lemma enc4:
  "c < 5 \<Longrightarrow> d1 < 64 \<Longrightarrow> d2 < 64 \<Longrightarrow> d3 < 64 \<Longrightarrow> 0x10000 \<le> c * 262144 + d1 * 4096 + d2 * 64 + d3 \<Longrightarrow>
   utf8_enc (c * 262144 + d1 * 4096 + d2 * 64 + d3) = [0xF0 + c, 0x80 + d1, 0x80 + d2, 0x80 + d3]"
proof -
  assume b: "c < 5" "d1 < 64" "d2 < 64" "d3 < 64" "0x10000 \<le> c * 262144 + d1 * 4096 + d2 * 64 + d3"
  let ?cp = "c * 262144 + d1 * 4096 + d2 * 64 + d3"
  have e: "?cp = ((c * 64 + d1) * 64 + d2) * 64 + d3" by simp
  have 1: "?cp div 64 = (c * 64 + d1) * 64 + d2" "?cp mod 64 = d3"
    unfolding e using b div_mod_64 [of d3 "(c * 64 + d1) * 64 + d2"] by blast+
  have 2: "?cp div 4096 = c * 64 + d1"
    using div_mult2_eq [of ?cp 64 64] b div_mod_64 [of d2 "c * 64 + d1"] unfolding 1 by simp
  have 3: "?cp div 262144 = c"
    using div_mult2_eq [of ?cp 4096 64] b div_mod_64 [of d1 c] unfolding 2 by simp
  have 4: "?cp div 64 mod 64 = d2" "?cp div 4096 mod 64 = d1"
    unfolding 1 2 using b div_mod_64 by blast+
  show ?thesis unfolding utf8_enc_def 1(2) 3 4 using b by simp
qed

lemma enc2: "2 \<le> c \<Longrightarrow> c < 32 \<Longrightarrow> d1 < 64 \<Longrightarrow> utf8_enc (c * 64 + d1) = [0xC0 + c, 0x80 + d1]"
  using div_mod_64 [of d1 c] by (simp add: utf8_enc_def)

lemma utf8_head_Some:
  assumes "utf8_head ns = Some k"
  shows "\<exists>cp. accepted_cp cp \<and> take k ns = utf8_enc cp \<and> k \<le> length ns"
proof -
  from assms obtain c rest where ns: "ns = c # rest" by (auto simp: utf8_head_def split: list.splits)
  consider "c < 128" | "194 \<le> c" "c < 224" | "224 \<le> c" "c < 240" | "240 \<le> c" "c < 245"
    using assms by (force simp: ns utf8_head_def split: if_splits)
  then show ?thesis
  proof cases
    case 1
    with assms show ?thesis by (intro exI [of _ c]) (auto simp: ns utf8_head_def utf8_enc_def accepted_cp_def)
  next
    case 2
    with assms obtain d1 r where d: "rest = d1 # r" "k = 2" "128 \<le> d1" "d1 < 192"
      by (auto simp: ns utf8_head_def split: list.splits if_splits)
    have "utf8_enc ((c - 192) * 64 + (d1 - 128)) = [c, d1]"
      using 2 d enc2 [of "c - 192" "d1 - 128"] by simp
    with 2 d show ?thesis
      by (intro exI [of _ "(c - 192) * 64 + (d1 - 128)"]) (auto simp: ns accepted_cp_def)
  next
    case 3
    with assms obtain d1 d2 r where d: "rest = d1 # d2 # r" "k = 3" "128 \<le> d1" "d1 < 192"
        "128 \<le> d2" "d2 < 192"
      and cp: "0x800 \<le> (c - 224) * 4096 + (d1 - 128) * 64 + (d2 - 128)"
        "\<not> (0xd800 \<le> (c - 224) * 4096 + (d1 - 128) * 64 + (d2 - 128) \<and>
            (c - 224) * 4096 + (d1 - 128) * 64 + (d2 - 128) \<le> 0xdfff)"
      by (auto simp: ns utf8_head_def Let_def split: list.splits if_splits)
    have "utf8_enc ((c - 224) * 4096 + (d1 - 128) * 64 + (d2 - 128)) = [c, d1, d2]"
      using 3 d cp(1) enc3 [of "c - 224" "d1 - 128" "d2 - 128"] by simp
    with 3 d cp show ?thesis
      by (intro exI [of _ "(c - 224) * 4096 + (d1 - 128) * 64 + (d2 - 128)"])
        (auto simp: ns accepted_cp_def numeral_3_eq_3)
  next
    case 4
    with assms obtain d1 d2 d3 r where d: "rest = d1 # d2 # d3 # r" "k = 4" "128 \<le> d1" "d1 < 192"
        "128 \<le> d2" "d2 < 192" "128 \<le> d3" "d3 < 192"
      and cp: "0x10000 \<le> (c - 240) * 262144 + (d1 - 128) * 4096 + (d2 - 128) * 64 + (d3 - 128)"
      by (auto simp: ns utf8_head_def Let_def split: list.splits if_splits)
    have "utf8_enc ((c - 240) * 262144 + (d1 - 128) * 4096 + (d2 - 128) * 64 + (d3 - 128)) = [c, d1, d2, d3]"
      using 4 d cp enc4 [of "c - 240" "d1 - 128" "d2 - 128" "d3 - 128"] by simp
    with 4 d cp show ?thesis
      by (intro exI [of _ "(c - 240) * 262144 + (d1 - 128) * 4096 + (d2 - 128) * 64 + (d3 - 128)"])
        (auto simp: ns accepted_cp_def)
  qed
qed

lemma utf8_enc_less: "accepted_cp cp \<Longrightarrow> \<forall>n \<in> set (utf8_enc cp). n < 256"
  by (auto simp: utf8_enc_def accepted_cp_def div_less_iff_less_mult intro: order.strict_trans1)

lemma map_unat_utf8_encode: "accepted_cp cp \<Longrightarrow> map unat (utf8_encode cp) = utf8_enc cp"
  using utf8_enc_less [of cp] by (auto simp: utf8_encode_def unat_of_nat take_bit_eq_mod intro!: map_idI)

lemma utf8_enc_nonempty: "utf8_enc cp \<noteq> []" by (simp add: utf8_enc_def)

lemma validUtf8_encode_append:
  assumes "accepted_cp cp"
  shows "validUtf8 (utf8_encode cp @ bs) = validUtf8 bs"
proof -
  have m: "map unat (utf8_encode cp @ bs) = utf8_enc cp @ map unat bs"
    using map_unat_utf8_encode [OF assms] by simp
  have l: "length (utf8_encode cp) = length (utf8_enc cp)" by (simp add: utf8_encode_def)
  then obtain c r where c: "utf8_encode cp @ bs = c # r"
    by (metis append_is_Nil_conv length_0_conv list.exhaust utf8_enc_nonempty)
  show ?thesis
    unfolding c validUtf8_Cons unfolding c [symmetric] m utf8_head_enc [OF assms]
    by (simp add: l [symmetric])
qed

lemma validUtf8_iff:
  "validUtf8 bs \<longleftrightarrow> (\<exists>cps. (\<forall>cp \<in> set cps. accepted_cp cp) \<and> bs = concat (map utf8_encode cps))"
proof
  show "validUtf8 bs \<Longrightarrow> \<exists>cps. (\<forall>cp \<in> set cps. accepted_cp cp) \<and> bs = concat (map utf8_encode cps)"
  proof (induction bs rule: length_induct)
    case (1 bs)
    show ?case
    proof (cases bs)
      case Nil
      then show ?thesis by (intro exI [of _ "[]"]) simp
    next
      case (Cons c rest)
      with "1.prems" obtain k where k: "utf8_head (map unat bs) = Some k" "validUtf8 (drop k bs)"
        by (auto simp: validUtf8_Cons split: option.splits)
      from utf8_head_Some [OF k(1)] obtain cp where
        cp: "accepted_cp cp" "take k (map unat bs) = utf8_enc cp" "k \<le> length bs" by auto
      have "0 < k" using cp utf8_enc_nonempty [of cp] by (cases k) auto
      with Cons have "length (drop k bs) < length bs" by simp
      with "1.IH" k(2) obtain cps where
        cps: "\<forall>cp \<in> set cps. accepted_cp cp" "drop k bs = concat (map utf8_encode cps)" by blast
      have "take k bs = utf8_encode cp"
        unfolding utf8_encode_def cp(2) [symmetric] by (simp add: take_map comp_def)
      then have "bs = concat (map utf8_encode (cp # cps))"
        using cps(2) append_take_drop_id [of k bs] by simp
      with cp(1) cps(1) show ?thesis by (intro exI [of _ "cp # cps"]) simp
    qed
  qed
next
  assume "\<exists>cps. (\<forall>cp \<in> set cps. accepted_cp cp) \<and> bs = concat (map utf8_encode cps)"
  then obtain cps where "\<forall>cp \<in> set cps. accepted_cp cp" "bs = concat (map utf8_encode cps)" by blast
  then show "validUtf8 bs"
    by (induction cps arbitrary: bs) (auto simp: validUtf8_encode_append)
qed
section \<open>Properties\<close>

text \<open>
  C25: The validator accepts exactly the concatenations of RFC 3629 encodings of non-surrogate code
  points below \<open>0x140000\<close>: no overlong form, no surrogate, no truncated sequence and no stray
  continuation byte passes, and every well-formed text does.
\<close>

theorem validUtf8_exact:
  "validUtf8 bs \<longleftrightarrow> (\<exists>cps. (\<forall>cp \<in> set cps. accepted_cp cp) \<and> bs = concat (map utf8_encode cps))"
  by (rule validUtf8_iff)

theorem validUtf8_exact_witness: "validUtf8 [0x61, 0xE2, 0x82, 0xAC]"
proof -
  have "\<forall>cp \<in> set [0x61, 0x20AC]. accepted_cp cp" by (simp add: accepted_cp_def)
  moreover have "[0x61, 0xE2, 0x82, 0xAC] = concat (map utf8_encode [0x61, 0x20AC])"
    by (simp add: utf8_encode_def utf8_enc_def)
  ultimately show ?thesis using validUtf8_exact [of "[0x61, 0xE2, 0x82, 0xAC]"] by blast
qed

text \<open>
  The strict check is not strict at the top of the range: the four bytes \<open>F4 90 80 80\<close>, which
  spell the code point \<open>0x110000\<close> beyond Unicode's last one, are accepted.
\<close>

lemma validUtf8_beyond_unicode:
  "validUtf8 [0xF4, 0x90, 0x80, 0x80] \<and> [0xF4, 0x90, 0x80, 0x80] = utf8_encode 0x110000 \<and>
   (0x110000 :: nat) > 0x10FFFF"
proof -
  have e: "[0xF4, 0x90, 0x80, 0x80] = utf8_encode 0x110000"
    by (simp add: utf8_encode_def utf8_enc_def)
  have "accepted_cp 0x110000" by (simp add: accepted_cp_def)
  from validUtf8_encode_append [OF this, of "[]"] e show ?thesis by simp
qed

end
