(* ===== verification/Router.thy ===== *)
theory Router
  imports Common "HOL-Library.List_Lexorder" "HOL-Library.Char_ord"
begin

text \<open>
  \<open>src/engine/Router.h\<close> and \<open>Router.cpp\<close>: the segment trie with \<open>:param\<close> captures and a trailing
  \<open>*\<close> wildcard. A \<open>std::map\<close> is an association list kept in key order; a node pointer is the
  subtree it points to, so registration rebuilds the path from the root; the depth-first search of
  \<open>match\<close> keeps the source's arena of frames and its explicit stack.
\<close>

section \<open>Routes\<close>

record StaticResponse =
  sr_status :: int
  sr_headers :: "header list"
  sr_body :: string

record RouteEntry =
  re_method :: Method
  re_customMethod :: string
  re_pattern :: string
  re_timeoutMs :: int
  re_isWebSocket :: bool
  re_streamBody :: bool
  re_maxBodyBytes :: int
  re_wsProtocols :: "string list"
  re_staticResponse :: "StaticResponse option"

definition default_route :: RouteEntry where
  "default_route = \<lparr>re_method = Get, re_customMethod = [], re_pattern = [], re_timeoutMs = -1,
     re_isWebSocket = False, re_streamBody = False, re_maxBodyBytes = -1, re_wsProtocols = [],
     re_staticResponse = None\<rparr>"

text \<open>\<open>MatchResult\<close>: \<open>matched\<close> is whether the route is present.\<close>

record MatchResult =
  mr_route :: "RouteEntry option"
  mr_params :: "route_param list"

definition mr_matched :: "MatchResult \<Rightarrow> bool" where
  "mr_matched m \<longleftrightarrow> mr_route m \<noteq> None"

section \<open>The trie\<close>

datatype node = Node
  (statik: "(string \<times> node) list")
  (param: "node option")
  (paramName: string)
  (wildcard: "node option")
  (entries: "(string \<times> RouteEntry) list")

definition empty_node :: node where
  "empty_node = Node [] None [] None []"

record router =
  root :: node
  rt_size :: nat

definition new_router :: router where
  "new_router = \<lparr>root = empty_node, rt_size = 0\<rparr>"

text \<open>\<open>std::map::operator[]\<close> assignment and \<open>erase\<close> on the ordered association list.\<close>

fun map_put :: "'k::linorder \<Rightarrow> 'v \<Rightarrow> ('k \<times> 'v) list \<Rightarrow> ('k \<times> 'v) list" where
  "map_put k v [] = [(k, v)]"
| "map_put k v ((k', v') # m) =
     (if k < k' then (k, v) # (k', v') # m
      else if k = k' then (k, v) # m
      else (k', v') # map_put k v m)"

definition map_erase :: "'k \<Rightarrow> ('k \<times> 'v) list \<Rightarrow> ('k \<times> 'v) list" where
  "map_erase k m = filter (\<lambda>(k', v). k' \<noteq> k) m"

section \<open>Keys, segments, patterns\<close>

definition methodKey :: "Method \<Rightarrow> string \<Rightarrow> string" where
  "methodKey m custom =
     (if m = Custom then ''C:'' @ custom
      else if m = All then ''A''
      else ''M:'' @ to_string (method_index m))"

lemma split_rest_shorter:
  assumes "path \<noteq> []"
  shows "length (dropWhile (\<lambda>c. c \<noteq> CHR ''/'') (dropWhile (\<lambda>c. c = CHR ''/'') path)) < length path"
proof (cases "dropWhile (\<lambda>c. c = CHR ''/'') path")
  case Nil
  then show ?thesis unfolding Nil using assms by simp
next
  case (Cons x xs)
  then have "x \<noteq> CHR ''/''" using hd_dropWhile [of "\<lambda>c. c = CHR ''/''" path] by force
  moreover have "length (x # xs) \<le> length path" using length_dropWhile_le Cons by metis
  moreover have "length (dropWhile (\<lambda>c. c \<noteq> CHR ''/'') xs) \<le> length xs" by (rule length_dropWhile_le)
  ultimately show ?thesis using Cons by simp
qed

text \<open>
  \<open>splitInto\<close>: skip the slashes, take the segment up to the next slash, push it when it is not
  empty, go on after it.
\<close>

function split :: "string \<Rightarrow> string list" where
  "split path =
     (if path = [] then []
      else let p1 = dropWhile (\<lambda>c. c = CHR ''/'') path;
               seg = takeWhile (\<lambda>c. c \<noteq> CHR ''/'') p1;
               rest = dropWhile (\<lambda>c. c \<noteq> CHR ''/'') p1
           in if seg \<noteq> [] then seg # split rest else split rest)"
  by pat_completeness auto

termination
  by (relation "measure length") (auto simp: split_rest_shorter)

declare split.simps [simp del]

definition validPattern :: "string \<Rightarrow> bool" where
  "validPattern pattern =
     (if pattern = [] \<or> hd pattern \<noteq> CHR ''/'' then False
      else let segs = split pattern
           in \<forall>i < length segs.
                let s = segs ! i
                in \<not> (s = [] \<or> s = '':'') \<and>
                   \<not> (hd s = CHR '':'' \<and> length s = 1) \<and>
                   (CHR ''*'' \<in> set s \<longrightarrow> s = ''*'' \<and> i = length segs - 1))"

section \<open>Registration\<close>

text \<open>
  The walk of \<open>add\<close> below one node, for the remaining segments: it creates the missing children
  and stores the entry at the last one. The flag says whether the key was new there (\<open>size_++\<close>).
\<close>

fun add_at :: "node \<Rightarrow> string list \<Rightarrow> string \<Rightarrow> RouteEntry \<Rightarrow> node \<times> bool" where
  "add_at (Node st pa pn wc en) [] key route =
     (Node st pa pn wc (map_put key route en), map_of en key = None)"
| "add_at (Node st pa pn wc en) (s # segs) key route =
     (if s = ''*'' then
        (let (child, fresh) = add_at (case wc of None \<Rightarrow> empty_node | Some n \<Rightarrow> n) segs key route
         in (Node st pa pn (Some child) en, fresh))
      else if hd s = CHR '':'' then
        (let pn' = (case pa of None \<Rightarrow> drop 1 s | Some _ \<Rightarrow> pn);
             (child, fresh) = add_at (case pa of None \<Rightarrow> empty_node | Some n \<Rightarrow> n) segs key route
         in (Node st (Some child) pn' wc en, fresh))
      else
        (let (child, fresh) =
               add_at (case map_of st s of None \<Rightarrow> empty_node | Some n \<Rightarrow> n) segs key route
         in (Node (map_put s child st) pa pn wc en, fresh)))"

definition add :: "router \<Rightarrow> RouteEntry \<Rightarrow> router \<times> bool" where
  "add r route =
     (if \<not> validPattern (re_pattern route) then (r, False)
      else let (n, fresh) = add_at (root r) (split (re_pattern route))
                 (methodKey (re_method route) (re_customMethod route)) route
           in (r\<lparr>root := n, rt_size := (if fresh then rt_size r + 1 else rt_size r)\<rparr>, True))"

fun findNode :: "node \<Rightarrow> string list \<Rightarrow> node option" where
  "findNode n [] = Some n"
| "findNode n (s # segs) =
     (if s = ''*'' then (case wildcard n of None \<Rightarrow> None | Some c \<Rightarrow> findNode c segs)
      else if s \<noteq> [] \<and> hd s = CHR '':'' then (case param n of None \<Rightarrow> None | Some c \<Rightarrow> findNode c segs)
      else (case map_of (statik n) s of None \<Rightarrow> None | Some c \<Rightarrow> findNode c segs))"

text \<open>Erasing through the mutable pointer \<open>findNodeMut\<close> returns: rebuild the path to it.\<close>

fun erase_at :: "node \<Rightarrow> string list \<Rightarrow> string \<Rightarrow> node" where
  "erase_at (Node st pa pn wc en) [] key = Node st pa pn wc (map_erase key en)"
| "erase_at (Node st pa pn wc en) (s # segs) key =
     (if s = ''*'' then Node st pa pn (map_option (\<lambda>c. erase_at c segs key) wc) en
      else if s \<noteq> [] \<and> hd s = CHR '':'' then
        Node st (map_option (\<lambda>c. erase_at c segs key) pa) pn wc en
      else (case map_of st s of
              None \<Rightarrow> Node st pa pn wc en
            | Some c \<Rightarrow> Node (map_put s (erase_at c segs key) st) pa pn wc en))"

definition remove :: "router \<Rightarrow> Method \<Rightarrow> string \<Rightarrow> string \<Rightarrow> router \<times> bool" where
  "remove r m custom pattern =
     (let segs = split pattern; key = methodKey m custom
      in case findNode (root r) segs of
           None \<Rightarrow> (r, False)
         | Some n \<Rightarrow>
             (if map_of (entries n) key = None then (r, False)
              else (r\<lparr>root := erase_at (root r) segs key, rt_size := rt_size r - 1\<rparr>, True)))"

section \<open>Matching\<close>

definition pick :: "Method \<Rightarrow> string \<Rightarrow> node option \<Rightarrow> RouteEntry option" where
  "pick m custom n =
     (case n of None \<Rightarrow> None | Some nd \<Rightarrow>
       let en = entries nd in
       case map_of en (methodKey m custom) of
         Some e \<Rightarrow> Some e
       | None \<Rightarrow>
           (case (if m = Head then map_of en (methodKey Get []) else None) of
              Some e \<Rightarrow> Some e
            | None \<Rightarrow> (if m \<noteq> All \<and> m \<noteq> Custom then map_of en (methodKey All []) else None)))"

record frame =
  f_node :: node
  f_idx :: nat
  f_parent :: int
  f_hasParam :: bool
  f_paramName :: string
  f_paramValue :: string
  f_spec :: int

record best =
  b_entry :: "RouteEntry option"
  b_frame :: int
  b_spec :: int
  b_isAll :: bool

definition consider_route :: "RouteEntry option \<Rightarrow> int \<Rightarrow> int \<Rightarrow> best \<Rightarrow> best" where
  "consider_route e frameId spec b =
     (case e of None \<Rightarrow> b | Some en \<Rightarrow>
       let isAll = (re_method en = All) in
       if spec > b_spec b \<or> (spec = b_spec b \<and> b_isAll b \<and> \<not> isAll)
       then \<lparr>b_entry = Some en, b_frame = frameId, b_spec = spec, b_isAll = isAll\<rparr> else b)"

text \<open>The frames one visit pushes: the parameter child first, the static child last (popped first).\<close>

definition child_frames :: "node \<Rightarrow> string \<Rightarrow> nat \<Rightarrow> int \<Rightarrow> int \<Rightarrow> frame list" where
  "child_frames nd seg idx fid spec =
     (let hasP = (paramName nd \<noteq> []) in
      (case param nd of None \<Rightarrow> []
       | Some c \<Rightarrow> [\<lparr>f_node = c, f_idx = idx + 1, f_parent = fid, f_hasParam = hasP,
            f_paramName = (if hasP then paramName nd else []),
            f_paramValue = (if hasP then seg else []), f_spec = spec + 1\<rparr>]) @
      (case map_of (statik nd) seg of None \<Rightarrow> []
       | Some c \<Rightarrow> [\<lparr>f_node = c, f_idx = idx + 1, f_parent = fid, f_hasParam = False,
            f_paramName = [], f_paramValue = [], f_spec = spec + 2\<rparr>]))"

definition frame_weight :: "string list \<Rightarrow> nat \<times> frame \<Rightarrow> nat" where
  "frame_weight segs x = 3 ^ (length segs - f_idx (snd x))"

lemma child_frames_idx: "fr \<in> set (child_frames nd seg idx fid spec) \<Longrightarrow> f_idx fr = idx + 1"
  by (auto simp: child_frames_def Let_def split: option.splits)

lemma length_child_frames: "length (child_frames nd seg idx fid spec) \<le> 2"
  by (auto simp: child_frames_def Let_def split: option.splits)

lemma child_frames_weight:
  assumes "f_idx fr < length segs"
  shows "sum_list (map (frame_weight segs)
      (zip [n..<n + length (child_frames nd seg (f_idx fr) fid spec)] (child_frames nd seg (f_idx fr) fid spec)))
    < frame_weight segs (i, fr)"
proof -
  let ?fs = "child_frames nd seg (f_idx fr) fid spec" and ?k = "length segs - f_idx fr"
  let ?z = "zip [n..<n + length ?fs] ?fs"
  have m: "map (frame_weight segs) ?z = map (\<lambda>_. 3 ^ (?k - 1)) ?z"
    by (rule map_cong) (auto simp: frame_weight_def dest!: set_zip_rightD child_frames_idx)
  have "sum_list (map (frame_weight segs) ?z) = length ?z * 3 ^ (?k - 1)"
    unfolding m by (simp add: sum_list_triv)
  also have "\<dots> \<le> 2 * 3 ^ (?k - 1)" using length_child_frames [of nd seg "f_idx fr" fid spec] by simp
  also have "\<dots> < 3 ^ ?k" using assms by (cases ?k) auto
  finally show ?thesis by (simp add: frame_weight_def)
qed

text \<open>
  \<open>while (!stack.empty())\<close>. The head of the stack is its top. The source's stack holds arena
  indices and reads \<open>arena[id]\<close>; a frame is never modified after it is pushed, so the model's stack
  holds the index together with its frame. An index never passes the number of segments, so
  \<open>idx == segs.size()\<close> is written \<open>length segs \<le> f_idx fr\<close>.
\<close>

function match_loop ::
  "Method \<Rightarrow> string \<Rightarrow> string list \<Rightarrow> frame list \<Rightarrow> (nat \<times> frame) list \<Rightarrow> best \<Rightarrow> frame list \<times> best" where
  "match_loop m custom segs arena [] b = (arena, b)"
| "match_loop m custom segs arena ((i, fr) # stack) b =
     (let nd = f_node fr; spec = f_spec fr in
      if length segs \<le> f_idx fr then
        match_loop m custom segs arena stack
          (consider_route (pick m custom (wildcard nd)) (int i) spec
            (consider_route (pick m custom (Some nd)) (int i) spec b))
      else
        let b' = consider_route (pick m custom (wildcard nd)) (int i) spec b;
            fs = child_frames nd (segs ! f_idx fr) (f_idx fr) (int i) spec
        in match_loop m custom segs (arena @ fs)
             (rev (zip [length arena..<length arena + length fs] fs) @ stack) b')"
  by pat_completeness auto

termination
proof (relation "measures [\<lambda>(m, c, segs, arena, stack, b). sum_list (map (frame_weight segs) stack)]", goal_cases)
  case 1
  show ?case by simp
next
  case (2 m custom segs arena i fr stack b)
  then show ?case by (simp add: frame_weight_def)
next
  case (3 m custom segs arena i fr stack b)
  then show ?case
    using child_frames_weight [of fr segs "length arena" "f_node fr" "segs ! f_idx fr" "int i" "f_spec fr" i]
    by (simp add: rev_map [symmetric] sum_list_rev)
qed

definition root_frame :: "node \<Rightarrow> frame" where
  "root_frame n = \<lparr>f_node = n, f_idx = 0, f_parent = -1, f_hasParam = False, f_paramName = [],
     f_paramValue = [], f_spec = 0\<rparr>"

definition init_best :: best where
  "init_best = \<lparr>b_entry = None, b_frame = -1, b_spec = -1, b_isAll = True\<rparr>"

text \<open>
  \<open>for (id = bestFrame; id > 0; id = arena[id].parent)\<close>, collecting the captures from the leaf up.
  A parent index is smaller than its child's, so the index itself bounds the walk.
\<close>

fun collect_params :: "frame list \<Rightarrow> nat \<Rightarrow> int \<Rightarrow> route_param list" where
  "collect_params arena 0 i = []"
| "collect_params arena (Suc fuel) i =
     (if i > 0 then
        (let fr = arena ! nat i in
         (if f_hasParam fr then [\<lparr>p_name = f_paramName fr, p_value = f_paramValue fr\<rparr>] else []) @
         collect_params arena fuel (f_parent fr))
      else [])"

definition match :: "router \<Rightarrow> Method \<Rightarrow> string \<Rightarrow> string \<Rightarrow> MatchResult" where
  "match r m custom path =
     (let segs = split path; fr = root_frame (root r);
          (arena, b) = match_loop m custom segs [fr] [(0, fr)] init_best
      in case b_entry b of
           None \<Rightarrow> \<lparr>mr_route = None, mr_params = []\<rparr>
         | Some e \<Rightarrow> \<lparr>mr_route = Some e,
             mr_params = rev (collect_params arena (length arena) (b_frame b))\<rparr>)"

section \<open>The Allow list\<close>

definition take_entry :: "RouteEntry \<Rightarrow> string list" where
  "take_entry e =
     (if re_method e = All then map methodToken standard_methods
      else if re_method e = Custom then [re_customMethod e]
      else methodToken (re_method e) # (if re_method e = Get then [''HEAD''] else []))"

definition take_node :: "node option \<Rightarrow> string list" where
  "take_node n = (case n of None \<Rightarrow> [] | Some nd \<Rightarrow> concat (map (\<lambda>(k, e). take_entry e) (entries nd)))"

fun collectAllowed :: "node \<Rightarrow> string list \<Rightarrow> string list" where
  "collectAllowed n [] = take_node (wildcard n) @ take_node (Some n)"
| "collectAllowed n (s # segs) =
     take_node (wildcard n) @
     (case map_of (statik n) s of None \<Rightarrow> [] | Some c \<Rightarrow> collectAllowed c segs) @
     (case param n of None \<Rightarrow> [] | Some c \<Rightarrow> collectAllowed c segs)"

definition allowedMethods :: "router \<Rightarrow> string \<Rightarrow> string list" where
  "allowedMethods r path = remdups_adj (sort (collectAllowed (root r) (split path)))"

end
