(* ===== verification/RouterProps.thy ===== *)
theory RouterProps
  imports Router
begin

text \<open>
  What the router promises. The trie is a table from (pattern shape, method key) to entries, with
  \<open>add\<close> an insertion and \<open>remove\<close> a deletion; \<open>match\<close> is related to a plain enumeration of every
  registered pattern that fits the path.
\<close>

section \<open>The trie as a table\<close>

datatype seg_kind = KStatic string | KParam | KWild

definition seg_kind_of :: "string \<Rightarrow> seg_kind" where
  "seg_kind_of s = (if s = ''*'' then KWild else if s \<noteq> [] \<and> hd s = CHR '':'' then KParam else KStatic s)"

fun child :: "node \<Rightarrow> seg_kind \<Rightarrow> node option" where
  "child n (KStatic s) = map_of (statik n) s"
| "child n KParam = param n"
| "child n KWild = wildcard n"

fun node_at :: "node \<Rightarrow> seg_kind list \<Rightarrow> node option" where
  "node_at n [] = Some n"
| "node_at n (k # ks) = (case child n k of None \<Rightarrow> None | Some c \<Rightarrow> node_at c ks)"

definition lookup :: "node \<Rightarrow> seg_kind list \<times> string \<Rightarrow> RouteEntry option" where
  "lookup n x = (case node_at n (fst x) of None \<Rightarrow> None | Some c \<Rightarrow> map_of (entries c) (snd x))"

lemma map_of_map_put [simp]: "map_of (map_put k v m) = (map_of m)(k \<mapsto> v)"
  by (induction m) (auto simp: fun_eq_iff)

lemma map_of_map_erase [simp]: "map_of (map_erase k m) = (map_of m)(k := None)"
  by (induction m) (auto simp: map_erase_def fun_eq_iff)

lemma node_at_empty: "node_at empty_node ks = (if ks = [] then Some empty_node else None)"
  by (cases ks; cases "hd ks") (auto simp: empty_node_def)

lemma lookup_empty [simp]: "lookup empty_node x = None"
  by (simp add: lookup_def node_at_empty) (simp add: empty_node_def)

lemma findNode_node_at: "findNode n segs = node_at n (map seg_kind_of segs)"
  by (induction segs arbitrary: n) (auto simp: seg_kind_of_def split: option.splits)

lemma lookup_Nil: "lookup n ([], k) = map_of (entries n) k"
  by (simp add: lookup_def)

lemma lookup_Cons: "lookup n (c # ks, k) = (case child n c of None \<Rightarrow> None | Some m \<Rightarrow> lookup m (ks, k))"
  by (simp add: lookup_def split: option.splits)

lemma lookup_default:
  "(case n of None \<Rightarrow> None | Some m \<Rightarrow> lookup m x) =
   lookup (case n of None \<Rightarrow> empty_node | Some m \<Rightarrow> m) x"
  by (cases n) auto

lemma lookup_add_at:
  assumes "\<forall>s \<in> set segs. s \<noteq> []"
  shows "lookup (fst (add_at n segs key e)) (ks, k) =
    (if ks = map seg_kind_of segs \<and> k = key then Some e else lookup n (ks, k))"
  using assms
proof (induction n segs key e arbitrary: ks rule: add_at.induct)
  case (1 st pa pn wc en key e)
  then show ?case
    by (cases ks; cases "hd ks") (auto simp: lookup_Nil lookup_Cons)
next
  case (2 st pa pn wc en s segs key e)
  let ?m = "Node st pa pn wc en"
  have ne: "s \<noteq> []" and rest: "\<forall>s \<in> set segs. s \<noteq> []" using "2.prems" by auto
  show ?case
  proof (cases ks)
    case Nil
    then show ?thesis by (auto simp: lookup_Nil split: prod.splits)
  next
    case (Cons c ks')
    show ?thesis
    proof (cases "s = ''*''")
      case True
      with "2.IH"(1) [OF True rest, of ks'] Cons show ?thesis
        by (cases c) (auto simp: lookup_Cons seg_kind_of_def lookup_default split: prod.splits)
    next
      case star: False
      show ?thesis
      proof (cases "hd s = CHR '':''")
        case True
        with "2.IH"(2) [OF star True refl rest, of ks'] star ne Cons show ?thesis
          by (cases c) (auto simp: lookup_Cons seg_kind_of_def lookup_default Let_def split: prod.splits)
      next
        case False
        with "2.IH"(3) [OF star False rest, of ks'] star ne Cons show ?thesis
          by (cases c) (auto simp: lookup_Cons seg_kind_of_def lookup_default Let_def split: prod.splits)
      qed
    qed
  qed
qed

lemma lookup_erase_at:
  "lookup (erase_at n segs key) (ks, k) =
    (if ks = map seg_kind_of segs \<and> k = key then None else lookup n (ks, k))"
proof (induction n segs key arbitrary: ks rule: erase_at.induct)
  case (1 st pa pn wc en key)
  then show ?case
    by (cases ks; cases "hd ks") (auto simp: lookup_Nil lookup_Cons)
next
  case (2 st pa pn wc en s segs key)
  show ?case
  proof (cases ks)
    case Nil
    then show ?thesis by (auto simp: lookup_Nil split: option.splits)
  next
    case (Cons c ks')
    consider (wild) "s = ''*''" | (par) "s \<noteq> ''*''" "s \<noteq> [] \<and> hd s = CHR '':''"
      | (stat) "s \<noteq> ''*''" "\<not> (s \<noteq> [] \<and> hd s = CHR '':'')" by blast
    then show ?thesis
    proof cases
      case wild
      with 2 Cons show ?thesis
        by (cases c) (auto simp: lookup_Cons seg_kind_of_def split: option.splits)
    next
      case par
      with "2.IH"(2) Cons show ?thesis
        by (cases c) (auto simp: lookup_Cons seg_kind_of_def split: option.splits)
    next
      case stat
      with "2.IH"(3) Cons show ?thesis
        by (cases c) (auto simp: lookup_Cons seg_kind_of_def split: option.splits)
    qed
  qed
qed

lemma add_at_fresh:
  "\<forall>s \<in> set segs. s \<noteq> [] \<Longrightarrow>
   snd (add_at n segs key e) = (lookup n (map seg_kind_of segs, key) = None)"
proof (induction n segs key e rule: add_at.induct)
  case (1 st pa pn wc en key e)
  then show ?case by (simp add: lookup_Nil)
next
  case (2 st pa pn wc en s segs key e)
  then have ne: "s \<noteq> []" and rest: "\<forall>s \<in> set segs. s \<noteq> []" by auto
  consider (wild) "s = ''*''" | (par) "s \<noteq> ''*''" "hd s = CHR '':''" | (stat) "s \<noteq> ''*''" "hd s \<noteq> CHR '':''"
    by blast
  then show ?case
  proof cases
    case wild
    with "2.IH"(1) [OF wild rest] show ?thesis
      by (auto simp: lookup_Cons seg_kind_of_def lookup_default split: prod.splits)
  next
    case par
    with "2.IH"(2) [OF par refl rest] ne show ?thesis
      by (auto simp: lookup_Cons seg_kind_of_def lookup_default Let_def split: prod.splits)
  next
    case stat
    with "2.IH"(3) [OF stat rest] ne show ?thesis
      by (auto simp: lookup_Cons seg_kind_of_def lookup_default Let_def split: prod.splits)
  qed
qed

text \<open>The keys of the trie operations: segments and method key, read as a pattern shape.\<close>

definition put_route :: "string list \<times> string \<Rightarrow> RouteEntry \<Rightarrow> node \<Rightarrow> node" where
  "put_route x e n = fst (add_at n (fst x) (snd x) e)"

definition del_route :: "string list \<times> string \<Rightarrow> node \<Rightarrow> node" where
  "del_route x n = erase_at n (fst x) (snd x)"

definition shape :: "string list \<times> string \<Rightarrow> seg_kind list \<times> string" where
  "shape x = (map seg_kind_of (fst x), snd x)"

definition segs_ok :: "string list \<times> string \<Rightarrow> bool" where
  "segs_ok x \<longleftrightarrow> [] \<notin> set (fst x)"

interpretation trie: keyed_store empty_node put_route del_route lookup shape segs_ok
proof
  show "lookup empty_node k = None" for k by simp
  show "lookup (put_route r v s) k = (if k = shape r then Some v else lookup s k)" if "segs_ok r" for r v s k
  proof -
    have "\<forall>s \<in> set (fst r). s \<noteq> []" using that by (auto simp: segs_ok_def)
    note lookup_add_at [OF this, of s "snd r" v "fst k" "snd k"]
    then show ?thesis by (auto simp: put_route_def shape_def prod_eq_iff)
  qed
  show "lookup (del_route r s) k = (if k = shape r then None else lookup s k)" if "segs_ok r" for r s k
    using lookup_erase_at [of s "fst r" "snd r" "fst k" "snd k"]
    by (auto simp: del_route_def shape_def prod_eq_iff)
qed

section \<open>Segments\<close>

lemma split_nonempty: "s \<in> set (split p) \<Longrightarrow> s \<noteq> [] \<and> CHR ''/'' \<notin> set s"
proof (induction p rule: split.induct)
  case (1 p)
  show ?case
  proof (cases "p = []")
    case True
    with "1.prems" show ?thesis by (simp add: split.simps)
  next
    case False
    have "CHR ''/'' \<notin> set (takeWhile (\<lambda>c. c \<noteq> CHR ''/'') q)" for q by (induction q) auto
    with 1 False show ?thesis
      by (auto simp: split.simps [of p] Let_def split: if_splits)
  qed
qed

lemma segs_ok_split [simp]: "segs_ok (split p, k)"
  using split_nonempty [of "[]" p] by (auto simp: segs_ok_def)

lemma split_slash: "split (CHR ''/'' # p) = split p"
proof (cases p)
  case Nil
  have "split [] = []" by (simp add: split.simps)
  then show ?thesis by (simp add: Nil split.simps [of "''/''"])
next
  case (Cons x xs)
  then show ?thesis
    by (simp add: split.simps [of "CHR ''/'' # x # xs"] split.simps [of "x # xs"])
qed

lemma split_seg:
  assumes "s \<noteq> []" "CHR ''/'' \<notin> set s" "rest = [] \<or> hd rest = CHR ''/''"
  shows "split (s @ rest) = s # split rest"
proof -
  obtain x xs where s: "s = x # xs" "x \<noteq> CHR ''/''" using assms(1,2) by (cases s) auto
  have d: "dropWhile (\<lambda>c. c = CHR ''/'') (s @ rest) = s @ rest" using s by simp
  have t: "takeWhile (\<lambda>c. c \<noteq> CHR ''/'') (s @ rest) = s"
    using assms(2,3) by (subst takeWhile_append2) (auto, cases rest, auto)
  have u: "dropWhile (\<lambda>c. c \<noteq> CHR ''/'') (s @ rest) = rest"
    using assms(2,3) by (subst dropWhile_append2) (auto, cases rest, auto)
  show ?thesis using assms(1) by (subst split.simps) (simp add: d t u)
qed

text \<open>The path a list of segments spells.\<close>

definition join_path :: "string list \<Rightarrow> string" where
  "join_path segs = concat (map (\<lambda>s. CHR ''/'' # s) segs)"

lemma split_join_path: "\<forall>s \<in> set segs. s \<noteq> [] \<and> CHR ''/'' \<notin> set s \<Longrightarrow> split (join_path segs) = segs"
proof (induction segs)
  case Nil
  then show ?case by (simp add: join_path_def split.simps)
next
  case (Cons s segs)
  have "join_path segs = [] \<or> hd (join_path segs) = CHR ''/''" by (cases segs) (auto simp: join_path_def)
  moreover have "join_path (s # segs) = CHR ''/'' # s @ join_path segs" by (simp add: join_path_def)
  ultimately show ?case using Cons by (simp add: split_slash split_seg)
qed

section \<open>Registration\<close>

definition route_key :: "RouteEntry \<Rightarrow> seg_kind list \<times> string" where
  "route_key e = (map seg_kind_of (split (re_pattern e)), methodKey (re_method e) (re_customMethod e))"

lemma add_lookup:
  "validPattern (re_pattern e) \<Longrightarrow>
   lookup (root (fst (add r e))) k = (if k = route_key e then Some e else lookup (root r) k)"
  using trie.get_put [of "(split (re_pattern e), methodKey (re_method e) (re_customMethod e))" e "root r" k]
  by (auto simp: add_def route_key_def put_route_def shape_def split: prod.splits)

definition remove_key :: "Method \<Rightarrow> string \<Rightarrow> string \<Rightarrow> seg_kind list \<times> string" where
  "remove_key m c p = (map seg_kind_of (split p), methodKey m c)"

lemma remove_result: "snd (remove r m c p) = (lookup (root r) (remove_key m c p) \<noteq> None)"
  by (auto simp: remove_def remove_key_def findNode_node_at lookup_def Let_def split: option.splits)

lemma remove_lookup:
  "lookup (root (fst (remove r m c p))) k = (if k = remove_key m c p then None else lookup (root r) k)"
  using lookup_erase_at [of "root r" "split p" "methodKey m c" "fst k" "snd k"]
  by (auto simp: remove_def remove_key_def findNode_node_at lookup_def prod_eq_iff Let_def split: option.splits if_splits)

definition router_wf :: "router \<Rightarrow> bool" where
  "router_wf r \<longleftrightarrow> finite (dom (lookup (root r))) \<and> rt_size r = card (dom (lookup (root r)))"

lemma router_wf_new [inv_intros]: "router_wf new_router"
  by (simp add: router_wf_def new_router_def trie.dom_emp)

lemma add_root_size:
  assumes "validPattern (re_pattern e)"
  shows "root (fst (add r e)) = put_route (split (re_pattern e), methodKey (re_method e) (re_customMethod e)) e (root r)
    \<and> rt_size (fst (add r e)) = (if lookup (root r) (route_key e) = None then rt_size r + 1 else rt_size r)"
proof -
  have "\<forall>s \<in> set (split (re_pattern e)). s \<noteq> []" using split_nonempty by blast
  note add_at_fresh [OF this, of "root r" "methodKey (re_method e) (re_customMethod e)" e]
  with assms show ?thesis by (auto simp: add_def put_route_def route_key_def split: prod.splits)
qed

lemma router_wf_add [inv_intros]: "router_wf r \<Longrightarrow> router_wf (fst (add r e))"
proof (cases "validPattern (re_pattern e)")
  case True
  assume wf: "router_wf r"
  let ?x = "(split (re_pattern e), methodKey (re_method e) (re_customMethod e))"
  have "shape ?x = route_key e" by (simp add: shape_def route_key_def)
  with wf add_root_size [OF True, of r] trie.card_put [of ?x "root r" e] trie.finite_put [of ?x "root r" e]
  show ?thesis by (simp add: router_wf_def)
qed (simp add: add_def)

lemma router_wf_remove [inv_intros]: "router_wf r \<Longrightarrow> router_wf (fst (remove r m c p))"
proof -
  assume wf: "router_wf r"
  let ?x = "(split p, methodKey m c)"
  have sh: "shape ?x = remove_key m c p" by (simp add: shape_def remove_key_def)
  show ?thesis
  proof (cases "lookup (root r) (remove_key m c p)")
    case None
    then have "fst (remove r m c p) = r"
      by (auto simp: remove_def remove_key_def findNode_node_at lookup_def Let_def split: option.splits)
    with wf show ?thesis by simp
  next
    case (Some e)
    then have "fst (remove r m c p) = r\<lparr>root := del_route ?x (root r), rt_size := rt_size r - 1\<rparr>"
      by (auto simp: remove_def remove_key_def findNode_node_at lookup_def del_route_def Let_def split: option.splits)
    with Some wf sh trie.card_del [of ?x "root r"] trie.finite_del [of ?x "root r"] show ?thesis
      by (simp add: router_wf_def)
  qed
qed

lemma validPattern_iff:
  "validPattern p \<longleftrightarrow> p \<noteq> [] \<and> hd p = CHR ''/'' \<and>
     (\<forall>i < length (split p). split p ! i \<noteq> '':'' \<and>
        (CHR ''*'' \<in> set (split p ! i) \<longrightarrow> split p ! i = ''*'' \<and> Suc i = length (split p)))"
proof -
  have "split p ! i \<noteq> []" if "i < length (split p)" for i
    using split_nonempty [of "split p ! i" p] that by simp
  then show ?thesis unfolding validPattern_def Let_def
    by (auto simp: length_Suc_conv)
qed
end
