(* ===== verification/RouterMatch.thy ===== *)
theory RouterMatch
  imports RouterProps
begin

text \<open>
  The search of \<open>Router::match\<close> against its specification. A pattern fits a path segment by segment;
  the loop over frames is shown equal to a fold over the recursive enumeration of every fitting,
  registered candidate, and so returns a candidate of the greatest rank with its captures. The
  \<open>Allow\<close> list is shown to name exactly the methods that would be answered.
\<close>

section \<open>Patterns that fit a path\<close>

fun fits :: "seg_kind list \<Rightarrow> string list \<Rightarrow> bool" where
  "fits [] segs = (segs = [])"
| "fits (KWild # ks) segs = (ks = [])"
| "fits (KStatic s # ks) segs = (case segs of [] \<Rightarrow> False | t # ts \<Rightarrow> s = t \<and> fits ks ts)"
| "fits (KParam # ks) segs = (case segs of [] \<Rightarrow> False | t # ts \<Rightarrow> fits ks ts)"

fun kind_weight :: "seg_kind \<Rightarrow> int" where
  "kind_weight (KStatic s) = 2"
| "kind_weight KParam = 1"
| "kind_weight KWild = 0"

definition specificity :: "seg_kind list \<Rightarrow> int" where
  "specificity ks = sum_list (map kind_weight ks)"

definition capture :: "node \<Rightarrow> string \<Rightarrow> route_param list" where
  "capture n s = (if paramName n \<noteq> [] then [\<lparr>p_name = paramName n, p_value = s\<rparr>] else [])"

text \<open>The captures along one pattern of the trie.\<close>

fun captures :: "node \<Rightarrow> seg_kind list \<Rightarrow> string list \<Rightarrow> route_param list" where
  "captures n (KStatic s # ks) (t # ts) = (case map_of (statik n) s of None \<Rightarrow> [] | Some c \<Rightarrow> captures c ks ts)"
| "captures n (KParam # ks) (t # ts) =
     capture n t @ (case param n of None \<Rightarrow> [] | Some c \<Rightarrow> captures c ks ts)"
| "captures n ks ts = []"

text \<open>
  The entry one pattern of the trie offers to a request: its own method, GET for HEAD, then All.
\<close>

definition offer :: "node \<Rightarrow> Method \<Rightarrow> string \<Rightarrow> seg_kind list \<Rightarrow> RouteEntry option" where
  "offer n m custom ks = pick m custom (node_at n ks)"

type_synonym cand = "RouteEntry \<times> int \<times> route_param list"

definition rank :: "RouteEntry \<Rightarrow> int \<Rightarrow> int" where
  "rank e spec = 2 * spec + (if re_method e = All then 0 else 1)"

section \<open>The enumeration\<close>

definition cand_of :: "RouteEntry option \<Rightarrow> int \<Rightarrow> route_param list \<Rightarrow> cand list" where
  "cand_of e spec ps = (case e of None \<Rightarrow> [] | Some x \<Rightarrow> [(x, spec, ps)])"

fun cands :: "Method \<Rightarrow> string \<Rightarrow> node \<Rightarrow> string list \<Rightarrow> int \<Rightarrow> route_param list \<Rightarrow> cand list" where
  "cands m c n [] spec ps = cand_of (pick m c (Some n)) spec ps @ cand_of (pick m c (wildcard n)) spec ps"
| "cands m c n (s # ss) spec ps =
     cand_of (pick m c (wildcard n)) spec ps @
     (case map_of (statik n) s of None \<Rightarrow> [] | Some x \<Rightarrow> cands m c x ss (spec + 2) ps) @
     (case param n of None \<Rightarrow> [] | Some x \<Rightarrow> cands m c x ss (spec + 1) (ps @ capture n s))"

lemma pick_None [simp]: "pick m c None = None"
  by (simp add: pick_def)

lemma set_cand_of [simp]: "set (cand_of e spec ps) = (case e of None \<Rightarrow> {} | Some x \<Rightarrow> {(x, spec, ps)})"
  by (simp add: cand_of_def split: option.splits)

lemma fits_cases:
  "fits ks [] \<longleftrightarrow> ks = [] \<or> ks = [KWild]"
  "fits ks (t # ts) \<longleftrightarrow> ks = [KWild] \<or> (\<exists>ks'. ks = KStatic t # ks' \<and> fits ks' ts) \<or> (\<exists>ks'. ks = KParam # ks' \<and> fits ks' ts)"
  by (cases ks; cases "hd ks"; auto)+

lemma cands_iff:
  "(e, sp, ps) \<in> set (cands m c n segs sp0 ps0) \<longleftrightarrow>
   (\<exists>ks. fits ks segs \<and> offer n m c ks = Some e \<and> sp = sp0 + specificity ks \<and> ps = ps0 @ captures n ks segs)"
proof (induction m c n segs sp0 ps0 arbitrary: e sp ps rule: cands.induct)
  case (1 m c n sp0 ps0)
  have c1: "(\<exists>ks. fits ks [] \<and> P ks) \<longleftrightarrow> P [] \<or> P [KWild]" for P unfolding fits_cases by blast
  have wi: "offer n m c [KWild] = pick m c (wildcard n)" "offer n m c [] = pick m c (Some n)"
    by (cases "wildcard n"; simp add: offer_def)+
  show ?case unfolding c1 wi
    by (simp add: specificity_def split: option.splits) blast
next
  case (2 m c n s ss sp0 ps0)
  have st: "(\<exists>x. map_of (statik n) s = Some x \<and> (e, sp, ps) \<in> set (cands m c x ss (sp0 + 2) ps0)) \<longleftrightarrow>
    (\<exists>ks. fits ks ss \<and> offer n m c (KStatic s # ks) = Some e \<and> sp = sp0 + specificity (KStatic s # ks) \<and>
      ps = ps0 @ captures n (KStatic s # ks) (s # ss))"
    using "2.IH"(1) by (cases "map_of (statik n) s") (auto simp: offer_def specificity_def algebra_simps)
  have pa: "(\<exists>x. param n = Some x \<and> (e, sp, ps) \<in> set (cands m c x ss (sp0 + 1) (ps0 @ capture n s))) \<longleftrightarrow>
    (\<exists>ks. fits ks ss \<and> offer n m c (KParam # ks) = Some e \<and> sp = sp0 + specificity (KParam # ks) \<and>
      ps = ps0 @ captures n (KParam # ks) (s # ss))"
    using "2.IH"(2) by (cases "param n") (auto simp: offer_def specificity_def algebra_simps)
  have wi: "(e, sp, ps) \<in> set (cand_of (pick m c (wildcard n)) sp0 ps0) \<longleftrightarrow>
    offer n m c [KWild] = Some e \<and> sp = sp0 + specificity [KWild] \<and> ps = ps0 @ captures n [KWild] (s # ss)"
    by (cases "wildcard n") (auto simp: offer_def specificity_def split: option.splits)
  have "(e, sp, ps) \<in> set (cands m c n (s # ss) sp0 ps0) \<longleftrightarrow>
    (e, sp, ps) \<in> set (cand_of (pick m c (wildcard n)) sp0 ps0) \<or>
    (\<exists>x. map_of (statik n) s = Some x \<and> (e, sp, ps) \<in> set (cands m c x ss (sp0 + 2) ps0)) \<or>
    (\<exists>x. param n = Some x \<and> (e, sp, ps) \<in> set (cands m c x ss (sp0 + 1) (ps0 @ capture n s)))"
    by (cases "map_of (statik n) s"; cases "param n") (simp_all add: cands.simps(2))
  also have "\<dots> \<longleftrightarrow> (\<exists>ks. fits ks (s # ss) \<and> offer n m c ks = Some e \<and> sp = sp0 + specificity ks \<and>
      ps = ps0 @ captures n ks (s # ss))"
    unfolding st pa wi fits_cases by blast
  finally show ?case .
qed

section \<open>The loop equals the enumeration\<close>

type_synonym abest = "RouteEntry option \<times> int \<times> bool \<times> route_param list"

definition keep_best :: "cand \<Rightarrow> abest \<Rightarrow> abest" where
  "keep_best x b = (case x of (e, spec, ps) \<Rightarrow> case b of (be, bs, ball, bps) \<Rightarrow>
     if spec > bs \<or> (spec = bs \<and> ball \<and> re_method e \<noteq> All)
     then (Some e, spec, re_method e = All, ps) else b)"

definition arena_ok :: "frame list \<Rightarrow> bool" where
  "arena_ok arena \<longleftrightarrow> (\<forall>j < length arena. f_parent (arena ! j) < int j)"

definition frame_params :: "frame list \<Rightarrow> int \<Rightarrow> route_param list" where
  "frame_params arena i = rev (collect_params arena (length arena) i)"

definition abs_best :: "frame list \<Rightarrow> best \<Rightarrow> abest" where
  "abs_best arena b = (b_entry b, b_spec b, b_isAll b, frame_params arena (b_frame b))"

lemma collect_params_extend:
  assumes "arena_ok arena" "i < int (length arena)" "nat i \<le> fuel" "nat i \<le> fuel'"
  shows "collect_params (arena @ fs) fuel' i = collect_params arena fuel i"
  using assms
proof (induction "nat i" arbitrary: i fuel fuel' rule: less_induct)
  case less
  show ?case
  proof (cases "i > 0")
    case False
    then show ?thesis by (cases fuel; cases fuel') auto
  next
    case True
    then obtain f f' where f: "fuel = Suc f" "fuel' = Suc f'"
      using less.prems by (cases fuel; cases fuel') auto
    let ?p = "f_parent (arena ! nat i)"
    have "nat i < length arena" using less.prems(2) True by (simp add: nat_less_iff)
    then have "?p < int (nat i)" using less.prems(1) unfolding arena_ok_def by blast
    then have p: "?p < i" using True by simp
    have "collect_params (arena @ fs) f' ?p = collect_params arena f ?p"
      using less.prems p True f by (intro less.hyps) auto
    moreover have "(arena @ fs) ! nat i = arena ! nat i"
      using less.prems(2) True by (simp add: nth_append nat_less_iff)
    ultimately show ?thesis using True f by simp
  qed
qed

lemma frame_params_extend:
  "arena_ok arena \<Longrightarrow> i < int (length arena) \<Longrightarrow> frame_params (arena @ fs) i = frame_params arena i"
  unfolding frame_params_def by (subst collect_params_extend [of arena i "length arena"]) auto

lemma frame_params_step:
  assumes "arena_ok arena" "0 < i" "i < length arena" "fr = arena ! i"
  shows "frame_params arena (int i) =
    frame_params arena (f_parent fr) @
    (if f_hasParam fr then [\<lparr>p_name = f_paramName fr, p_value = f_paramValue fr\<rparr>] else [])"
proof -
  obtain n where n: "length arena = Suc n" using assms(3) by (cases "length arena") auto
  have p: "f_parent fr < int i" using assms by (auto simp: arena_ok_def)
  have "collect_params arena n (f_parent fr) = collect_params arena (Suc n) (f_parent fr)"
    using collect_params_extend [of arena "f_parent fr" "Suc n" n "[]"] assms p n by simp
  then show ?thesis
    using assms n unfolding frame_params_def n
    by (simp only: collect_params.simps(2) Let_def nat_int of_nat_0_less_iff if_True rev_append rev.simps append.simps
        split: if_split) simp
qed

lemma abs_best_consider:
  "abs_best arena (consider_route e (int i) spec b) =
   fold keep_best (cand_of e spec (frame_params arena (int i))) (abs_best arena b)"
  by (auto simp: abs_best_def consider_route_def keep_best_def cand_of_def Let_def split: option.splits)

definition stack_cands :: "Method \<Rightarrow> string \<Rightarrow> string list \<Rightarrow> frame list \<Rightarrow> (nat \<times> frame) list \<Rightarrow> cand list" where
  "stack_cands m c segs arena stack =
     concat (map (\<lambda>(i, fr). cands m c (f_node fr) (drop (f_idx fr) segs) (f_spec fr) (frame_params arena (int i))) stack)"

definition stack_ok :: "frame list \<Rightarrow> (nat \<times> frame) list \<Rightarrow> bool" where
  "stack_ok arena stack \<longleftrightarrow> (\<forall>(i, fr) \<in> set stack. i < length arena \<and> arena ! i = fr)"

lemma stack_cands_append [simp]:
  "stack_cands m c segs arena (s1 @ s2) = stack_cands m c segs arena s1 @ stack_cands m c segs arena s2"
  by (simp add: stack_cands_def)

lemma child_frames_parent: "fr \<in> set (child_frames nd seg idx fid spec) \<Longrightarrow> f_parent fr = fid"
  by (auto simp: child_frames_def Let_def split: option.splits)

lemma arena_ok_children:
  assumes "arena_ok arena" "i < length arena"
  shows "arena_ok (arena @ child_frames nd seg idx (int i) spec)"
  unfolding arena_ok_def
proof safe
  fix j assume j: "j < length (arena @ child_frames nd seg idx (int i) spec)"
  let ?fs = "child_frames nd seg idx (int i) spec"
  show "f_parent ((arena @ ?fs) ! j) < int j"
  proof (cases "j < length arena")
    case True
    then show ?thesis using assms(1) by (simp add: arena_ok_def nth_append)
  next
    case False
    then have "?fs ! (j - length arena) \<in> set ?fs" using j by simp
    then have "f_parent (?fs ! (j - length arena)) = int i" by (rule child_frames_parent)
    then show ?thesis using False assms(2) by (simp add: nth_append)
  qed
qed

lemma stack_ok_children:
  assumes "stack_ok arena stack"
  shows "stack_ok (arena @ fs) (rev (zip [length arena..<length arena + length fs] fs) @ stack)"
  using assms by (auto simp: stack_ok_def in_set_zip nth_append)

lemma stack_cands_extend:
  assumes "arena_ok arena" "stack_ok arena stack"
  shows "stack_cands m c segs (arena @ fs) stack = stack_cands m c segs arena stack"
  unfolding stack_cands_def
  by (rule arg_cong [of _ _ concat], rule map_cong [OF refl])
    (use assms in \<open>auto simp: frame_params_extend stack_ok_def\<close>)

lemma child_cands:
  assumes ok: "arena_ok arena" and i: "i < length arena" and idx: "idx < length segs"
    and fs: "fs = child_frames nd (segs ! idx) idx (int i) spec"
  shows "stack_cands m c segs (arena @ fs) (rev (zip [length arena..<length arena + length fs] fs)) =
    (case map_of (statik nd) (segs ! idx) of None \<Rightarrow> []
      | Some x \<Rightarrow> cands m c x (drop (Suc idx) segs) (spec + 2) (frame_params arena (int i))) @
    (case param nd of None \<Rightarrow> []
      | Some x \<Rightarrow> cands m c x (drop (Suc idx) segs) (spec + 1) (frame_params arena (int i) @ capture nd (segs ! idx)))"
proof -
  have ok': "arena_ok (arena @ fs)" unfolding fs by (rule arena_ok_children [OF ok i])
  have fp: "frame_params (arena @ fs) (int (length arena + j)) = frame_params arena (int i) @
      (if f_hasParam (fs ! j) then [\<lparr>p_name = f_paramName (fs ! j), p_value = f_paramValue (fs ! j)\<rparr>] else [])"
    if j: "j < length fs" for j
  proof -
    have "fs ! j \<in> set fs" using j by simp
    then have "f_parent (fs ! j) = int i" unfolding fs by (rule child_frames_parent)
    moreover have "0 < length arena + j" using i by linarith
    ultimately show ?thesis
      using frame_params_step [OF ok', of "length arena + j" "fs ! j"] i j frame_params_extend [OF ok, of "int i" fs]
      by simp
  qed
  show ?thesis
  proof (cases "param nd")
    case None
    then show ?thesis using fp [of 0]
      by (cases "map_of (statik nd) (segs ! idx)") (auto simp: fs child_frames_def stack_cands_def)
  next
    case (Some p)
    then show ?thesis using fp [of 0] fp [of 1]
      by (cases "map_of (statik nd) (segs ! idx)")
        (auto simp: fs child_frames_def stack_cands_def Let_def capture_def upt_rec)
  qed
qed

lemma match_loop_cands:
  assumes "arena_ok arena" "stack_ok arena stack" "arena \<noteq> []" "b_frame b < int (length arena)"
  shows "(case match_loop m c segs arena stack b of (arena', b') \<Rightarrow> abs_best arena' b') =
    fold keep_best (stack_cands m c segs arena stack) (abs_best arena b)"
  using assms
proof (induction m c segs arena stack b rule: match_loop.induct)
  case (1 m c segs arena b)
  then show ?case by (simp add: stack_cands_def)
next
  case (2 m c segs arena i fr stack b)
  have i: "i < length arena" "arena ! i = fr" and st: "stack_ok arena stack"
    using "2.prems"(2) by (auto simp: stack_ok_def)
  have bf: "b_frame (consider_route e (int i) sp b') < int (length arena)" if "b_frame b' < int (length arena)" for e sp b'
    using that i by (auto simp: consider_route_def Let_def split: option.splits)
  show ?case
  proof (cases "length segs \<le> f_idx fr")
    case True
    with 2(1) [OF refl refl True "2.prems"(1) st "2.prems"(3) bf [OF bf [OF "2.prems"(4)]]]
    show ?thesis
      by (simp add: stack_cands_def abs_best_consider Let_def)
  next
    case False
    define b' where "b' = consider_route (pick m c (wildcard (f_node fr))) (int i) (f_spec fr) b"
    define fs where "fs = child_frames (f_node fr) (segs ! f_idx fr) (f_idx fr) (int i) (f_spec fr)"
    define stk where "stk = rev (zip [length arena..<length arena + length fs] fs) @ stack"
    have ok: "arena_ok (arena @ fs)" unfolding fs_def by (rule arena_ok_children [OF "2.prems"(1) i(1)])
    have so: "stack_ok (arena @ fs) stk" unfolding stk_def by (rule stack_ok_children [OF st])
    have fb: "b_frame b' < int (length arena)" unfolding b'_def by (rule bf [OF "2.prems"(4)])
    then have IH: "(case match_loop m c segs (arena @ fs) stk b' of (arena', b') \<Rightarrow> abs_best arena' b') =
      fold keep_best (stack_cands m c segs (arena @ fs) stk) (abs_best (arena @ fs) b')"
      using 2(2) [OF refl refl False b'_def fs_def] ok so "2.prems"(3) by (simp add: stk_def)
    have ab: "abs_best (arena @ fs) b' = fold keep_best (cand_of (pick m c (wildcard (f_node fr))) (f_spec fr)
        (frame_params arena (int i))) (abs_best arena b)"
      unfolding abs_best_consider [symmetric] b'_def [symmetric]
      using fb by (simp add: abs_best_def frame_params_extend [OF "2.prems"(1)])
    have d: "drop (f_idx fr) segs = segs ! f_idx fr # drop (Suc (f_idx fr)) segs"
      using False by (simp add: Cons_nth_drop_Suc)
    have lp: "match_loop m c segs arena ((i, fr) # stack) b = match_loop m c segs (arena @ fs) stk b'"
      using False by (simp add: Let_def fs_def b'_def stk_def)
    have sc: "stack_cands m c segs arena ((i, fr) # stack) =
        cand_of (pick m c (wildcard (f_node fr))) (f_spec fr) (frame_params arena (int i)) @
        stack_cands m c segs (arena @ fs) stk"
      unfolding stk_def stack_cands_append stack_cands_extend [OF "2.prems"(1) st]
      using False by (subst child_cands [OF "2.prems"(1) i(1) _ fs_def]) (simp_all add: stack_cands_def d)
    show ?thesis unfolding lp IH ab sc by simp
  qed
qed

text \<open>The best candidate is the first one of the greatest rank.\<close>

definition abest_rank :: "abest \<Rightarrow> int" where
  "abest_rank b = 2 * fst (snd b) + (if fst (snd (snd b)) then 0 else 1)"

definition cand_rank :: "cand \<Rightarrow> int" where
  "cand_rank x = rank (fst x) (fst (snd x))"

lemma keep_best_rank:
  "keep_best x b = (if cand_rank x > abest_rank b
     then (Some (fst x), fst (snd x), re_method (fst x) = All, snd (snd x)) else b)"
  by (auto simp: keep_best_def cand_rank_def abest_rank_def rank_def split: prod.splits)

lemma fold_keep_best:
  "fold keep_best xs b = b \<and> (\<forall>x \<in> set xs. cand_rank x \<le> abest_rank b) \<or>
   (\<exists>x \<in> set xs. fold keep_best xs b = (Some (fst x), fst (snd x), re_method (fst x) = All, snd (snd x)) \<and>
      cand_rank x > abest_rank b \<and> (\<forall>y \<in> set xs. cand_rank y \<le> cand_rank x))"
proof (induction xs arbitrary: b)
  case Nil
  then show ?case by simp
next
  case (Cons x xs)
  let ?b = "(Some (fst x), fst (snd x), re_method (fst x) = All, snd (snd x))"
  have r: "abest_rank ?b = cand_rank x" by (simp add: abest_rank_def cand_rank_def rank_def)
  show ?case
  proof (cases "cand_rank x > abest_rank b")
    case True
    then show ?thesis using Cons [of ?b] unfolding r by (auto simp: keep_best_rank)
  next
    case False
    then show ?thesis using Cons [of b] by (auto simp: keep_best_rank)
  qed
qed

section \<open>What match returns\<close>

lemma match_fold:
  "(mr_route (match r m c path), mr_params (match r m c path)) =
   (case fold keep_best (cands m c (root r) (split path) 0 []) (None, -1, True, []) of
      (None, _) \<Rightarrow> (None, []) | (Some e, _, _, ps) \<Rightarrow> (Some e, ps))"
proof -
  let ?fr = "root_frame (root r)"
  obtain arena b where ml: "match_loop m c (split path) [?fr] [(0, ?fr)] init_best = (arena, b)" by fastforce
  have "abs_best arena b = fold keep_best (stack_cands m c (split path) [?fr] [(0, ?fr)]) (abs_best [?fr] init_best)"
    using match_loop_cands [of "[?fr]" "[(0, ?fr)]" init_best m c "split path"] ml
    by (simp add: arena_ok_def stack_ok_def root_frame_def init_best_def)
  moreover have "stack_cands m c (split path) [?fr] [(0, ?fr)] = cands m c (root r) (split path) 0 []"
    by (simp add: stack_cands_def root_frame_def frame_params_def)
  moreover have "abs_best [?fr] init_best = (None, -1, True, [])"
    by (simp add: abs_best_def init_best_def frame_params_def)
  ultimately have "fold keep_best (cands m c (root r) (split path) 0 []) (None, -1, True, []) = abs_best arena b"
    by simp
  then show ?thesis
    by (simp add: match_def ml Let_def abs_best_def frame_params_def del: match_loop.simps split: option.splits)
qed

lemma specificity_nonneg: "0 \<le> specificity ks"
proof -
  have "0 \<le> kind_weight k" for k by (cases k) auto
  then show ?thesis by (induction ks) (auto simp: specificity_def)
qed

lemma match_cands:
  assumes C: "C = cands m custom (root r) (split path) 0 []"
  shows "(C = [] \<and> mr_route (match r m custom path) = None \<and> mr_params (match r m custom path) = []) \<or>
    (\<exists>e sp ps. (e, sp, ps) \<in> set C \<and> mr_route (match r m custom path) = Some e \<and>
      mr_params (match r m custom path) = ps \<and> (\<forall>(e', sp', ps') \<in> set C. rank e' sp' \<le> rank e sp))"
proof -
  let ?b = "(None, -1, True, []) :: abest"
  have pos: "cand_rank x > abest_rank ?b" if "x \<in> set C" for x
  proof (cases x)
    case (fields e sp ps)
    with that have "0 \<le> sp" using specificity_nonneg by (auto simp: C cands_iff)
    with fields show ?thesis by (simp add: cand_rank_def rank_def abest_rank_def)
  qed
  from fold_keep_best [of C ?b] show ?thesis
  proof (elim disjE conjE bexE)
    assume f: "fold keep_best C ?b = ?b" and le: "\<forall>x \<in> set C. cand_rank x \<le> abest_rank ?b"
    have "C = []" using le pos by (cases C) force+
    then show ?thesis using match_fold [of r m custom path] f by (auto simp: C)
  next
    fix x assume x: "x \<in> set C"
      and f: "fold keep_best C ?b = (Some (fst x), fst (snd x), re_method (fst x) = All, snd (snd x))"
      and mx: "\<forall>y \<in> set C. cand_rank y \<le> cand_rank x"
    have "mr_route (match r m custom path) = Some (fst x)" "mr_params (match r m custom path) = snd (snd x)"
      using match_fold [of r m custom path] f by (auto simp: C)
    then show ?thesis using x mx
      by (intro disjI2 exI [of _ "fst x"] exI [of _ "fst (snd x)"] exI [of _ "snd (snd x)"])
        (auto simp: cand_rank_def)
  qed
qed

lemma matched_iff: "mr_matched (match r m custom path) \<longleftrightarrow> (\<exists>ks. fits ks (split path) \<and> offer (root r) m custom ks \<noteq> None)"
proof -
  let ?C = "cands m custom (root r) (split path) 0 []"
  have "mr_matched (match r m custom path) \<longleftrightarrow> ?C \<noteq> []"
    using match_cands [OF refl, of m custom r path] by (auto simp: mr_matched_def)
  also have "\<dots> \<longleftrightarrow> (\<exists>x. x \<in> set ?C)" by (cases ?C) auto
  also have "\<dots> \<longleftrightarrow> (\<exists>ks. fits ks (split path) \<and> offer (root r) m custom ks \<noteq> None)"
    using cands_iff [of _ _ _ m custom "root r" "split path" 0 "[]"] by fastforce
  finally show ?thesis .
qed


section \<open>Routers that registration builds\<close>

inductive built :: "router \<Rightarrow> bool" where
  built_new: "built new_router"
| built_add: "built r \<Longrightarrow> built (fst (add r e))"
| built_remove: "built r \<Longrightarrow> built (fst (remove r m custom pattern))"

definition own_key :: "RouteEntry \<Rightarrow> string" where
  "own_key e = methodKey (re_method e) (re_customMethod e)"

definition entries_ok :: "node \<Rightarrow> bool" where
  "entries_ok n \<longleftrightarrow> (\<forall>ks c. node_at n ks = Some c \<longrightarrow>
     sorted_wrt (<) (map fst (entries c)) \<and> (\<forall>(k, e) \<in> set (entries c). k = own_key e))"

lemma entries_ok_rec:
  "entries_ok n \<longleftrightarrow> sorted_wrt (<) (map fst (entries n)) \<and> (\<forall>(k, e) \<in> set (entries n). k = own_key e) \<and>
     (\<forall>k c. child n k = Some c \<longrightarrow> entries_ok c)"
proof
  assume n: "entries_ok n"
  have "entries_ok c" if "child n k = Some c" for k c
    unfolding entries_ok_def
  proof safe
    fix ks c' assume "node_at c ks = Some c'"
    then have "node_at n (k # ks) = Some c'" using that by simp
    with n show "sorted_wrt (<) (map fst (entries c'))" "\<And>a b. (a, b) \<in> set (entries c') \<Longrightarrow> a = own_key b"
      unfolding entries_ok_def by blast+
  qed
  moreover have "node_at n [] = Some n" by simp
  ultimately show "sorted_wrt (<) (map fst (entries n)) \<and> (\<forall>(k, e) \<in> set (entries n). k = own_key e) \<and>
     (\<forall>k c. child n k = Some c \<longrightarrow> entries_ok c)"
    using n unfolding entries_ok_def by blast
next
  assume a: "sorted_wrt (<) (map fst (entries n)) \<and> (\<forall>(k, e) \<in> set (entries n). k = own_key e) \<and>
     (\<forall>k c. child n k = Some c \<longrightarrow> entries_ok c)"
  show "entries_ok n" unfolding entries_ok_def
  proof (intro allI impI)
    fix ks c assume "node_at n ks = Some c"
    then show "sorted_wrt (<) (map fst (entries c)) \<and> (\<forall>(k, e) \<in> set (entries c). k = own_key e)"
      using a by (cases ks) (auto simp: entries_ok_def split: option.splits)
  qed
qed

lemma set_map_put: "set (map_put k v m) \<subseteq> insert (k, v) (set m)"
  by (induction k v m rule: map_put.induct) (auto split: if_splits)

lemma keys_map_put: "fst ` set (map_put k v m) = insert k (fst ` set m)"
  by (induction k v m rule: map_put.induct) auto

lemma sorted_map_put: "sorted_wrt (<) (map fst m) \<Longrightarrow> sorted_wrt (<) (map fst (map_put k v m))"
proof (induction m)
  case (Cons x m)
  then show ?case using keys_map_put [of k v m]
    by (cases x; cases "k < fst x"; cases "k = fst x") (auto dest: less_trans)
qed simp

lemma sorted_map_erase: "sorted_wrt (<) (map fst m) \<Longrightarrow> sorted_wrt (<) (map fst (map_erase k m))"
  by (induction m) (auto simp: map_erase_def)

lemma set_map_erase: "set (map_erase k m) \<subseteq> set m"
  by (auto simp: map_erase_def)

lemma entries_ok_empty [simp]: "entries_ok empty_node"
  by (auto simp: entries_ok_def node_at_empty) (auto simp: empty_node_def)

lemma child_simps:
  "child (Node st pa pn wc en) k = (case k of KStatic s \<Rightarrow> map_of st s | KParam \<Rightarrow> pa | KWild \<Rightarrow> wc)"
  by (cases k) auto

lemma child_upd:
  "child (Node (map_put s c st) pa pn wc en) = (child (Node st pa pn wc en))(KStatic s := Some c)"
  "child (Node st p pn' wc en) = (child (Node st pa pn wc en))(KParam := p)"
  "child (Node st pa pn w en) = (child (Node st pa pn wc en))(KWild := w)"
  by (rule ext, rename_tac k, case_tac k; simp)+

lemma entries_ok_default:
  "entries_ok n \<Longrightarrow> entries_ok (case child n k of None \<Rightarrow> empty_node | Some c \<Rightarrow> c)"
  by (auto simp: entries_ok_rec [of n] split: option.splits)

lemma entries_ok_set_child:
  assumes "entries_ok n" "entries n' = entries n" "child n' = (child n)(k := c)"
    "\<And>x. c = Some x \<Longrightarrow> entries_ok x"
  shows "entries_ok n'"
  using assms by (subst entries_ok_rec) (auto simp: entries_ok_rec [of n] split: if_splits)

lemma entries_ok_add_at:
  "entries_ok n \<Longrightarrow> key = own_key e \<Longrightarrow> entries_ok (fst (add_at n segs key e))"
proof (induction n segs key e rule: add_at.induct)
  case (1 st pa pn wc en key e)
  have "(k, x) \<in> set (map_put key e en) \<Longrightarrow> k = own_key x" for k x
    using set_map_put [of key e en] 1 by (subst (asm) entries_ok_rec) auto
  then show ?case using 1
    by (subst entries_ok_rec) (auto simp: entries_ok_rec [of "Node st pa pn wc en"] child_simps sorted_map_put)
next
  case (2 st pa pn wc en s segs key e)
  let ?n = "Node st pa pn wc en"
  note dflt = entries_ok_default [OF "2.prems"(1)]
  consider (wild) "s = ''*''" | (par) "s \<noteq> ''*''" "hd s = CHR '':''" | (stat) "s \<noteq> ''*''" "hd s \<noteq> CHR '':''"
    by blast
  then show ?case
  proof cases
    case wild
    have eq: "fst (add_at ?n (s # segs) key e) =
        Node st pa pn (Some (fst (add_at (case wc of None \<Rightarrow> empty_node | Some n \<Rightarrow> n) segs key e))) en"
      using wild by (simp split: prod.split)
    show ?thesis unfolding eq using "2.IH"(1) [OF wild] dflt [of KWild] "2.prems"
      by (intro entries_ok_set_child [OF "2.prems"(1) _ child_upd(3)]) simp_all
  next
    case par
    have eq: "fst (add_at ?n (s # segs) key e) =
        Node st (Some (fst (add_at (case pa of None \<Rightarrow> empty_node | Some n \<Rightarrow> n) segs key e)))
          (case pa of None \<Rightarrow> drop 1 s | Some _ \<Rightarrow> pn) wc en"
      using par by (simp add: Let_def split: prod.split)
    show ?thesis unfolding eq using "2.IH"(2) [OF par refl] dflt [of KParam] "2.prems"
      by (intro entries_ok_set_child [OF "2.prems"(1) _ child_upd(2)]) simp_all
  next
    case stat
    have eq: "fst (add_at ?n (s # segs) key e) =
        Node (map_put s (fst (add_at (case map_of st s of None \<Rightarrow> empty_node | Some n \<Rightarrow> n) segs key e)) st) pa pn wc en"
      using stat by (simp add: Let_def split: prod.split)
    show ?thesis unfolding eq using "2.IH"(3) [OF stat] dflt [of "KStatic s"] "2.prems"
      by (intro entries_ok_set_child [OF "2.prems"(1) _ child_upd(1)]) simp_all
  qed
qed

lemma entries_ok_erase_at: "entries_ok n \<Longrightarrow> entries_ok (erase_at n segs key)"
proof (induction n segs key rule: erase_at.induct)
  case (1 st pa pn wc en key)
  then show ?case using set_map_erase [of key en]
    by (subst entries_ok_rec)
      (auto simp: entries_ok_rec [of "Node st pa pn wc en"] child_simps sorted_map_erase)
next
  case (2 st pa pn wc en s segs key)
  let ?n = "Node st pa pn wc en"
  have sub: "child ?n k = Some c \<Longrightarrow> entries_ok c" for k c using "2.prems" by (subst (asm) entries_ok_rec) auto
  consider (wild) "s = ''*''" | (par) "s \<noteq> ''*''" "s \<noteq> [] \<and> hd s = CHR '':''"
    | (stat) "s \<noteq> ''*''" "\<not> (s \<noteq> [] \<and> hd s = CHR '':'')"
    by blast
  then show ?case
  proof cases
    case wild
    have eq: "erase_at ?n (s # segs) key = Node st pa pn (map_option (\<lambda>c. erase_at c segs key) wc) en"
      using wild by simp
    show ?thesis unfolding eq using "2.IH"(1) [OF wild] sub [of KWild]
      by (intro entries_ok_set_child [OF "2.prems" _ child_upd(3)]) auto
  next
    case par
    then have eq: "erase_at ?n (s # segs) key = Node st (map_option (\<lambda>c. erase_at c segs key) pa) pn wc en"
      by simp
    show ?thesis unfolding eq using "2.IH"(2) [OF par] sub [of KParam]
      by (intro entries_ok_set_child [OF "2.prems" _ child_upd(2)]) auto
  next
    case stat
    show ?thesis
    proof (cases "map_of st s")
      case None
      then have "erase_at ?n (s # segs) key = ?n" using stat by auto
      then show ?thesis using "2.prems" by simp
    next
      case (Some c)
      then have eq: "erase_at ?n (s # segs) key = Node (map_put s (erase_at c segs key) st) pa pn wc en"
        using stat by auto
      show ?thesis unfolding eq using "2.IH"(3) [OF stat Some] sub [of "KStatic s" c] Some
        by (intro entries_ok_set_child [OF "2.prems" _ child_upd(1)]) auto
    qed
  qed
qed

lemma built_ok: "built r \<Longrightarrow> entries_ok (root r) \<and> router_wf r"
proof (induction rule: built.induct)
  case built_new
  then show ?case by (simp add: new_router_def router_wf_new [unfolded new_router_def])
next
  case (built_add r e)
  then have "entries_ok (root (fst (add r e)))"
    using entries_ok_add_at [of "root r" _ e "split (re_pattern e)"]
    by (auto simp: add_def own_key_def split: prod.splits)
  with built_add show ?case by (simp add: router_wf_add)
next
  case (built_remove r m custom pattern)
  then have "entries_ok (root (fst (remove r m custom pattern)))"
    by (auto simp: remove_def entries_ok_erase_at Let_def split: option.splits)
  with built_remove show ?case by (simp add: router_wf_remove)
qed

section \<open>The Allow list\<close>

lemma take_node_iff:
  "t \<in> set (take_node (node_at n ks)) \<longleftrightarrow>
   (\<exists>c k e. node_at n ks = Some c \<and> (k, e) \<in> set (entries c) \<and> t \<in> set (take_entry e))"
  by (cases "node_at n ks") (auto simp: take_node_def)

lemma collectAllowed_iff:
  "t \<in> set (collectAllowed n segs) \<longleftrightarrow> (\<exists>ks. fits ks segs \<and> t \<in> set (take_node (node_at n ks)))"
proof (induction n segs rule: collectAllowed.induct)
  case (1 n)
  have c1: "(\<exists>ks. fits ks [] \<and> P ks) \<longleftrightarrow> P [] \<or> P [KWild]" for P unfolding fits_cases by blast
  show ?case unfolding c1 by (cases "wildcard n") (auto simp: take_node_def)
next
  case (2 n s segs)
  have c2: "(\<exists>ks. fits ks (s # segs) \<and> P ks) \<longleftrightarrow> P [KWild] \<or> (\<exists>ks. fits ks segs \<and> P (KStatic s # ks)) \<or>
      (\<exists>ks. fits ks segs \<and> P (KParam # ks))" for P
    unfolding fits_cases by blast
  have n: "set (take_node None) = {}" by (simp add: take_node_def)
  show ?case unfolding c2 using 2
    by (cases "map_of (statik n) s"; cases "param n"; cases "wildcard n") (simp_all add: n)
qed

definition standard :: "Method \<Rightarrow> bool" where
  "standard m \<longleftrightarrow> m \<noteq> All \<and> m \<noteq> Custom"

lemma methodKey_inj:
  "methodKey m c = methodKey m' c' \<longleftrightarrow> m = m' \<and> (m = Custom \<longrightarrow> c = c')"
  by (cases m; cases m') (auto simp: methodKey_def to_string_def to_string_nat_def to_digits.simps digit_char_def)

lemma pick_iff:
  assumes "standard m"
  shows "pick m c (Some nd) \<noteq> None \<longleftrightarrow>
    (\<exists>k \<in> {methodKey m c, methodKey All []} \<union> (if m = Head then {methodKey Get []} else {}). map_of (entries nd) k \<noteq> None)"
  using assms by (auto simp: pick_def standard_def Let_def split: option.splits if_splits)

lemma sorted_map_of: "sorted_wrt (<) (map fst m) \<Longrightarrow> (k, v) \<in> set m \<longleftrightarrow> map_of m k = Some v" for m :: "('k::linorder \<times> 'v) list"
  by (metis distinct_map map_of_eq_Some_iff strict_sorted_iff)

definition plain_custom :: "router \<Rightarrow> bool" where
  "plain_custom r \<longleftrightarrow> (\<forall>ks k e. lookup (root r) (ks, k) = Some e \<longrightarrow> re_method e = Custom \<longrightarrow>
     re_customMethod e \<notin> set (map methodToken standard_methods))"

lemma take_entry_token:
  assumes "standard m" "re_method e = Custom \<longrightarrow> re_customMethod e \<notin> set (map methodToken standard_methods)"
  shows "methodToken m \<in> set (take_entry e) \<longleftrightarrow> re_method e = All \<or> re_method e = m \<or> (re_method e = Get \<and> m = Head)"
  using assms by (cases m; cases "re_method e") (auto simp: take_entry_def standard_def standard_methods_def)

definition has_method :: "node \<Rightarrow> Method \<Rightarrow> bool" where
  "has_method c m \<longleftrightarrow> (\<exists>e. (own_key e, e) \<in> set (entries c) \<and> re_method e = m)"

lemma has_method_key:
  assumes srt: "sorted_wrt (<) (map fst (entries c))" and own: "\<forall>(k, e) \<in> set (entries c). k = own_key e"
    and m: "m \<noteq> Custom"
  shows "map_of (entries c) (methodKey m cu) \<noteq> None \<longleftrightarrow> has_method c m"
proof
  assume "map_of (entries c) (methodKey m cu) \<noteq> None"
  then obtain e where e: "(methodKey m cu, e) \<in> set (entries c)" by (auto dest: map_of_SomeD)
  then have k: "methodKey m cu = own_key e" using own by blast
  then have "re_method e = m" by (simp add: own_key_def methodKey_inj)
  with e k show "has_method c m" by (auto simp: has_method_def)
next
  assume "has_method c m"
  then obtain e where e: "(own_key e, e) \<in> set (entries c)" "re_method e = m" by (auto simp: has_method_def)
  then have "own_key e = methodKey m cu" using m by (simp add: own_key_def methodKey_inj)
  with e(1) sorted_map_of [OF srt] show "map_of (entries c) (methodKey m cu) \<noteq> None" by simp
qed

lemma take_node_token:
  assumes own: "\<forall>(k, e) \<in> set (entries c). k = own_key e" and m: "standard m"
    and cu: "\<forall>(k, e) \<in> set (entries c). re_method e = Custom \<longrightarrow> re_customMethod e \<notin> set (map methodToken standard_methods)"
  shows "methodToken m \<in> set (take_node (Some c)) \<longleftrightarrow>
    has_method c All \<or> has_method c m \<or> (has_method c Get \<and> m = Head)"
proof -
  have "methodToken m \<in> set (take_node (Some c)) \<longleftrightarrow> (\<exists>(k, e) \<in> set (entries c). methodToken m \<in> set (take_entry e))"
    by (auto simp: take_node_def)
  also have "\<dots> \<longleftrightarrow> (\<exists>(k, e) \<in> set (entries c). re_method e = All \<or> re_method e = m \<or> (re_method e = Get \<and> m = Head))"
    by (rule bex_cong [OF refl]) (use take_entry_token [OF m] cu in auto)
  also have "\<dots> \<longleftrightarrow> has_method c All \<or> has_method c m \<or> (has_method c Get \<and> m = Head)"
    using own unfolding has_method_def by fast
  finally show ?thesis .
qed

lemma offer_token:
  assumes ok: "entries_ok (root r)" and m: "standard m" and cu: "plain_custom r"
  shows "offer (root r) m [] ks \<noteq> None \<longleftrightarrow> methodToken m \<in> set (take_node (node_at (root r) ks))"
proof (cases "node_at (root r) ks")
  case None
  then show ?thesis by (simp add: offer_def take_node_def)
next
  case (Some c)
  from ok Some have srt: "sorted_wrt (<) (map fst (entries c))" and own: "\<forall>(k, e) \<in> set (entries c). k = own_key e"
    by (auto simp: entries_ok_def)
  have "lookup (root r) (ks, k) = Some e" if "(k, e) \<in> set (entries c)" for k e
    using that Some sorted_map_of [OF srt] by (simp add: lookup_def)
  then have cu': "\<forall>(k, e) \<in> set (entries c). re_method e = Custom \<longrightarrow>
      re_customMethod e \<notin> set (map methodToken standard_methods)"
    using cu unfolding plain_custom_def by blast
  have mm: "m \<noteq> Custom" "All \<noteq> Custom" "Get \<noteq> Custom" using m by (auto simp: standard_def)
  have "pick m [] (Some c) \<noteq> None \<longleftrightarrow> has_method c m \<or> has_method c All \<or> (m = Head \<and> has_method c Get)"
    using pick_iff [OF m, of "[]" c] unfolding has_method_key [OF srt own mm(1), of "[]", symmetric]
      has_method_key [OF srt own mm(2), of "[]", symmetric] has_method_key [OF srt own mm(3), of "[]", symmetric]
    by (auto split: if_splits)
  then show ?thesis unfolding offer_def Some take_node_token [OF own m cu'] by blast
qed

text \<open>
  C18: the \<open>Allow\<close> list of a 405 is exact. For every router that registration and removal can build
  and every standard method, \<open>Router::allowedMethods\<close> names the method exactly when
  \<open>Router::match\<close> would have found a route for it on that path, provided no custom route carries the
  token of a standard method.
\<close>

theorem allowedMethods_exact:
  assumes "built r" "standard m" "plain_custom r"
  shows "methodToken m \<in> set (allowedMethods r path) \<longleftrightarrow> mr_matched (match r m [] path)"
proof -
  have "methodToken m \<in> set (allowedMethods r path) \<longleftrightarrow>
      (\<exists>ks. fits ks (split path) \<and> methodToken m \<in> set (take_node (node_at (root r) ks)))"
    by (simp add: allowedMethods_def collectAllowed_iff)
  then show ?thesis
    using offer_token [OF _ assms(2,3)] built_ok [OF assms(1)] by (simp add: matched_iff)
qed

definition get_route :: "string \<Rightarrow> RouteEntry" where
  "get_route p = default_route\<lparr>re_pattern := p\<rparr>"

definition sample_router :: router where
  "sample_router = fst (add (fst (add new_router (get_route ''/a/:id''))) (default_route\<lparr>re_pattern := ''/a/*'', re_method := All\<rparr>))"

lemma built_sample: "built sample_router"
  unfolding sample_router_def by (intro built.intros)

lemma sample_lookup:
  "lookup (root sample_router) k =
    (if k = ([KStatic ''a'', KWild], ''A'') then Some (default_route\<lparr>re_pattern := ''/a/*'', re_method := All\<rparr>)
     else if k = ([KStatic ''a'', KParam], ''M:0'') then Some (get_route ''/a/:id'') else None)"
proof -
  have v: "validPattern ''/a/:id''" "validPattern ''/a/*''" by code_simp+
  have k: "route_key (get_route ''/a/:id'') = ([KStatic ''a'', KParam], ''M:0'')"
    "route_key (default_route\<lparr>re_pattern := ''/a/*'', re_method := All\<rparr>) = ([KStatic ''a'', KWild], ''A'')"
    by code_simp+
  have p: "re_pattern (get_route ''/a/:id'') = ''/a/:id''" by (simp add: get_route_def)
  show ?thesis unfolding sample_router_def
    by (simp add: add_lookup v k p) (simp add: new_router_def)
qed

theorem allowedMethods_exact_witness:
  "built sample_router \<and> standard Post \<and> plain_custom sample_router \<and>
   (methodToken Post \<in> set (allowedMethods sample_router ''/a/7'') \<longleftrightarrow> mr_matched (match sample_router Post [] ''/a/7''))"
proof -
  have "plain_custom sample_router" "standard Post"
    by (auto simp: plain_custom_def sample_lookup standard_def get_route_def default_route_def split: if_splits)
  then show ?thesis using allowedMethods_exact [OF built_sample, of Post "''/a/7''"] built_sample by simp
qed

text \<open>
  C16: registration refines a finite table. \<open>add\<close> returns false and changes nothing on an invalid
  pattern, and otherwise stores the entry under its pattern shape and method key, replacing the whole
  entry there and nothing else; \<open>remove\<close> returns whether the entry was registered and deletes it and
  nothing else.
\<close>

theorem registration_table:
  "snd (add r e) = validPattern (re_pattern e) \<and>
   lookup (root (fst (add r e))) =
     (if validPattern (re_pattern e) then (lookup (root r))(route_key e \<mapsto> e) else lookup (root r)) \<and>
   snd (remove r m c p) = (remove_key m c p \<in> dom (lookup (root r))) \<and>
   lookup (root (fst (remove r m c p))) = (lookup (root r))(remove_key m c p := None)"
proof (intro conjI)
  show "snd (add r e) = validPattern (re_pattern e)" by (auto simp: add_def split: prod.splits)
  show "lookup (root (fst (add r e))) =
     (if validPattern (re_pattern e) then (lookup (root r))(route_key e \<mapsto> e) else lookup (root r))"
    by (auto simp: add_lookup fun_eq_iff) (simp add: add_def)
  show "snd (remove r m c p) = (remove_key m c p \<in> dom (lookup (root r)))" by (auto simp: remove_result)
  show "lookup (root (fst (remove r m c p))) = (lookup (root r))(remove_key m c p := None)"
    by (auto simp: remove_lookup fun_eq_iff)
qed

text \<open>
  \<open>Router::size()\<close> is exact. However registrations, replacements, failed and successful removals
  are interleaved, the counter is the number of registered (pattern shape, method) pairs; so the
  unsigned decrement of \<open>remove\<close> never wraps.
\<close>

theorem size_exact:
  assumes "built r"
  shows "finite (dom (lookup (root r))) \<and> rt_size r = card (dom (lookup (root r)))"
  using built_ok [OF assms] by (simp add: router_wf_def)

theorem size_exact_witness:
  "built sample_router \<and> card (dom (lookup (root sample_router))) = 2 \<and> rt_size sample_router = 2"
proof -
  have "dom (lookup (root sample_router)) = {([KStatic ''a'', KWild], ''A''), ([KStatic ''a'', KParam], ''M:0'')}"
    by (auto simp: sample_lookup dom_def)
  then show ?thesis using size_exact [OF built_sample] built_sample by simp
qed

text \<open>
  A registered route answers. After \<open>add\<close> of a valid route, every path its pattern fits is matched
  for the route's method, and the route that wins is either the new one or one at least as specific.
\<close>

theorem add_then_match:
  assumes "validPattern (re_pattern e)" "fits (map seg_kind_of (split (re_pattern e))) (split path)"
  shows "\<exists>ks e'. mr_route (match (fst (add r e)) (re_method e) (re_customMethod e) path) = Some e' \<and>
    fits ks (split path) \<and> offer (root (fst (add r e))) (re_method e) (re_customMethod e) ks = Some e' \<and>
    rank e (specificity (map seg_kind_of (split (re_pattern e)))) \<le> rank e' (specificity ks)"
proof -
  let ?r = "fst (add r e)" and ?ks = "map seg_kind_of (split (re_pattern e))"
  let ?C = "cands (re_method e) (re_customMethod e) (root ?r) (split path) 0 []"
  have "lookup (root ?r) (?ks, methodKey (re_method e) (re_customMethod e)) = Some e"
    using assms(1) by (simp add: add_lookup route_key_def)
  then have "offer (root ?r) (re_method e) (re_customMethod e) ?ks = Some e"
    by (auto simp: lookup_def offer_def pick_def Let_def split: option.splits)
  then have mem: "(e, specificity ?ks, captures (root ?r) ?ks (split path)) \<in> set ?C"
    using assms(2) by (auto simp: cands_iff)
  with match_cands [OF refl, of "re_method e" "re_customMethod e" ?r path]
  obtain e' sp ps where "(e', sp, ps) \<in> set ?C" "mr_route (match ?r (re_method e) (re_customMethod e) path) = Some e'"
      "rank e (specificity ?ks) \<le> rank e' sp"
    by fastforce
  then show ?thesis by (auto simp: cands_iff)
qed

theorem add_then_match_witness:
  "validPattern ''/a/:id'' \<and> fits (map seg_kind_of (split ''/a/:id'')) (split ''/a/7'') \<and>
   mr_matched (match (fst (add new_router (get_route ''/a/:id''))) Get [] ''/a/7'')"
proof -
  have v: "validPattern ''/a/:id''" and f: "fits (map seg_kind_of (split ''/a/:id'')) (split ''/a/7'')" by code_simp+
  then show ?thesis using add_then_match [of "get_route ''/a/:id''" "''/a/7''" new_router]
    by (auto simp: get_route_def default_route_def mr_matched_def)
qed

section \<open>Where the search departs from the documented precedence\<close>

text \<open>
  The header of the router says static beats \<open>:param\<close> beats \<open>*\<close> at every level; the search compares
  sums. On \<open>/x/b/c\<close> the pattern that is static at the first level loses to one that is static at the
  second and third.
\<close>

lemma precedence_is_not_per_level:
  "map_option re_pattern (mr_route (match (fst (add (fst (add new_router (get_route ''/x/:b/:c''))) (get_route ''/:a/b/c'')))
     Get [] ''/x/b/c'')) = Some ''/:a/b/c''"
  by code_simp

text \<open>
  The name of a capture is the one of the first pattern registered at that node: \<open>/u/:name/posts\<close>
  registered after \<open>/u/:id\<close> delivers its capture as \<open>id\<close>.
\<close>

lemma capture_name_is_the_first:
  "(let m = match (fst (add (fst (add new_router (get_route ''/u/:id''))) (get_route ''/u/:name/posts''))) Get [] ''/u/7/posts''
    in (map_option re_pattern (mr_route m), map p_name (mr_params m))) = (Some ''/u/:name/posts'', [''id''])"
  by code_simp

text \<open>A GET route on \<open>/a/*\<close> wins over an exact All route on \<open>/a\<close> for the path \<open>/a\<close>.\<close>

lemma wildcard_beats_exact_all:
  "map_option re_pattern (mr_route (match (fst (add (fst (add new_router (default_route\<lparr>re_pattern := ''/a'', re_method := All\<rparr>)))
     (get_route ''/a/*''))) Get [] ''/a'')) = Some ''/a/*''"
  by code_simp

end
