(* ===== verification/HttpParse.thy ===== *)
theory HttpParse
  imports WsCodec
begin

text \<open>
  \<open>src/engine/HttpParse.cpp\<close>: the request-head parser the reactor and the fuzz target share. The
  slices of the source are string views into the buffer; here they are the sublists themselves.
  An early \<open>return p\<close> returns the partially filled head with \<open>ok\<close> still false.
\<close>

section \<open>The parser\<close>

text \<open>\<open>find_first_not_of(" \\t")\<close> and \<open>find_last_not_of(" \\t")\<close>.\<close>

definition trimSv :: "string \<Rightarrow> string" where
  "trimSv s = trim_ows s"

definition line_char_ok :: "char \<Rightarrow> bool" where
  "line_char_ok ch \<longleftrightarrow> \<not> (ord ch < 0x21 \<and> ch \<noteq> SP) \<and> \<not> (ord ch \<ge> 0x7f)"

text \<open>
  The target forms. The absolute form is reduced to its path; a scheme prefix always contains
  \<open>://\<close>, so the middle branch of the search is the only one taken.
\<close>

definition reduce_target :: "string \<Rightarrow> string option" where
  "reduce_target target =
     (if length target > 7 \<and> (substr target 0 7 = ''http://'' \<or> substr target 0 8 = ''https://'') then
        (case find_sub ''://'' target of
           None \<Rightarrow> None
         | Some i \<Rightarrow> Some (case find_from ''/'' target (i + 3) of None \<Rightarrow> ''/'' | Some slash \<Rightarrow> drop slash target))
      else if hd target \<noteq> CHR ''/'' \<and> target \<noteq> ''*'' then None
      else Some target)"

definition field_char_ok :: "char \<Rightarrow> bool" where
  "field_char_ok ch \<longleftrightarrow> \<not> (ord ch < 0x20 \<and> ch \<noteq> HT)"

text \<open>One field line that is not empty; \<open>None\<close> is the early return.\<close>

definition parse_field :: "string \<Rightarrow> header option" where
  "parse_field line =
     (if \<not> list_all field_char_ok line then None
      else if is_ows (hd line) then None
      else case find_sub '':'' line of
        None \<Rightarrow> None
      | Some colon \<Rightarrow>
          if colon = 0 then None
          else if is_ows (line ! (colon - 1)) then None
          else let name = substr line 0 colon; value = trimSv (drop (colon + 1) line)
               in if \<not> validUtf8 (bytes_of value) then None
                  else if \<not> list_all (\<lambda>ch. ord ch < 0x80) name then None
                  else Some (hdr name value))"

function parse_fields :: "string \<Rightarrow> nat \<Rightarrow> ParsedHead \<Rightarrow> ParsedHead" where
  "parse_fields head pos p =
     (if pos \<le> length head then
        (case find_from crlf head pos of
           None \<Rightarrow>
             (let line = drop pos head in
              if line = [] then p\<lparr>ph_ok := True\<rparr>
              else (case parse_field line of
                      None \<Rightarrow> p
                    | Some h \<Rightarrow> parse_fields head (length head + 1) (p\<lparr>ph_headers := ph_headers p @ [h]\<rparr>)))
         | Some eol \<Rightarrow>
             (if eol = pos then p\<lparr>ph_ok := True\<rparr>
              else (case parse_field (substr head pos (eol - pos)) of
                      None \<Rightarrow> p
                    | Some h \<Rightarrow> parse_fields head (eol + 2) (p\<lparr>ph_headers := ph_headers p @ [h]\<rparr>))))
      else p\<lparr>ph_ok := True\<rparr>)"
  by pat_completeness auto

termination
  by (relation "measure (\<lambda>(head, pos, p). length head + 1 - pos)")
    (auto dest: find_from_bounds)

declare parse_fields.simps [simp del]

definition parseHead :: "string \<Rightarrow> nat \<Rightarrow> ParsedHead" where
  "parseHead raw headEnd =
     (let p = empty_head; head = take headEnd raw; lineEnd = find_sub crlf head;
          requestLine = (case lineEnd of None \<Rightarrow> head | Some e \<Rightarrow> substr head 0 e)
      in if \<not> list_all line_char_ok requestLine then p
         else case find_sub '' '' requestLine of
           None \<Rightarrow> p
         | Some sp1 \<Rightarrow>
           (case find_from '' '' requestLine (sp1 + 1) of
              None \<Rightarrow> p
            | Some sp2 \<Rightarrow>
              if sp1 = 0 \<or> sp2 = sp1 + 1 then p
              else let (m, custom) = parseMethod (substr requestLine 0 sp1) (ph_customMethod p);
                       p1 = p\<lparr>ph_method := m, ph_customMethod := custom\<rparr>;
                       target = substr requestLine (sp1 + 1) (sp2 - sp1 - 1);
                       version = drop (sp2 + 1) requestLine
                   in if version \<noteq> ''HTTP/1.1'' \<and> version \<noteq> ''HTTP/1.0'' then p1\<lparr>ph_badVersion := True\<rparr>
                      else let p2 = p1\<lparr>ph_version := version\<rparr>
                           in case reduce_target target of
                                None \<Rightarrow> p2
                              | Some t \<Rightarrow>
                                  parse_fields head (case lineEnd of None \<Rightarrow> length head + 1 | Some e \<Rightarrow> e + 2)
                                    (p2\<lparr>ph_target := t\<rparr>)))"

definition parseRequestHead :: "string \<Rightarrow> nat \<Rightarrow> ParsedHead" where
  "parseRequestHead raw headEnd = parseHead raw headEnd"

section \<open>What an accepted head guarantees\<close>

definition safe_header :: "header \<Rightarrow> bool" where
  "safe_header h \<longleftrightarrow>
     h_name h \<noteq> [] \<and> CHR '':'' \<notin> set (h_name h) \<and> \<not> is_ows (hd (h_name h)) \<and> \<not> is_ows (last (h_name h)) \<and>
     (\<forall>c \<in> set (h_name h). field_char_ok c \<and> ord c < 0x80) \<and>
     (\<forall>c \<in> set (h_value h). field_char_ok c) \<and> trim_ows (h_value h) = h_value h \<and>
     validUtf8 (bytes_of (h_value h))"

lemma find_char_Some: "find_sub [c] s = Some i \<Longrightarrow> i < length s \<and> s ! i = c \<and> c \<notin> set (take i s)"
  by (auto simp: find_from_Some_iff occurs_at_1 in_set_conv_nth)

lemma parse_field_safe:
  assumes "parse_field line = Some h" "line \<noteq> []"
  shows "safe_header h"
proof -
  obtain colon where c: "find_sub '':'' line = Some colon" "colon \<noteq> 0" "\<not> is_ows (line ! (colon - 1))"
      and ok: "list_all field_char_ok line" "\<not> is_ows (hd line)" "validUtf8 (bytes_of (trimSv (drop (colon + 1) line)))"
        "list_all (\<lambda>ch. ord ch < 0x80) (take colon line)"
      and h: "h = hdr (take colon line) (trimSv (drop (colon + 1) line))"
    using assms(1) by (auto simp: parse_field_def substr_def Let_def split: if_splits option.splits)
  have cl: "colon < length line" "CHR '':'' \<notin> set (take colon line)" using find_char_Some [OF c(1)] by auto
  have "hd (take colon line) = hd line" using c(2) by (cases line; cases colon) auto
  moreover have "last (take colon line) = line ! (colon - 1)"
    using cl(1) c(2) by (subst last_conv_nth) (auto simp: min_def)
  moreover have "field_char_ok x" if "x \<in> set (trimSv (drop (colon + 1) line))" for x
    using that ok(1) set_trim_ows [of "drop (colon + 1) line"] by (auto simp: trimSv_def list_all_iff dest: in_set_dropD)
  ultimately show ?thesis using h c ok cl assms(2)
    by (auto simp: safe_header_def list_all_iff trimSv_def dest: in_set_takeD)
qed

lemma parse_fields_safe:
  "list_all safe_header (ph_headers p) \<Longrightarrow> list_all safe_header (ph_headers (parse_fields head pos p))"
proof (induction head pos p rule: parse_fields.induct)
  case (1 head pos p)
  show ?case
  proof (cases "pos \<le> length head")
    case False
    then show ?thesis using 1(3) by (simp add: parse_fields.simps [of head pos])
  next
    case True
    show ?thesis
    proof (cases "find_from crlf head pos")
      case None
      then show ?thesis
        using 1(1) [OF True None refl] "1.prems" True parse_field_safe
        by (subst parse_fields.simps) (auto split: option.splits)
    next
      case (Some eol)
      have ne: "eol \<noteq> pos \<Longrightarrow> substr head pos (eol - pos) \<noteq> []"
        using find_from_bounds [OF Some] by (auto simp: substr_def)
      show ?thesis
        using 1(2) [OF True Some] "1.prems" True Some ne parse_field_safe
        by (subst parse_fields.simps) (auto split: option.splits)
    qed
  qed
qed

lemma parse_fields_keep [simp]:
  "ph_method (parse_fields head pos p) = ph_method p" "ph_customMethod (parse_fields head pos p) = ph_customMethod p"
  "ph_target (parse_fields head pos p) = ph_target p" "ph_version (parse_fields head pos p) = ph_version p"
  by (induction head pos p rule: parse_fields.induct; subst parse_fields.simps; auto split: option.splits simp: Let_def)+

lemma reduce_target_safe:
  assumes "reduce_target t = Some t'" "t \<noteq> []" "\<forall>c \<in> set t. P c" "P (CHR ''/'')"
  shows "t' \<noteq> [] \<and> (hd t' = CHR ''/'' \<or> t' = ''*'') \<and> (\<forall>c \<in> set t'. P c)"
proof -
  have d: "drop i t \<noteq> [] \<and> hd (drop i t) = CHR ''/''" if "find_from ''/'' t p = Some i" for i p
    using that by (auto simp: find_from_Some_iff occurs_at_1 hd_drop_conv_nth)
  from assms show ?thesis
    by (auto simp: reduce_target_def dest: d in_set_dropD split: if_splits option.splits)
qed

text \<open>
  C10: what an accepted request head can carry. When \<open>parseRequestHead\<close> accepts, the version is
  HTTP/1.0 or HTTP/1.1; the target is \<open>*\<close> or begins with a slash and is visible ASCII without spaces; and
  every header has a non-empty ASCII name without colon or surrounding blanks and a trimmed, valid
  UTF-8 value, neither of them with a control byte (CR, LF and NUL included) except HTAB: nothing a
  reflecting handler could use to split a message.
\<close>

theorem parseRequestHead_safe:
  assumes "ph_ok (parseRequestHead raw headEnd)"
  shows "(let p = parseRequestHead raw headEnd in
    ph_version p \<in> {''HTTP/1.0'', ''HTTP/1.1''} \<and>
    (ph_target p = ''*'' \<or> hd (ph_target p) = CHR ''/'') \<and> ph_target p \<noteq> [] \<and>
    (\<forall>c \<in> set (ph_target p). 0x21 \<le> ord c \<and> ord c < 0x7f) \<and>
    list_all safe_header (ph_headers p))"
proof -
  define head where "head = take headEnd raw"
  define rl where "rl = (case find_sub crlf head of None \<Rightarrow> head | Some e \<Rightarrow> substr head 0 e)"
  obtain sp1 sp2 m cu p t pos where
    rlc: "list_all line_char_ok rl" and sp: "find_sub '' '' rl = Some sp1" "find_from '' '' rl (sp1 + 1) = Some sp2"
    and ne: "sp1 \<noteq> 0" "sp2 \<noteq> sp1 + 1" and t: "reduce_target (substr rl (sp1 + 1) (sp2 - sp1 - 1)) = Some t"
    and v: "drop (sp2 + 1) rl = ''HTTP/1.1'' \<or> drop (sp2 + 1) rl = ''HTTP/1.0''"
    and p: "p = empty_head\<lparr>ph_method := m, ph_customMethod := cu, ph_version := drop (sp2 + 1) rl, ph_target := t\<rparr>"
    and eq: "parseRequestHead raw headEnd = parse_fields head pos p"
    using assms unfolding parseRequestHead_def parseHead_def
    by (auto simp: Let_def head_def [symmetric] rl_def [symmetric] empty_head_def split: if_splits option.splits prod.splits)
  have b: "sp1 + 1 \<le> sp2" "sp2 < length rl" using find_from_bounds [OF sp(2)] by auto
  let ?t = "substr rl (sp1 + 1) (sp2 - sp1 - 1)"
  have ne': "?t \<noteq> []" using b ne(2) by (auto simp: substr_def)
  have vis: "\<forall>c \<in> set ?t. 0x21 \<le> ord c \<and> ord c < 0x7f"
  proof
    fix c assume "c \<in> set ?t"
    then obtain i where i: "i < sp2 - sp1 - 1" "c = rl ! (sp1 + 1 + i)" using b
      by (auto simp: substr_def in_set_conv_nth)
    then have "c \<noteq> SP" using sp(2) b by (auto simp: find_from_Some_iff occurs_at_1)
    moreover have "line_char_ok c" using rlc i b by (simp add: list_all_length)
    ultimately show "0x21 \<le> ord c \<and> ord c < 0x7f" by (auto simp: line_char_ok_def)
  qed
  have "(0x21::nat) \<le> ord (CHR ''/'') \<and> ord (CHR ''/'') < 0x7f" by (simp add: ord_def)
  from reduce_target_safe [OF t ne' vis this] v parse_fields_safe [of p head pos] show ?thesis
    by (auto simp: eq p empty_head_def)
qed

section \<open>Printing and parsing\<close>

definition field_line :: "header \<Rightarrow> string" where
  "field_line h = h_name h @ '': '' @ h_value h"

fun join_crlf :: "string list \<Rightarrow> string" where
  "join_crlf [] = []"
| "join_crlf [l] = l"
| "join_crlf (l # ls) = l @ crlf @ join_crlf ls"

definition print_head :: "string \<Rightarrow> string \<Rightarrow> string \<Rightarrow> header list \<Rightarrow> string" where
  "print_head token target version hs =
     join_crlf ((token @ '' '' @ target @ '' '' @ version) # map field_line hs)"

lemma field_char_ok_crlf: "field_char_ok c \<Longrightarrow> c \<noteq> CR \<and> c \<noteq> LF"
  by (auto simp: field_char_ok_def ord_def)

lemma parse_field_line: "safe_header h \<Longrightarrow> parse_field (field_line h) = Some h"
proof -
  assume h: "safe_header h"
  let ?n = "h_name h" and ?v = "h_value h"
  have c: "find_sub '':'' (field_line h) = Some (length ?n)"
    using find_char_append [of "CHR '':''" ?n "[]" "'' '' @ ?v"] h by (simp add: field_line_def safe_header_def)
  have t: "trimSv (SP # ?v) = ?v" using h by (simp add: trimSv_def trim_ows_def is_ows_def safe_header_def)
  have "field_char_ok (CHR '':'')" "field_char_ok SP" by (simp_all add: field_char_ok_def ord_def)
  then have "list_all field_char_ok (field_line h)" using h by (auto simp: field_line_def list_all_iff safe_header_def)
  moreover have "field_line h ! (length ?n - 1) = last ?n"
    using h by (simp add: field_line_def nth_append last_conv_nth safe_header_def)
  ultimately show ?thesis using h c t
    by (simp add: parse_field_def substr_def Let_def safe_header_def) (simp add: field_line_def list_all_iff)
qed

lemma field_line_no_cr: "safe_header h \<Longrightarrow> CR \<notin> set (field_line h) \<and> field_line h \<noteq> []"
  using field_char_ok_crlf by (fastforce simp: safe_header_def field_line_def)

lemma find_crlf_None: "CR \<notin> set a \<Longrightarrow> find_from crlf (pre @ a) (length pre) = None"
  unfolding find_from_None_iff occurs_at_2
proof (intro allI impI notI)
  fix j assume cr: "CR \<notin> set a" "length pre \<le> j"
    "Suc j < length (pre @ a) \<and> (pre @ a) ! j = CR \<and> (pre @ a) ! Suc j = LF"
  then have "a ! (j - length pre) = CR" "j - length pre < length a" by (auto simp: nth_append)
  with cr(1) show False by (metis nth_mem)
qed

lemma parse_fields_print:
  "list_all safe_header hs \<Longrightarrow> hs \<noteq> [] \<Longrightarrow>
   parse_fields (pre @ join_crlf (map field_line hs)) (length pre) p =
     p\<lparr>ph_headers := ph_headers p @ hs, ph_ok := True\<rparr>"
proof (induction hs arbitrary: pre p)
  case (Cons h hs)
  have h: "safe_header h" and hs: "list_all safe_header hs" using Cons.prems by auto
  note fl = field_line_no_cr [OF h] and pf = parse_field_line [OF h]
  show ?case
  proof (cases hs)
    case Nil
    have "find_from crlf (pre @ field_line h) (length pre) = None"
      using fl by (intro find_crlf_None) simp
    then show ?thesis using Nil fl pf
      by (subst parse_fields.simps) (simp add: parse_fields.simps)
  next
    case (Cons h' hs')
    let ?rest = "join_crlf (map field_line hs)"
    have e: "join_crlf (map field_line (h # hs)) = field_line h @ crlf @ ?rest" using Cons by simp
    have f: "find_from crlf (pre @ field_line h @ crlf @ ?rest) (length pre) = Some (length pre + length (field_line h))"
      using fl by (intro find_crlf_append) simp
    have IH: "parse_fields ((pre @ field_line h @ crlf) @ ?rest) (length (pre @ field_line h @ crlf))
        (p\<lparr>ph_headers := ph_headers p @ [h]\<rparr>) = p\<lparr>ph_headers := ph_headers p @ h # hs, ph_ok := True\<rparr>"
      using Cons.IH [OF hs, of "pre @ field_line h @ crlf" "p\<lparr>ph_headers := ph_headers p @ [h]\<rparr>"] Cons by simp
    show ?thesis unfolding e using f fl pf IH
      by (subst parse_fields.simps) (simp add: substr_append)
  qed
qed simp

definition token_chars :: "string \<Rightarrow> bool" where
  "token_chars s \<longleftrightarrow> s \<noteq> [] \<and> (\<forall>c \<in> set s. 0x21 \<le> ord c \<and> ord c < 0x7f)"

lemma token_chars_line: "token_chars s \<Longrightarrow> list_all line_char_ok s \<and> SP \<notin> set s \<and> CR \<notin> set s"
  by (auto simp: token_chars_def list_all_iff line_char_ok_def ord_def)

lemma reduce_target_origin: "target = ''*'' \<or> (target \<noteq> [] \<and> hd target = CHR ''/'') \<Longrightarrow> reduce_target target = Some target"
  by (cases target) (auto simp: reduce_target_def substr_def)

lemma request_line_split:
  assumes t: "token_chars token" and g: "token_chars target" and rl: "rl = token @ '' '' @ target @ '' '' @ version"
  shows "find_sub '' '' rl = Some (length token)"
    "find_from '' '' rl (length token + 1) = Some (length token + 1 + length target)"
    "substr rl 0 (length token) = token" "substr rl (length token + 1) (length target) = target"
    "drop (length token + 1 + length target + 1) rl = version"
proof -
  show "find_sub '' '' rl = Some (length token)"
    using find_char_append [of SP token "[]" "target @ '' '' @ version"] token_chars_line [OF t] by (simp add: rl)
  show "find_from '' '' rl (length token + 1) = Some (length token + 1 + length target)"
    using find_char_append [of SP target "token @ '' ''" version] token_chars_line [OF g] by (simp add: rl)
qed (simp_all add: rl substr_def)

text \<open>
  C13: printing and parsing a request head round trips. For every method token and target of visible
  ASCII, the target in origin or asterisk form, both HTTP versions and any list of safe headers, the
  bytes \<open>token SP target SP version (CRLF name ":" SP value)*\<close>, followed by whatever the connection carries
  next, parse to exactly that method, target, version and header list.
\<close>

theorem parse_print_head:
  assumes "token_chars token" "token_chars target" "target = ''*'' \<or> hd target = CHR ''/''"
    "version \<in> {''HTTP/1.0'', ''HTTP/1.1''}" "list_all safe_header hs"
  shows "parseRequestHead (print_head token target version hs @ rest) (length (print_head token target version hs)) =
    \<lparr>ph_method = fst (parseMethod token []), ph_customMethod = snd (parseMethod token []), ph_target = target,
     ph_version = version, ph_headers = hs, ph_ok = True, ph_badVersion = False\<rparr>"
proof -
  define rl where "rl = token @ '' '' @ target @ '' '' @ version"
  define head where "head = print_head token target version hs"
  note sp = request_line_split [OF assms(1,2) rl_def]
  have "CR \<notin> set version" "list_all line_char_ok version" "line_char_ok SP"
    using assms(4) by (auto simp: line_char_ok_def ord_def)
  then have cr: "CR \<notin> set rl" and lc: "list_all line_char_ok rl"
    using token_chars_line [OF assms(1)] token_chars_line [OF assms(2)] by (auto simp: rl_def)
  have rt: "reduce_target target = Some target"
    using assms(2,3) by (intro reduce_target_origin) (auto simp: token_chars_def)
  have nz: "length token \<noteq> 0" "length target \<noteq> 0" using assms(1,2) by (auto simp: token_chars_def)
  define p where "p = \<lparr>ph_method = fst (parseMethod token []), ph_customMethod = snd (parseMethod token []), ph_target = target,
     ph_version = version, ph_headers = [], ph_ok = False, ph_badVersion = False\<rparr>"
  define body where "body = parse_fields head (case find_sub crlf head of None \<Rightarrow> length head + 1 | Some e \<Rightarrow> e + 2) p"
  have "(case find_sub crlf head of None \<Rightarrow> head | Some e \<Rightarrow> substr head 0 e) = rl \<and>
      body = p\<lparr>ph_headers := hs, ph_ok := True\<rparr>"
  proof (cases hs)
    case Nil
    then have h: "head = rl" by (simp add: head_def print_head_def rl_def)
    then have "find_sub crlf head = None" using find_crlf_None [OF cr, of "[]"] by simp
    then show ?thesis using Nil by (simp add: h body_def parse_fields.simps p_def)
  next
    case (Cons x xs)
    let ?rest = "join_crlf (map field_line hs)"
    have h: "head = rl @ crlf @ ?rest" using Cons by (simp add: head_def print_head_def rl_def)
    have f: "find_sub crlf head = Some (length rl)" using find_crlf_append [OF cr, of "[]" ?rest] by (simp add: h)
    have "parse_fields ((rl @ crlf) @ ?rest) (length (rl @ crlf)) p = p\<lparr>ph_headers := hs, ph_ok := True\<rparr>"
      using parse_fields_print [OF assms(5), of "rl @ crlf" p] Cons by (simp add: p_def)
    with f show ?thesis by (simp add: h body_def substr_def)
  qed
  moreover have "take (length head) (head @ rest) = head" by simp
  ultimately show ?thesis
    unfolding parseRequestHead_def parseHead_def head_def [symmetric]
    using sp lc rt nz assms(4)
    by (auto simp: Let_def body_def p_def empty_head_def split: prod.splits)
qed

definition sample_head :: string where
  "sample_head = print_head ''GET'' ''/a?b=1'' ''HTTP/1.1'' [hdr ''Host'' ''x'', hdr ''Accept'' ''a b'']"

theorem parse_print_head_witness:
  "token_chars ''GET'' \<and> token_chars ''/a?b=1'' \<and> list_all safe_header [hdr ''Host'' ''x'', hdr ''Accept'' ''a b''] \<and>
   parseRequestHead (sample_head @ crlf @ crlf) (length sample_head) =
    \<lparr>ph_method = Get, ph_customMethod = [], ph_target = ''/a?b=1'', ph_version = ''HTTP/1.1'',
     ph_headers = [hdr ''Host'' ''x'', hdr ''Accept'' ''a b''], ph_ok = True, ph_badVersion = False\<rparr>"
proof -
  have "token_chars ''GET''" "token_chars ''/a?b=1''" by code_simp+
  moreover have "list_all safe_header [hdr ''Host'' ''x'', hdr ''Accept'' ''a b'']" by code_simp
  moreover have "''/a?b=1'' = ''*'' \<or> hd ''/a?b=1'' = CHR ''/''" "''HTTP/1.1'' \<in> {''HTTP/1.0'', ''HTTP/1.1''}" by simp_all
  moreover note parse_print_head [OF calculation(1,2,4,5,3), of "crlf @ crlf"]
  ultimately show ?thesis by (simp add: sample_head_def parseMethod_def)
qed

theorem parseRequestHead_safe_witness:
  "ph_ok (parseRequestHead (''GET / HTTP/1.1'' @ crlf @ ''Host: x'') 24) \<and>
   list_all safe_header (ph_headers (parseRequestHead (''GET / HTTP/1.1'' @ crlf @ ''Host: x'') 24))"
proof -
  have "ph_ok (parseRequestHead (''GET / HTTP/1.1'' @ crlf @ ''Host: x'') 24)" by code_simp
  then show ?thesis using parseRequestHead_safe by (auto simp: Let_def)
qed

end
