(* ===== verification/HttpHead.thy ===== *)
theory HttpHead
  imports HttpParse
begin

text \<open>
  The HTTP helpers of \<open>src/engine/UvReactor.cpp\<close>: header lookup and comparison, the filters on
  handler-supplied fields, the Date line, and the two response heads. The wall clock is an argument.
\<close>

section \<open>Comparing and filtering fields\<close>

definition uvIequals :: "string \<Rightarrow> string \<Rightarrow> bool" where
  "uvIequals a b = list_all2 (\<lambda>x y. lower x = lower y) a b"

definition uvFindHeader :: "header list \<Rightarrow> string \<Rightarrow> header option" where
  "uvFindHeader hs name = find (\<lambda>h. uvIequals (h_name h) name) hs"

definition uvTrim :: "string \<Rightarrow> string" where
  "uvTrim s = trim_ows s"

definition tchar :: "char \<Rightarrow> bool" where
  "tchar ch \<longleftrightarrow> (ord (CHR ''a'') \<le> ord ch \<and> ord ch \<le> ord (CHR ''z'')) \<or>
     (ord (CHR ''A'') \<le> ord ch \<and> ord ch \<le> ord (CHR ''Z'')) \<or>
     (ord (CHR ''0'') \<le> ord ch \<and> ord ch \<le> ord (CHR ''9'')) \<or>
     ch \<in> set ''!#$%&*+-.^_|~'' \<or> ch = CHR 0x27 \<or> ch = CHR 0x60"

definition uvIsToken :: "string \<Rightarrow> bool" where
  "uvIsToken name \<longleftrightarrow> name \<noteq> [] \<and> list_all tchar name"

definition uvIsSafeValue :: "string \<Rightarrow> bool" where
  "uvIsSafeValue value \<longleftrightarrow> list_all (\<lambda>ch. \<not> ((ord ch < 0x20 \<and> ch \<noteq> HT) \<or> ord ch = 0x7f)) value"

definition owned_headers :: "string list" where
  "owned_headers = [''content-length'', ''connection'', ''transfer-encoding'', ''keep-alive'',
     ''upgrade'', ''trailer'', ''te'']"

definition uvIsEngineOwnedHeader :: "string \<Rightarrow> bool" where
  "uvIsEngineOwnedHeader name =
     (if list_ex (\<lambda>own. uvIequals name own) owned_headers then True
      else if length name > 6 then map lower (substr name 0 6) = ''proxy-''
      else False)"

section \<open>The Date line\<close>

text \<open>
  \<open>gmtime_r\<close> for a time at or after the epoch: the civil date by counting years and months, and
  \<open>strftime\<close> with the format \<open>%a, %d %b %Y %H:%M:%S GMT\<close> into a buffer of 40 bytes (0 bytes are
  stored when the text and its terminator do not fit).
\<close>

definition leap :: "nat \<Rightarrow> bool" where
  "leap y \<longleftrightarrow> y mod 4 = 0 \<and> (y mod 100 \<noteq> 0 \<or> y mod 400 = 0)"

definition year_len :: "nat \<Rightarrow> nat" where
  "year_len y = (if leap y then 366 else 365)"

definition month_lens :: "nat \<Rightarrow> nat list" where
  "month_lens y = [31, if leap y then 29 else 28, 31, 30, 31, 30, 31, 31, 30, 31, 30, 31]"

function count_years :: "nat \<Rightarrow> nat \<Rightarrow> nat \<times> nat" where
  "count_years y days = (if days < year_len y then (y, days) else count_years (y + 1) (days - year_len y))"
  by pat_completeness auto

termination
  by (relation "measure (\<lambda>(y, days). days)") (auto simp: year_len_def split: if_splits)

declare count_years.simps [simp del]

fun count_months :: "nat list \<Rightarrow> nat \<Rightarrow> nat \<Rightarrow> nat \<times> nat" where
  "count_months [] m days = (m, days)"
| "count_months (l # ls) m days = (if days < l then (m, days) else count_months ls (m + 1) (days - l))"

record tm =
  tm_year :: nat
  tm_mon :: nat
  tm_mday :: nat
  tm_hour :: nat
  tm_min :: nat
  tm_sec :: nat
  tm_wday :: nat

definition gmtime :: "nat \<Rightarrow> tm" where
  "gmtime now =
     (let days = now div 86400; secs = now mod 86400;
          (y, yday) = count_years 1970 days;
          (m, md) = count_months (month_lens y) 0 yday
      in \<lparr>tm_year = y, tm_mon = m, tm_mday = md + 1, tm_hour = secs div 3600,
          tm_min = secs div 60 mod 60, tm_sec = secs mod 60, tm_wday = (days + 4) mod 7\<rparr>)"

definition day_names :: "string list" where
  "day_names = [''Sun'', ''Mon'', ''Tue'', ''Wed'', ''Thu'', ''Fri'', ''Sat'']"

definition month_names :: "string list" where
  "month_names = [''Jan'', ''Feb'', ''Mar'', ''Apr'', ''May'', ''Jun'', ''Jul'', ''Aug'', ''Sep'', ''Oct'',
     ''Nov'', ''Dec'']"

definition two :: "nat \<Rightarrow> string" where
  "two n = [digit_char (n div 10), digit_char (n mod 10)]"

definition strftime_http :: "tm \<Rightarrow> string" where
  "strftime_http t =
     (let s = day_names ! tm_wday t @ '', '' @ two (tm_mday t) @ '' '' @ month_names ! tm_mon t @ '' '' @
            to_string_nat (tm_year t) @ '' '' @ two (tm_hour t) @ '':'' @ two (tm_min t) @ '':'' @
            two (tm_sec t) @ '' GMT''
      in if length s < 40 then s else [])"

definition date_line :: "nat \<Rightarrow> string" where
  "date_line now = ''Date: '' @ strftime_http (gmtime now) @ crlf"

text \<open>The thread-local cache: \<open>cachedSec\<close> and \<open>cached\<close>.\<close>

record date_cache =
  cachedSec :: nat
  cached :: string

definition new_date_cache :: date_cache where
  "new_date_cache = \<lparr>cachedSec = 0, cached = []\<rparr>"

definition uvDateHeader :: "nat \<Rightarrow> date_cache \<Rightarrow> date_cache \<times> string" where
  "uvDateHeader now dc =
     (if now \<noteq> cachedSec dc \<or> cached dc = []
      then let c = date_line now in (\<lparr>cachedSec = now, cached = c\<rparr>, c)
      else (dc, cached dc))"

section \<open>Response heads\<close>

definition caller_fields :: "header list \<Rightarrow> header list" where
  "caller_fields headers =
     filter (\<lambda>h. \<not> uvIsEngineOwnedHeader (h_name h) \<and> \<not> (\<not> uvIsToken (h_name h) \<or> \<not> uvIsSafeValue (h_value h))) headers"

definition bodyless :: "int \<Rightarrow> bool" where
  "bodyless status \<longleftrightarrow> status = 204 \<or> status = 304 \<or> (status \<ge> 100 \<and> status < 200)"

definition connection_lines :: "bool \<Rightarrow> int \<Rightarrow> string" where
  "connection_lines keepAlive keepAliveSecs =
     (if keepAlive \<and> keepAliveSecs < 0 then ''Connection: keep-alive'' @ crlf @ crlf
      else if keepAlive then ''Connection: keep-alive'' @ crlf @ ''Keep-Alive: timeout='' @
        to_string keepAliveSecs @ crlf @ crlf
      else ''Connection: close'' @ crlf @ crlf)"

definition head_start :: "nat \<Rightarrow> int \<Rightarrow> header list \<Rightarrow> string" where
  "head_start now status headers =
     ''HTTP/1.1 '' @ to_string status @ '' '' @ reasonPhrase status @ crlf @ date_line now @
     concat (map (\<lambda>h. h_name h @ '': '' @ h_value h @ crlf) (caller_fields headers))"

definition uvBuildHead :: "nat \<Rightarrow> int \<Rightarrow> header list \<Rightarrow> int \<Rightarrow> bool \<Rightarrow> int \<Rightarrow> string" where
  "uvBuildHead now status headers contentLength keepAlive keepAliveSecs =
     head_start now status headers @
     (if bodyless status then [] else ''Content-Length: '' @ to_string contentLength @ crlf) @
     connection_lines keepAlive keepAliveSecs"

definition uvBuildStreamHead :: "nat \<Rightarrow> int \<Rightarrow> header list \<Rightarrow> bool \<Rightarrow> int \<Rightarrow> string" where
  "uvBuildStreamHead now status headers keepAlive keepAliveSecs =
     head_start now status headers @ ''Transfer-Encoding: chunked'' @ crlf @
     connection_lines keepAlive keepAliveSecs"

definition uvErrorResponse :: "nat \<Rightarrow> int \<Rightarrow> string \<Rightarrow> header list \<Rightarrow> string" where
  "uvErrorResponse now status msg extra =
     uvBuildHead now status (extra @ [hdr ''Content-Type'' ''text/plain'']) (int (length msg)) False 0 @ msg"

section \<open>Questions about a request head\<close>

definition icontains :: "string \<Rightarrow> string \<Rightarrow> bool" where
  "icontains s needle \<longleftrightarrow> find_sub needle (map lower s) \<noteq> None"

definition uvIsWebSocketUpgrade :: "ParsedHead \<Rightarrow> bool" where
  "uvIsWebSocketUpgrade head =
     (case (uvFindHeader (ph_headers head) ''upgrade'', uvFindHeader (ph_headers head) ''connection'') of
        (Some up, Some cn) \<Rightarrow> icontains (h_value up) ''websocket'' \<and> icontains (h_value cn) ''upgrade''
      | _ \<Rightarrow> False)"

text \<open>
  \<open>while (pos <= v.size())\<close> over the comma-separated list: the trimmed tokens, in order. The loops
  of \<open>uvClientWantsKeepAlive\<close> and \<open>uvFraming\<close> both walk a field value this way.
\<close>

function comma_tokens :: "string \<Rightarrow> nat \<Rightarrow> string list" where
  "comma_tokens v pos =
     (if pos \<le> length v then
        (let comma = (case find_from '','' v pos of None \<Rightarrow> length v | Some i \<Rightarrow> i)
         in uvTrim (substr v pos (comma - pos)) # comma_tokens v (comma + 1))
      else [])"
  by pat_completeness auto

termination
  by (relation "measure (\<lambda>(v, pos). length v + 1 - pos)") (auto dest: find_from_bounds split: option.splits)

declare comma_tokens.simps [simp del]

definition uvClientWantsKeepAlive :: "ParsedHead \<Rightarrow> bool" where
  "uvClientWantsKeepAlive head =
     (let http10 = (ph_version head = ''HTTP/1.0'')
      in case uvFindHeader (ph_headers head) ''connection'' of
           Some conn \<Rightarrow>
             (let toks = comma_tokens (h_value conn) 0;
                  close = list_ex (\<lambda>t. uvIequals t ''close'') toks;
                  keep = list_ex (\<lambda>t. \<not> uvIequals t ''close'' \<and> uvIequals t ''keep-alive'') toks
              in if close then False else if keep then True else \<not> http10)
         | None \<Rightarrow> \<not> http10)"

section \<open>The Date line is transparent and well formed\<close>

definition cache_ok :: "date_cache \<Rightarrow> bool" where
  "cache_ok dc \<longleftrightarrow> cached dc = [] \<or> cached dc = date_line (cachedSec dc)"

fun date_calls :: "nat list \<Rightarrow> date_cache \<Rightarrow> string list" where
  "date_calls [] dc = []"
| "date_calls (now # nows) dc = (case uvDateHeader now dc of (dc', s) \<Rightarrow> s # date_calls nows dc')"

lemma uvDateHeader_ok: "cache_ok dc \<Longrightarrow> snd (uvDateHeader now dc) = date_line now \<and> cache_ok (fst (uvDateHeader now dc))"
  by (auto simp: uvDateHeader_def cache_ok_def Let_def)

lemma date_calls_ok: "cache_ok dc \<Longrightarrow> date_calls nows dc = map date_line nows"
proof (induction nows arbitrary: dc)
  case (Cons now nows)
  then show ?case using uvDateHeader_ok [of dc now] by (auto split: prod.splits)
qed simp

lemma count_years_bound: "snd (count_years y d) < year_len (fst (count_years y d))"
  by (induction y d rule: count_years.induct) (subst (1 2) count_years.simps, simp)

lemma count_months_bound: "d < sum_list ls \<Longrightarrow> fst (count_months ls m d) < m + length ls"
  by (induction ls m d rule: count_months.induct) auto

lemma count_months_day:
  "d < sum_list ls \<Longrightarrow> (\<forall>l \<in> set ls. l \<le> 31) \<Longrightarrow> snd (count_months ls m d) < 31"
  by (induction ls m d rule: count_months.induct) auto

lemma sum_month_lens: "sum_list (month_lens y) = year_len y"
  by (simp add: month_lens_def year_len_def)

lemma gmtime_bounds:
  "tm_mon (gmtime now) < 12" "tm_wday (gmtime now) < 7" "tm_mday (gmtime now) \<le> 31"
  "tm_hour (gmtime now) < 24" "tm_min (gmtime now) < 60" "tm_sec (gmtime now) < 60"
proof -
  obtain y yd where yd: "count_years 1970 (now div 86400) = (y, yd)" by fastforce
  have d: "yd < sum_list (month_lens y)" using count_years_bound [of 1970 "now div 86400"] by (simp add: yd sum_month_lens)
  obtain m md where md: "count_months (month_lens y) 0 yd = (m, md)" by fastforce
  have "m < 12" using count_months_bound [OF d, of 0] by (simp add: md) (simp add: month_lens_def)
  moreover have "md < 31" using count_months_day [OF d, of 0] by (simp add: md) (simp add: month_lens_def)
  moreover have "gmtime now = \<lparr>tm_year = y, tm_mon = m, tm_mday = md + 1, tm_hour = now mod 86400 div 3600,
          tm_min = now mod 86400 div 60 mod 60, tm_sec = now mod 86400 mod 60, tm_wday = (now div 86400 + 4) mod 7\<rparr>"
    by (simp add: gmtime_def yd md Let_def)
  ultimately show "tm_mon (gmtime now) < 12" "tm_wday (gmtime now) < 7" "tm_mday (gmtime now) \<le> 31"
      "tm_hour (gmtime now) < 24" "tm_min (gmtime now) < 60" "tm_sec (gmtime now) < 60"
    by (auto intro: less_mult_imp_div_less [of _ 24 3600, simplified])
qed

definition plain :: "string \<Rightarrow> bool" where
  "plain s \<longleftrightarrow> CR \<notin> set s \<and> LF \<notin> set s"

lemma plain_append [simp]: "plain (a @ b) \<longleftrightarrow> plain a \<and> plain b"
  by (auto simp: plain_def)

lemma plain_Cons [simp]: "plain (c # s) \<longleftrightarrow> c \<noteq> CR \<and> c \<noteq> LF \<and> plain s"
  by (auto simp: plain_def)

lemma plain_Nil [simp]: "plain []"
  by (simp add: plain_def)

lemma digit_not_crlf: "d < 16 \<Longrightarrow> digit_char d \<noteq> CR \<and> digit_char d \<noteq> LF"
proof -
  assume "d < 16"
  then have "48 \<le> ord (digit_char d)" by (simp add: ord_digit_char)
  moreover have "ord CR = 13" "ord LF = 10" by (simp_all add: ord_def)
  ultimately show ?thesis by auto
qed

lemma plain_digits: "\<forall>d \<in> set ds. d < 16 \<Longrightarrow> plain (map digit_char ds)"
  by (induction ds) (auto simp: digit_not_crlf)

lemma plain_to_string_nat [simp]: "plain (to_string_nat n)"
  unfolding to_string_nat_def by (rule plain_digits) (use to_digits_less [of 10] in fastforce)

lemma plain_to_string [simp]: "plain (to_string i)"
  by (simp add: to_string_def)

lemma plain_two: "n < 100 \<Longrightarrow> plain (two n)"
  by (auto simp: two_def intro!: digit_not_crlf [THEN conjunct1] digit_not_crlf [THEN conjunct2])

lemma plain_nth: "list_all plain xs \<Longrightarrow> i < length xs \<Longrightarrow> plain (xs ! i)"
  by (simp add: list_all_length)

lemma plain_strftime: "plain (strftime_http (gmtime now))"
proof -
  have "list_all plain day_names" "list_all plain month_names" by (simp_all add: day_names_def month_names_def)
  moreover have "length day_names = 7" "length month_names = 12" by (simp_all add: day_names_def month_names_def)
  moreover note gmtime_bounds [of now]
  ultimately show ?thesis
    by (auto simp: strftime_http_def Let_def intro!: plain_two plain_nth)
qed

text \<open>
  The per-second cache of the Date line is invisible: whatever the sequence of clock readings a
  loop thread makes, starting from the empty cache, every call returns the line formatted from that
  call's own reading.
\<close>

theorem date_cache_transparent: "date_calls nows new_date_cache = map date_line nows"
  by (rule date_calls_ok) (simp add: cache_ok_def new_date_cache_def)

section \<open>The response head cannot be split\<close>

text \<open>How a peer reads a head: the lines between CRLF pairs.\<close>

function crlf_lines :: "string \<Rightarrow> string list" where
  "crlf_lines s = (case find_sub crlf s of None \<Rightarrow> [s] | Some i \<Rightarrow> take i s # crlf_lines (drop (i + 2) s))"
  by pat_completeness auto

termination
  by (relation "measure length") (auto dest: find_from_bounds)

declare crlf_lines.simps [simp del]

lemma crlf_lines_append: "CR \<notin> set l \<Longrightarrow> crlf_lines (l @ crlf @ r) = l # crlf_lines r"
  using find_crlf_append [of l "[]" r] by (subst crlf_lines.simps) simp

lemma crlf_lines_concat:
  "\<forall>l \<in> set ls. CR \<notin> set l \<Longrightarrow> crlf_lines (concat (map (\<lambda>l. l @ crlf) ls) @ r) = ls @ crlf_lines r"
  by (induction ls) (auto simp: crlf_lines_append [simplified])

lemma crlf_lines_Nil [simp]: "crlf_lines [] = [[]]"
  by (subst crlf_lines.simps) (simp add: find_from_def)

lemma tchar_plain: "tchar c \<Longrightarrow> c \<noteq> CR \<and> c \<noteq> LF"
  by (auto simp: tchar_def ord_def)

lemma caller_field_plain: "h \<in> set (caller_fields hs) \<Longrightarrow> plain (h_name h) \<and> plain (h_value h)"
proof -
  assume h: "h \<in> set (caller_fields hs)"
  have cl: "ord CR = 13" "ord LF = 10" "CR \<noteq> HT" "LF \<noteq> HT" by (simp_all add: ord_def)
  from h have "\<forall>c \<in> set (h_name h). tchar c" "\<forall>c \<in> set (h_value h). \<not> (ord c < 0x20 \<and> c \<noteq> HT)"
    by (simp_all add: caller_fields_def uvIsToken_def uvIsSafeValue_def list_all_iff)
  with cl show ?thesis unfolding plain_def using tchar_plain by force
qed

definition status_line :: "int \<Rightarrow> string" where
  "status_line status = ''HTTP/1.1 '' @ to_string status @ '' '' @ reasonPhrase status"

definition date_text :: "nat \<Rightarrow> string" where
  "date_text now = ''Date: '' @ strftime_http (gmtime now)"

definition start_lines :: "nat \<Rightarrow> int \<Rightarrow> header list \<Rightarrow> string list" where
  "start_lines now status headers = [status_line status, date_text now] @ map field_line (caller_fields headers)"

definition end_lines :: "bool \<Rightarrow> int \<Rightarrow> string list" where
  "end_lines keepAlive secs =
     (if keepAlive \<and> secs < 0 then [''Connection: keep-alive'']
      else if keepAlive then [''Connection: keep-alive'', ''Keep-Alive: timeout='' @ to_string secs]
      else [''Connection: close''])"

lemma start_lines_plain: "l \<in> set (start_lines now status headers) \<Longrightarrow> plain l"
  using reasonPhrase_no_crlf [of status] caller_field_plain plain_strftime [of now]
  by (auto simp: start_lines_def status_line_def date_text_def field_line_def) (simp add: plain_def)

lemma end_lines_plain: "l \<in> set (end_lines ka secs) \<Longrightarrow> plain l"
  by (auto simp: end_lines_def split: if_splits)

lemma head_start_lines: "head_start now status headers = concat (map (\<lambda>l. l @ crlf) (start_lines now status headers))"
  by (simp add: head_start_def start_lines_def status_line_def date_line_def date_text_def field_line_def comp_def)

lemma connection_lines_eq: "connection_lines ka secs = concat (map (\<lambda>l. l @ crlf) (end_lines ka secs)) @ crlf"
  by (simp add: connection_lines_def end_lines_def)

lemma head_lines:
  assumes "\<forall>l \<in> set ls. plain l"
  shows "crlf_lines (head_start now status headers @ concat (map (\<lambda>l. l @ crlf) ls) @ connection_lines ka secs @ body) =
    start_lines now status headers @ ls @ end_lines ka secs @ [] # crlf_lines body"
proof -
  let ?all = "start_lines now status headers @ ls @ end_lines ka secs @ [[]]"
  have "head_start now status headers @ concat (map (\<lambda>l. l @ crlf) ls) @ connection_lines ka secs @ body =
      concat (map (\<lambda>l. l @ crlf) ?all) @ body"
    by (simp add: head_start_lines connection_lines_eq)
  moreover have "\<forall>l \<in> set ?all. CR \<notin> set l"
    using assms start_lines_plain end_lines_plain by (fastforce simp: plain_def)
  ultimately show ?thesis using crlf_lines_concat [of ?all body] by (simp only: append_assoc append_Cons append_Nil)
qed

text \<open>
  C2: no handler input can split a response. Whatever status, headers, length and keep-alive setting
  the two builders are given, the head they produce, read line by line up to the first empty line,
  is exactly the status line, the Date line, the caller's fields that are tokens with safe values and
  not the engine's own, one framing line (a length unless the status is bodyless, or the chunked
  coding), and the connection lines; the bytes after the empty line are the body's; and no line has a
  bare CR or LF in it.
\<close>

theorem response_head_unsplittable:
  "crlf_lines (uvBuildHead now status headers len ka secs @ body) =
     start_lines now status headers @ (if bodyless status then [] else [''Content-Length: '' @ to_string len]) @
     end_lines ka secs @ [] # crlf_lines body \<and>
   crlf_lines (uvBuildStreamHead now status headers ka secs @ body) =
     start_lines now status headers @ [''Transfer-Encoding: chunked''] @ end_lines ka secs @ [] # crlf_lines body \<and>
   list_all plain (start_lines now status headers @ [''Content-Length: '' @ to_string len] @ end_lines ka secs) \<and>
   list_all (\<lambda>h. list_all (\<lambda>own. \<not> uvIequals (h_name h) own) owned_headers) (caller_fields headers)"
proof (intro conjI)
  show "crlf_lines (uvBuildHead now status headers len ka secs @ body) =
     start_lines now status headers @ (if bodyless status then [] else [''Content-Length: '' @ to_string len]) @
     end_lines ka secs @ [] # crlf_lines body"
    using head_lines [of "[]" now status headers ka secs body]
      head_lines [of "[''Content-Length: '' @ to_string len]" now status headers ka secs body]
    by (cases "bodyless status") (simp_all add: uvBuildHead_def)
  show "crlf_lines (uvBuildStreamHead now status headers ka secs @ body) =
     start_lines now status headers @ [''Transfer-Encoding: chunked''] @ end_lines ka secs @ [] # crlf_lines body"
    using head_lines [of "[''Transfer-Encoding: chunked'']" now status headers ka secs body]
    by (simp add: uvBuildStreamHead_def)
  show "list_all plain (start_lines now status headers @ [''Content-Length: '' @ to_string len] @ end_lines ka secs)"
    using start_lines_plain end_lines_plain by (auto simp: list_all_iff)
  show "list_all (\<lambda>h. list_all (\<lambda>own. \<not> uvIequals (h_name h) own) owned_headers) (caller_fields headers)"
    by (auto simp: caller_fields_def list_all_iff uvIsEngineOwnedHeader_def list_ex_iff split: if_splits)
qed

end
