(* ===== verification/HttpBody.thy ===== *)
theory HttpBody
  imports HttpHead
begin

text \<open>
  Message framing in \<open>src/engine/UvReactor.cpp\<close>: the request-smuggling checks of \<open>uvFraming\<close>, the
  chunk-size line, the chunked-body decoder, and the chunk \<open>sendStreamChunk\<close> writes. A buffer never
  holds \<open>2^63\<close> bytes, so sizes are \<open>nat\<close> and the signed quantities \<open>int\<close>.
\<close>

section \<open>Framing of a request\<close>

record framing_scan =
  fs_cl :: "string option"
  fs_te :: "string option"
  fs_hasHost :: bool
  fs_dupHost :: bool
  fs_dupCl :: bool
  fs_dupTe :: bool

definition empty_scan :: framing_scan where
  "empty_scan = \<lparr>fs_cl = None, fs_te = None, fs_hasHost = False, fs_dupHost = False, fs_dupCl = False, fs_dupTe = False\<rparr>"

text \<open>The loop over the header list; \<open>Inl\<close> is its early return.\<close>

fun scan_framing :: "header list \<Rightarrow> framing_scan \<Rightarrow> string + framing_scan" where
  "scan_framing [] s = Inr s"
| "scan_framing (h # hs) s =
     (if uvIequals (h_name h) ''content-length'' then
        (case fs_cl s of
           Some cl \<Rightarrow>
             if uvTrim cl \<noteq> uvTrim (h_value h) then Inl ''conflicting content-length''
             else scan_framing hs (s\<lparr>fs_dupCl := True, fs_cl := Some (h_value h)\<rparr>)
         | None \<Rightarrow> scan_framing hs (s\<lparr>fs_cl := Some (h_value h)\<rparr>))
      else if uvIequals (h_name h) ''transfer-encoding'' then
        scan_framing hs (s\<lparr>fs_dupTe := (if fs_te s \<noteq> None then True else fs_dupTe s), fs_te := Some (h_value h)\<rparr>)
      else if uvIequals (h_name h) ''host'' then
        scan_framing hs (s\<lparr>fs_dupHost := (fs_dupHost s \<or> fs_hasHost s), fs_hasHost := True\<rparr>)
      else scan_framing hs s)"

text \<open>The loop over the transfer codings; the result is an error or the number of codings.\<close>

fun scan_codings :: "string list \<Rightarrow> int \<Rightarrow> int \<Rightarrow> (int \<times> string) + int" where
  "scan_codings [] codings chunkedAt = Inr codings"
| "scan_codings (tok # toks) codings chunkedAt =
     (if tok = [] then scan_codings toks codings chunkedAt
      else if uvIequals tok ''chunked'' then
        (if chunkedAt \<ge> 0 then Inl (400, ''repeated chunked coding'')
         else scan_codings toks (codings + 1) (codings + 1))
      else Inl (501, ''unsupported transfer coding''))"

definition framing_te :: "ParsedHead \<Rightarrow> string option \<Rightarrow> (int \<times> string) + bool" where
  "framing_te head te =
     (case te of
        None \<Rightarrow> Inr False
      | Some v \<Rightarrow>
          if ph_version head = ''HTTP/1.0'' then Inl (400, ''transfer-encoding on http/1.0'')
          else case scan_codings (comma_tokens v 0) 0 (- 1) of
            Inl e \<Rightarrow> Inl e
          | Inr codings \<Rightarrow> if codings = 0 then Inl (400, ''empty transfer-encoding'') else Inr True)"

definition bad_cl :: "string \<Rightarrow> bool" where
  "bad_cl cl \<longleftrightarrow> cl = [] \<or> length cl > 18 \<or> \<not> list_all is_digit cl"

text \<open>The verdict (status, reason) with the \<open>chunked\<close> reference; status 0 is sound framing.\<close>

definition uvFraming :: "ParsedHead \<Rightarrow> (int \<times> string) \<times> bool" where
  "uvFraming head =
     (case scan_framing (ph_headers head) empty_scan of
        Inl e \<Rightarrow> ((400, e), False)
      | Inr s \<Rightarrow>
          if fs_dupCl s then ((400, ''duplicate content-length''), False)
          else if fs_dupTe s then ((400, ''duplicate transfer-encoding''), False)
          else if fs_cl s \<noteq> None \<and> fs_te s \<noteq> None then ((400, ''content-length with transfer-encoding''), False)
          else case framing_te head (fs_te s) of
            Inl e \<Rightarrow> (e, False)
          | Inr chunked \<Rightarrow>
              if (case fs_cl s of None \<Rightarrow> False | Some cl \<Rightarrow> bad_cl cl) then ((400, ''bad content-length''), chunked)
              else if ph_version head = ''HTTP/1.1'' \<and> \<not> fs_hasHost s then ((400, ''missing host header''), chunked)
              else if ph_version head = ''HTTP/1.1'' \<and> fs_dupHost s then ((400, ''duplicate host header''), chunked)
              else ((0, []), chunked))"

section \<open>Chunks\<close>

definition hex_digit :: "char \<Rightarrow> nat option" where
  "hex_digit ch =
     (if ord (CHR ''0'') \<le> ord ch \<and> ord ch \<le> ord (CHR ''9'') then Some (ord ch - ord (CHR ''0''))
      else if ord (CHR ''a'') \<le> ord ch \<and> ord ch \<le> ord (CHR ''f'') then Some (ord ch - ord (CHR ''a'') + 10)
      else if ord (CHR ''A'') \<le> ord ch \<and> ord ch \<le> ord (CHR ''F'') then Some (ord ch - ord (CHR ''A'') + 10)
      else None)"

text \<open>
  The digit loop over the bytes of the size line: the value, the number of digits and what is left;
  \<open>None\<close> is the return for a sixteenth digit. The value stays below \<open>2^60\<close>, so it is a \<open>nat\<close>.
\<close>

fun chunk_digits :: "string \<Rightarrow> nat \<Rightarrow> nat \<Rightarrow> (nat \<times> nat \<times> string) option" where
  "chunk_digits [] sz digits = Some (sz, digits, [])"
| "chunk_digits (ch # s) sz digits =
     (case hex_digit ch of
        None \<Rightarrow> Some (sz, digits, ch # s)
      | Some d \<Rightarrow> if digits + 1 > 15 then None else chunk_digits s (sz * 16 + d) (digits + 1))"

definition uvChunkSize :: "string \<Rightarrow> nat \<Rightarrow> nat \<Rightarrow> int" where
  "uvChunkSize buf pos eol =
     (case chunk_digits (substr buf pos (eol - pos)) 0 0 of
        None \<Rightarrow> - 1
      | Some (sz, digits, rest) \<Rightarrow>
          if digits = 0 then - 1
          else if rest \<noteq> [] \<and> hd rest \<noteq> CHR '';'' then - 1
          else if \<not> list_all (\<lambda>c. ord c \<ge> 0x20) rest then - 1
          else int sz)"

definition kMaxTrailerBytes :: nat where "kMaxTrailerBytes = 8 * 1024"
definition kMaxTrailerLines :: nat where "kMaxTrailerLines = 32"

text \<open>The return codes 1, 0, -1 and -2 of \<open>decodeChunked\<close>, with its out parameters.\<close>

datatype ChunkResult = ChunkDone string nat | ChunkMore | ChunkBad | ChunkOver

definition over_cap :: "string \<Rightarrow> nat \<Rightarrow> int \<Rightarrow> bool" where
  "over_cap buf start maxBody \<longleftrightarrow> int (length buf - start) > maxBody + 1024"

definition wait_more :: "string \<Rightarrow> nat \<Rightarrow> int \<Rightarrow> ChunkResult" where
  "wait_more buf start maxBody = (if over_cap buf start maxBody then ChunkOver else ChunkMore)"

function trailer_loop :: "string \<Rightarrow> nat \<Rightarrow> int \<Rightarrow> string \<Rightarrow> nat \<Rightarrow> nat \<Rightarrow> nat \<Rightarrow> ChunkResult" where
  "trailer_loop buf start maxBody out pos t lines =
     (case find_from crlf buf t of
        None \<Rightarrow> if length buf - pos > kMaxTrailerBytes then ChunkBad else wait_more buf start maxBody
      | Some e2 \<Rightarrow>
          if e2 = t then ChunkDone out (t + 2)
          else if lines + 1 > kMaxTrailerLines \<or> e2 - pos > kMaxTrailerBytes then ChunkBad
          else trailer_loop buf start maxBody out pos (e2 + 2) (lines + 1))"
  by pat_completeness auto

termination
  by (relation "measure (\<lambda>(buf, start, maxBody, out, pos, t, lines). length buf - t)")
    (auto dest: find_from_bounds)

declare trailer_loop.simps [simp del]

function chunk_loop :: "string \<Rightarrow> nat \<Rightarrow> int \<Rightarrow> nat \<Rightarrow> string \<Rightarrow> ChunkResult" where
  "chunk_loop buf start maxBody pos out =
     (case find_from crlf buf pos of
        None \<Rightarrow> wait_more buf start maxBody
      | Some eol \<Rightarrow>
          (let sz = uvChunkSize buf pos eol; p = eol + 2 in
           if sz < 0 then ChunkBad
           else if sz = 0 then trailer_loop buf start maxBody out p p 0
           else if int (length out) + sz > maxBody then ChunkOver
           else if length buf < p + nat sz + 2 then wait_more buf start maxBody
           else if buf ! (p + nat sz) \<noteq> CR \<or> buf ! (p + nat sz + 1) \<noteq> LF then ChunkBad
           else chunk_loop buf start maxBody (p + nat sz + 2) (out @ substr buf p (nat sz))))"
  by pat_completeness auto

termination
  by (relation "measure (\<lambda>(buf, start, maxBody, pos, out). length buf - pos)")
    (auto dest: find_from_bounds)

declare chunk_loop.simps [simp del]

definition decodeChunked :: "string \<Rightarrow> nat \<Rightarrow> int \<Rightarrow> ChunkResult" where
  "decodeChunked buf start maxBody = chunk_loop buf start maxBody start []"

text \<open>
  The bytes \<open>sendStreamChunk\<close> queues for one call: \<open>%zx\<close> CRLF data CRLF when there is data, and the
  terminal chunk on the last call.
\<close>

definition stream_chunk_bytes :: "string \<Rightarrow> bool \<Rightarrow> string" where
  "stream_chunk_bytes chunk isLast =
     (if length chunk > 0 then to_hex (length chunk) @ crlf @ chunk @ crlf else []) @
     (if isLast then ''0'' @ crlf @ crlf else [])"

section \<open>Chunked bodies round trip\<close>

lemma hex_digit_char: "d < 16 \<Longrightarrow> hex_digit (digit_char d) = Some d"
  by (auto simp: hex_digit_def ord_digit_char) (auto simp: ord_def)

lemma chunk_digits_map:
  "\<forall>d \<in> set ds. d < 16 \<Longrightarrow> k + length ds \<le> 15 \<Longrightarrow>
   chunk_digits (map digit_char ds) a k = Some (foldl (\<lambda>x d. x * 16 + d) a ds, k + length ds, [])"
  by (induction ds arbitrary: a k) (auto simp: hex_digit_char)

lemma chunk_digits_to_hex:
  "n < 16 ^ 15 \<Longrightarrow> chunk_digits (to_hex n) 0 0 = Some (n, length (to_hex n), [])"
proof -
  assume "n < 16 ^ 15"
  then have "length (to_digits 16 n) \<le> 15" by (intro length_to_digits) auto
  moreover have "\<forall>d \<in> set (to_digits 16 n). d < 16" using to_digits_less [of 16] by simp
  moreover have "foldl (\<lambda>x d. x * 16 + d) 0 (to_digits 16 n) = n"
    using from_to_digits [of 16 n] by (simp add: from_digits_def)
  ultimately show ?thesis using chunk_digits_map [of "to_digits 16 n" 0 0] by (simp add: to_hex_def)
qed

lemma uvChunkSize_hex:
  "n < 16 ^ 15 \<Longrightarrow> uvChunkSize (pre @ to_hex n @ crlf @ post) (length pre) (length pre + length (to_hex n)) = int n"
  using chunk_digits_to_hex [of n] substr_append [of pre "to_hex n" "crlf @ post"]
  by (simp add: uvChunkSize_def)

lemma to_hex_no_cr: "CR \<notin> set (to_hex n)"
proof -
  have "\<forall>d \<in> set (to_digits 16 n). d < 16" using to_digits_less [of 16] by simp
  then show ?thesis using plain_digits by (auto simp: to_hex_def plain_def)
qed

definition chunked_body :: "string list \<Rightarrow> string" where
  "chunked_body cs = concat (map (\<lambda>c. stream_chunk_bytes c False) cs) @ stream_chunk_bytes [] True"

lemma to_hex_0: "to_hex 0 = ''0''"
  by code_simp

lemma chunk_loop_step:
  assumes "find_from crlf buf pos = Some eol" "uvChunkSize buf pos eol = int n" "0 < n"
    "int (length out) + int n \<le> maxBody" "eol + 2 + n + 2 \<le> length buf"
    "buf ! (eol + 2 + n) = CR" "buf ! (eol + 2 + n + 1) = LF"
  shows "chunk_loop buf start maxBody pos out = chunk_loop buf start maxBody (eol + 2 + n + 2) (out @ substr buf (eol + 2) n)"
  using assms by (subst chunk_loop.simps) (simp add: Let_def)

lemma chunk_loop_terminal:
  assumes "find_from crlf buf pos = Some eol" "uvChunkSize buf pos eol = 0" "find_from crlf buf (eol + 2) = Some (eol + 2)"
  shows "chunk_loop buf start maxBody pos out = ChunkDone out (eol + 4)"
  using assms by (subst chunk_loop.simps) (simp add: Let_def trailer_loop.simps)

lemma chunk_loop_end:
  "chunk_loop (pre @ stream_chunk_bytes [] True @ rest) start maxBody (length pre) out =
     ChunkDone out (length pre + 5)"
proof -
  let ?b = "pre @ to_hex 0 @ crlf @ crlf @ rest"
  have b: "pre @ stream_chunk_bytes [] True @ rest = ?b" by (simp add: stream_chunk_bytes_def to_hex_0)
  have l: "length (to_hex 0) = 1" by (simp add: to_hex_0)
  have f: "find_from crlf ?b (length pre) = Some (length pre + 1)"
    using find_crlf_append [OF to_hex_no_cr, of pre 0 "crlf @ rest"] l by simp
  have s: "uvChunkSize ?b (length pre) (length pre + 1) = 0"
    using uvChunkSize_hex [of 0 pre "crlf @ rest"] l by simp
  have g: "find_from crlf ?b (length pre + 1 + 2) = Some (length pre + 1 + 2)"
    using find_crlf_append [of "[]" "pre @ to_hex 0 @ crlf" rest] l by (simp add: numeral_eq_Suc)
  show ?thesis unfolding b by (simp only: chunk_loop_terminal [OF f s g]) simp
qed

lemma chunk_loop_chunks:
  assumes "\<forall>c \<in> set cs. c \<noteq> []" "length (concat cs) < 16 ^ 15" "int (length out + length (concat cs)) \<le> maxBody"
  shows "chunk_loop (pre @ chunked_body cs @ rest) start maxBody (length pre) out =
     ChunkDone (out @ concat cs) (length pre + length (chunked_body cs))"
  using assms
proof (induction cs arbitrary: pre out)
  case Nil
  then show ?case using chunk_loop_end [of pre rest] by (simp add: chunked_body_def) (simp add: stream_chunk_bytes_def)
next
  case (Cons c cs)
  let ?n = "length c" and ?h = "to_hex (length c)"
  let ?tail = "chunked_body cs @ rest"
  let ?b = "pre @ ?h @ crlf @ c @ crlf @ ?tail"
  have n: "0 < ?n" "?n < 16 ^ 15" using Cons.prems by auto
  have b: "pre @ chunked_body (c # cs) @ rest = ?b" using n by (simp add: chunked_body_def stream_chunk_bytes_def)
  have f: "find_from crlf ?b (length pre) = Some (length pre + length ?h)"
    using find_crlf_append [OF to_hex_no_cr, of pre ?n "c @ crlf @ ?tail"] by simp
  have s: "uvChunkSize ?b (length pre) (length pre + length ?h) = int ?n"
    using uvChunkSize_hex [OF n(2), of pre "c @ crlf @ ?tail"] by simp
  have d: "substr ?b (length pre + length ?h + 2) ?n = c"
    using substr_append [of "pre @ ?h @ crlf" c "crlf @ ?tail"] by simp
  have nth: "?b ! (length pre + length ?h + 2 + ?n) = CR" "?b ! (length pre + length ?h + 2 + ?n + 1) = LF"
    by (simp_all add: nth_append)
  have IH: "chunk_loop ((pre @ ?h @ crlf @ c @ crlf) @ ?tail) start maxBody (length (pre @ ?h @ crlf @ c @ crlf)) (out @ c) =
      ChunkDone ((out @ c) @ concat cs) (length (pre @ ?h @ crlf @ c @ crlf) + length (chunked_body cs))"
    using Cons.prems by (intro Cons.IH) auto
  have len: "length pre + length ?h + 2 + ?n + 2 = length (pre @ ?h @ crlf @ c @ crlf)" by simp
  have step: "chunk_loop ?b start maxBody (length pre) out =
      chunk_loop ?b start maxBody (length pre + length ?h + 2 + ?n + 2) (out @ c)"
    using chunk_loop_step [OF f s n(1) _ _ nth, of out maxBody start] Cons.prems(3) unfolding d by simp
  have l: "length (chunked_body (c # cs)) = length ?h + 2 + ?n + 2 + length (chunked_body cs)"
    using n by (simp add: chunked_body_def stream_chunk_bytes_def)
  show ?case unfolding b step using IH unfolding len by (simp add: l)
qed

text \<open>
  C4: what the engine streams it can read back. For any non-empty chunks, the bytes of
  \<open>sendStreamChunk\<close> for each of them and for the closing call, at any offset of a buffer and followed
  by anything, are decoded by \<open>decodeChunked\<close> to the concatenation of the chunks, and the end offset
  is exactly the first byte after the terminal chunk, so the next pipelined message is found.
\<close>

theorem chunked_roundtrip:
  assumes "\<forall>c \<in> set cs. c \<noteq> []" "length (concat cs) < 16 ^ 15" "int (length (concat cs)) \<le> maxBody"
  shows "decodeChunked (pre @ concat (map (\<lambda>c. stream_chunk_bytes c False) cs) @ stream_chunk_bytes [] True @ rest)
      (length pre) maxBody =
    ChunkDone (concat cs) (length pre + length (concat (map (\<lambda>c. stream_chunk_bytes c False) cs) @ stream_chunk_bytes [] True))"
  using chunk_loop_chunks [OF assms(1,2), of "[]" maxBody pre rest "length pre"] assms(3)
  by (simp add: decodeChunked_def chunked_body_def)

theorem chunked_roundtrip_witness:
  "decodeChunked (''5'' @ crlf @ ''hello'' @ crlf @ ''0'' @ crlf @ crlf @ ''GET'') 0 100 = ChunkDone ''hello'' 15"
proof -
  have h: "to_hex (length ''hello'') = ''5''" by code_simp
  have p: "\<forall>c \<in> set [''hello'']. c \<noteq> []" "length (concat [''hello'']) < 16 ^ 15" "int (length (concat [''hello''])) \<le> 100"
    by simp_all
  have e: "concat (map (\<lambda>c. stream_chunk_bytes c False) [''hello'']) = ''5'' @ crlf @ ''hello'' @ crlf"
    unfolding list.map concat.simps stream_chunk_bytes_def h by simp
  have t: "stream_chunk_bytes [] True = ''0'' @ crlf @ crlf" by (simp add: stream_chunk_bytes_def)
  show ?thesis using chunked_roundtrip [OF p, of "[]" "''GET''"] unfolding e t by (simp add: eval_nat_numeral)
qed

section \<open>Arrival in pieces\<close>

lemma uvChunkSize_append: "eol \<le> length buf \<Longrightarrow> uvChunkSize (buf @ post) pos eol = uvChunkSize buf pos eol"
  by (simp add: uvChunkSize_def substr_def)

lemma trailer_loop_stable:
  "trailer_loop buf start maxBody out pos t lines = ChunkDone out' e \<Longrightarrow>
   t < e \<and> e \<le> length buf \<and> out' = out \<and> trailer_loop (buf @ post) start maxBody out pos t lines = ChunkDone out' e"
proof (induction buf start maxBody out pos t lines rule: trailer_loop.induct)
  case (1 buf start maxBody out pos t lines)
  show ?case
  proof (cases "find_from crlf buf t")
    case None
    then show ?thesis using "1.prems"
      by (subst (asm) trailer_loop.simps) (auto simp: wait_more_def split: if_splits)
  next
    case (Some e2)
    then show ?thesis
      using "1.IH" [OF Some] "1.prems" find_from_append [OF Some, of post] find_from_bounds [OF Some]
      by (subst trailer_loop.simps, subst (asm) trailer_loop.simps) (auto split: if_splits)
  qed
qed

lemma chunk_loop_stable:
  "chunk_loop buf start maxBody pos out = ChunkDone out' e \<Longrightarrow> int (length out) \<le> maxBody \<Longrightarrow>
   pos < e \<and> e \<le> length buf \<and> int (length out') \<le> maxBody \<and>
   chunk_loop (buf @ post) start maxBody pos out = ChunkDone out' e"
proof (induction buf start maxBody pos out rule: chunk_loop.induct)
  case (1 buf start maxBody pos out)
  show ?case
  proof (cases "find_from crlf buf pos")
    case None
    then show ?thesis using "1.prems"
      by (subst (asm) chunk_loop.simps) (auto simp: wait_more_def split: if_splits)
  next
    case (Some eol)
    note b = find_from_bounds [OF Some] and fa = find_from_append [OF Some, of post]
    define sz where "sz = uvChunkSize buf pos eol"
    have sza: "uvChunkSize (buf @ post) pos eol = sz" using b by (simp add: uvChunkSize_append sz_def)
    show ?thesis
    proof (cases "sz = 0")
      case True
      then have "trailer_loop buf start maxBody out (eol + 2) (eol + 2) 0 = ChunkDone out' e"
        using "1.prems"(1) Some by (subst (asm) chunk_loop.simps) (simp add: sz_def)
      from trailer_loop_stable [OF this, of post] show ?thesis using True fa sza b "1.prems"(2)
        by (subst chunk_loop.simps) (simp add: Let_def)
    next
      case False
      with "1.prems"(1) Some have c: "0 < sz" "int (length out) + sz \<le> maxBody" "eol + 2 + nat sz + 2 \<le> length buf"
          "buf ! (eol + 2 + nat sz) = CR" "buf ! (eol + 2 + nat sz + 1) = LF"
          and rec: "chunk_loop buf start maxBody (eol + 2 + nat sz + 2) (out @ substr buf (eol + 2) (nat sz)) = ChunkDone out' e"
        by (subst (asm) chunk_loop.simps, auto simp: Let_def sz_def wait_more_def split: if_splits)+
      have sub: "substr (buf @ post) (eol + 2) (nat sz) = substr buf (eol + 2) (nat sz)"
        using c(3) by (simp add: substr_def)
      have "int (length (out @ substr buf (eol + 2) (nat sz))) \<le> maxBody" using c by (simp add: length_substr)
      with "1.IH" [OF Some refl refl] c rec False
      have IH: "eol + 2 + nat sz + 2 < e \<and> e \<le> length buf \<and> int (length out') \<le> maxBody \<and>
          chunk_loop (buf @ post) start maxBody (eol + 2 + nat sz + 2) (out @ substr buf (eol + 2) (nat sz)) = ChunkDone out' e"
        by (simp add: sz_def [symmetric])
      moreover have "chunk_loop (buf @ post) start maxBody pos out =
          chunk_loop (buf @ post) start maxBody (eol + 2 + nat sz + 2) (out @ substr (buf @ post) (eol + 2) (nat sz))"
        using c sza by (intro chunk_loop_step [OF fa]) (auto simp: nth_append)
      ultimately show ?thesis using b unfolding sub by simp
    qed
  qed
qed

lemma trailer_loop_more: "trailer_loop buf start maxBody out pos t lines = ChunkMore \<Longrightarrow> \<not> over_cap buf start maxBody"
proof (induction buf start maxBody out pos t lines rule: trailer_loop.induct)
  case (1 buf start maxBody out pos t lines)
  then show ?case
    by (subst (asm) (2) trailer_loop.simps) (auto simp: wait_more_def split: option.splits if_splits)
qed

lemma chunk_loop_more: "chunk_loop buf start maxBody pos out = ChunkMore \<Longrightarrow> \<not> over_cap buf start maxBody"
proof (induction buf start maxBody pos out rule: chunk_loop.induct)
  case (1 buf start maxBody pos out)
  from "1.prems" show ?case
    using "1.IH" trailer_loop_more
    by (subst (asm) chunk_loop.simps) (auto simp: wait_more_def Let_def split: option.splits if_splits)
qed

text \<open>
  C7: a chunked body decodes the same however it arrives. Once \<open>decodeChunked\<close> reports a complete
  body, the body is within the cap, the end offset is past the start and inside the buffer, and any
  bytes that arrive later leave both unchanged: a message boundary never depends on how the network
  cut the stream. While it asks for more bytes, at most the cap and 1024 bytes are buffered.
\<close>

theorem decodeChunked_stable:
  assumes "0 \<le> maxBody"
  shows "case decodeChunked buf start maxBody of
      ChunkDone out e \<Rightarrow> start < e \<and> e \<le> length buf \<and> int (length out) \<le> maxBody \<and>
        decodeChunked (buf @ post) start maxBody = ChunkDone out e
    | ChunkMore \<Rightarrow> int (length buf - start) \<le> maxBody + 1024
    | _ \<Rightarrow> True"
  using chunk_loop_stable [of buf start maxBody start "[]" _ _ post] chunk_loop_more [of buf start maxBody start "[]"] assms
  by (auto simp: decodeChunked_def over_cap_def split: ChunkResult.splits)

theorem decodeChunked_stable_witness:
  "decodeChunked (''1'' @ crlf @ ''x'' @ crlf @ ''0'' @ crlf @ crlf) 0 10 = ChunkDone ''x'' 11 \<and>
   decodeChunked ((''1'' @ crlf @ ''x'' @ crlf @ ''0'' @ crlf @ crlf) @ ''GET'') 0 10 = ChunkDone ''x'' 11"
proof -
  have "decodeChunked (''1'' @ crlf @ ''x'' @ crlf @ ''0'' @ crlf @ crlf) 0 10 = ChunkDone ''x'' 11" by code_simp
  then show ?thesis
    using decodeChunked_stable [where maxBody = 10 and start = 0 and post = "''GET''"
      and buf = "''1'' @ crlf @ ''x'' @ crlf @ ''0'' @ crlf @ crlf"] by simp
qed

section \<open>Sound framing\<close>

definition values_of :: "string \<Rightarrow> header list \<Rightarrow> string list" where
  "values_of name hs = map h_value (filter (\<lambda>h. uvIequals (h_name h) name) hs)"

text \<open>
  What a sound head looks like: at most one of Content-Length and Transfer-Encoding, each at most
  once; the length one to eighteen digits; the only coding \<open>chunked\<close>, and not on HTTP/1.0; exactly one
  Host on HTTP/1.1.
\<close>

definition sound_framing :: "ParsedHead \<Rightarrow> bool" where
  "sound_framing head \<longleftrightarrow>
     (let cl = values_of ''content-length'' (ph_headers head); te = values_of ''transfer-encoding'' (ph_headers head) in
      length cl + length te \<le> 1 \<and> list_all (\<lambda>v. \<not> bad_cl v) cl \<and>
      list_all (\<lambda>v. ph_version head \<noteq> ''HTTP/1.0'' \<and>
        (\<exists>t. filter (\<lambda>t. t \<noteq> []) (comma_tokens v 0) = [t] \<and> uvIequals t ''chunked'')) te \<and>
      (ph_version head = ''HTTP/1.1'' \<longrightarrow> length (values_of ''host'' (ph_headers head)) = 1))"

lemma uvIequals_distinct_names:
  "uvIequals n ''content-length'' \<Longrightarrow> \<not> uvIequals n ''transfer-encoding'' \<and> \<not> uvIequals n ''host''"
  "uvIequals n ''transfer-encoding'' \<Longrightarrow> \<not> uvIequals n ''host''"
  by (auto simp: uvIequals_def dest!: list_all2_lengthD)

definition scan_ok :: "header list \<Rightarrow> framing_scan \<Rightarrow> framing_scan \<Rightarrow> bool" where
  "scan_ok hs s s' \<longleftrightarrow>
     (let cl = values_of ''content-length'' hs; te = values_of ''transfer-encoding'' hs; ho = values_of ''host'' hs in
      fs_cl s' = (if cl = [] then fs_cl s else Some (last cl)) \<and>
      fs_te s' = (if te = [] then fs_te s else Some (last te)) \<and>
      fs_dupCl s' = (fs_dupCl s \<or> length cl + (if fs_cl s = None then 0 else 1) > 1 \<and> cl \<noteq> []) \<and>
      fs_dupTe s' = (fs_dupTe s \<or> length te + (if fs_te s = None then 0 else 1) > 1 \<and> te \<noteq> []) \<and>
      fs_hasHost s' = (fs_hasHost s \<or> ho \<noteq> []) \<and>
      fs_dupHost s' = (fs_dupHost s \<or> length ho + (if fs_hasHost s then 1 else 0) > 1 \<and> ho \<noteq> []))"

lemma scan_framing_ok: "scan_framing hs s = Inr s' \<Longrightarrow> scan_ok hs s s'"
proof (induction hs s rule: scan_framing.induct)
  case (1 s)
  then show ?case by (simp add: scan_ok_def values_of_def)
next
  case (2 h hs s)
  show ?case
  proof (cases "uvIequals (h_name h) ''content-length''")
    case True
    then show ?thesis using 2 uvIequals_distinct_names(1) [OF True]
      by (auto simp: scan_ok_def values_of_def Let_def split: if_splits option.splits)
  next
    case cl: False
    show ?thesis
    proof (cases "uvIequals (h_name h) ''transfer-encoding''")
      case True
      then show ?thesis using "2.IH"(3) [OF cl True] "2.prems" cl uvIequals_distinct_names(2) [OF True]
        by (auto simp: scan_ok_def values_of_def Let_def split: if_splits)
    next
      case te: False
      show ?thesis
      proof (cases "uvIequals (h_name h) ''host''")
        case True
        then show ?thesis using "2.IH"(4) [OF cl te True] "2.prems" cl te
          by (auto simp: scan_ok_def values_of_def Let_def split: if_splits)
      next
        case False
        then show ?thesis using "2.IH"(5) [OF cl te False] "2.prems" cl te
          by (auto simp: scan_ok_def values_of_def Let_def)
      qed
    qed
  qed
qed

lemma scan_framing_Inl:
  "scan_framing hs s = Inl e \<Longrightarrow> length (values_of ''content-length'' hs) + (if fs_cl s = None then 0 else 1) \<ge> 2"
proof (induction hs s rule: scan_framing.induct)
  case (2 h hs s)
  show ?case
  proof (cases "uvIequals (h_name h) ''content-length''")
    case True
    then show ?thesis using 2 by (auto simp: values_of_def split: if_splits option.splits)
  next
    case cl: False
    show ?thesis
    proof (cases "uvIequals (h_name h) ''transfer-encoding''")
      case True
      then show ?thesis using "2.IH"(3) [OF cl True] "2.prems" cl by (simp add: values_of_def)
    next
      case te: False
      then show ?thesis using "2.IH"(4,5) [OF cl te] "2.prems" cl
        by (cases "uvIequals (h_name h) ''host''") (simp_all add: values_of_def)
    qed
  qed
qed simp

lemma scan_codings_seen:
  "chunkedAt \<ge> 0 \<Longrightarrow> (\<exists>n. scan_codings toks c chunkedAt = Inr n) \<longleftrightarrow> filter (\<lambda>t. t \<noteq> []) toks = []"
  by (induction toks c chunkedAt rule: scan_codings.induct) auto

lemma scan_codings_Inr:
  "scan_codings toks c chunkedAt = Inr n \<Longrightarrow> n = c + int (length (filter (\<lambda>t. t \<noteq> []) toks))"
  by (induction toks c chunkedAt rule: scan_codings.induct) (auto split: if_splits)

lemma scan_codings_one:
  "0 \<le> c \<Longrightarrow> (\<exists>n. scan_codings toks c (-1) = Inr n \<and> n \<noteq> c) \<longleftrightarrow>
   (\<exists>t. filter (\<lambda>t. t \<noteq> []) toks = [t] \<and> uvIequals t ''chunked'')"
proof (induction toks)
  case (Cons t toks)
  show ?case
  proof (cases "t = [] \<or> \<not> uvIequals t ''chunked''")
    case True
    then show ?thesis using Cons by auto
  next
    case False
    then show ?thesis using scan_codings_seen [of "c + 1" toks "c + 1"] scan_codings_Inr [of toks "c + 1" "c + 1"] Cons.prems
      by auto
  qed
qed simp

lemma scan_codings_error: "scan_codings toks c at = Inl e \<Longrightarrow> fst e \<in> {400, 501}"
  by (induction toks c at rule: scan_codings.induct) (auto split: if_splits)

lemma framing_te_ok:
  "framing_te head te = Inr ch \<longleftrightarrow>
   (case te of None \<Rightarrow> \<not> ch | Some v \<Rightarrow> ch \<and> ph_version head \<noteq> ''HTTP/1.0'' \<and>
      (\<exists>t. filter (\<lambda>t. t \<noteq> []) (comma_tokens v 0) = [t] \<and> uvIequals t ''chunked''))"
proof (cases te)
  case (Some v)
  then show ?thesis using scan_codings_one [of 0 "comma_tokens v 0"]
    by (auto simp: framing_te_def split: sum.splits)
qed (simp add: framing_te_def)

lemma framing_te_error: "framing_te head te = Inl e \<Longrightarrow> fst e \<in> {400, 501}"
  by (auto simp: framing_te_def dest: scan_codings_error split: option.splits sum.splits if_splits)

lemma values_singleton: "length (xs :: 'a list) \<le> 1 \<Longrightarrow> xs = [] \<or> xs = [last xs]"
  by (cases xs) auto

lemma scan_result:
  assumes "scan_framing hs empty_scan = Inr s"
  shows "fs_cl s = (if values_of ''content-length'' hs = [] then None else Some (last (values_of ''content-length'' hs)))"
    "fs_te s = (if values_of ''transfer-encoding'' hs = [] then None else Some (last (values_of ''transfer-encoding'' hs)))"
    "fs_dupCl s = (length (values_of ''content-length'' hs) > 1)"
    "fs_dupTe s = (length (values_of ''transfer-encoding'' hs) > 1)"
    "fs_hasHost s = (values_of ''host'' hs \<noteq> [])" "fs_dupHost s = (length (values_of ''host'' hs) > 1)"
  using scan_framing_ok [OF assms] unfolding scan_ok_def empty_scan_def Let_def by auto

lemma list_all_single: "xs = [] \<or> xs = [last xs] \<Longrightarrow> list_all P xs \<longleftrightarrow> (xs = [] \<or> P (last xs))"
  by (cases xs) auto

lemma uvFraming_clean:
  assumes "scan_framing (ph_headers head) empty_scan = Inr s"
    and "\<not> fs_dupCl s" "\<not> fs_dupTe s" "\<not> (fs_cl s \<noteq> None \<and> fs_te s \<noteq> None)"
  shows "fst (fst (uvFraming head)) = 0 \<longleftrightarrow>
    (\<exists>ch. framing_te head (fs_te s) = Inr ch) \<and> \<not> (case fs_cl s of None \<Rightarrow> False | Some cl \<Rightarrow> bad_cl cl) \<and>
    (ph_version head = ''HTTP/1.1'' \<longrightarrow> fs_hasHost s \<and> \<not> fs_dupHost s)"
proof (cases "framing_te head (fs_te s)")
  case (Inl e)
  then show ?thesis using assms framing_te_error [OF Inl] by (auto simp: uvFraming_def)
next
  case (Inr ch)
  then show ?thesis using assms by (auto simp: uvFraming_def)
qed

lemma uvFraming_scan:
  assumes s: "scan_framing (ph_headers head) empty_scan = Inr s"
  shows "fst (fst (uvFraming head)) = 0 \<longleftrightarrow> sound_framing head"
proof -
  let ?cl = "values_of ''content-length'' (ph_headers head)" and ?te = "values_of ''transfer-encoding'' (ph_headers head)"
    and ?ho = "values_of ''host'' (ph_headers head)"
  note sc = scan_result [OF s]
  have one: "length ?ho = 1 \<longleftrightarrow> ?ho \<noteq> [] \<and> \<not> length ?ho > 1" by (cases ?ho) auto
  show ?thesis
  proof (cases "length ?cl + length ?te \<le> 1")
    case False
    then have "fs_dupCl s \<or> fs_dupTe s \<or> (fs_cl s \<noteq> None \<and> fs_te s \<noteq> None)"
      unfolding sc by (cases ?cl; cases ?te) auto
    then show ?thesis using False s by (auto simp: uvFraming_def sound_framing_def Let_def)
  next
    case True
    then have nd: "\<not> fs_dupCl s" "\<not> fs_dupTe s" "\<not> (fs_cl s \<noteq> None \<and> fs_te s \<noteq> None)"
      unfolding sc by (cases ?cl; cases ?te; auto)+
    have cl: "?cl = [] \<or> ?cl = [last ?cl]" and te: "?te = [] \<or> ?te = [last ?te]"
      using True values_singleton [of ?cl] values_singleton [of ?te] by linarith+
    have bt: "(\<exists>ch. framing_te head (fs_te s) = Inr ch) \<longleftrightarrow> list_all (\<lambda>v. ph_version head \<noteq> ''HTTP/1.0'' \<and>
        (\<exists>t. filter (\<lambda>t. t \<noteq> []) (comma_tokens v 0) = [t] \<and> uvIequals t ''chunked'')) ?te"
      unfolding list_all_single [OF te] framing_te_ok sc by auto
    have bc: "\<not> (case fs_cl s of None \<Rightarrow> False | Some cl \<Rightarrow> bad_cl cl) \<longleftrightarrow> list_all (\<lambda>v. \<not> bad_cl v) ?cl"
      unfolding list_all_single [OF cl] sc by auto
    show ?thesis
      unfolding uvFraming_clean [OF s nd] bt bc sound_framing_def Let_def sc(5,6) one using True by blast
  qed
qed

lemma uvFraming_chunked:
  assumes "scan_framing (ph_headers head) empty_scan = Inr s" "fst (fst (uvFraming head)) = 0"
  shows "snd (uvFraming head) = (values_of ''transfer-encoding'' (ph_headers head) \<noteq> [])"
proof (cases "framing_te head (fs_te s)")
  case (Inl e)
  then show ?thesis using assms framing_te_error [OF Inl] by (auto simp: uvFraming_def split: if_splits)
next
  case (Inr ch)
  then have "ch = (fs_te s \<noteq> None)" by (auto simp: framing_te_ok split: option.splits)
  then show ?thesis using assms Inr scan_result(2) [OF assms(1)] by (auto simp: uvFraming_def split: if_splits)
qed

text \<open>
  C1: the request-smuggling defence is exact. \<open>uvFraming\<close> accepts a head exactly when its framing is
  unambiguous: at most one Content-Length or Transfer-Encoding field in all, the length one to
  eighteen digits (so that it fits 63 bits), the only coding \<open>chunked\<close> and not on HTTP/1.0, and one Host
  on HTTP/1.1. On acceptance \<open>chunked\<close> tells whether the body is chunked; every refusal is answered 400
  or 501.
\<close>

theorem uvFraming_exact:
  "(fst (fst (uvFraming head)) = 0 \<longleftrightarrow> sound_framing head) \<and>
   fst (fst (uvFraming head)) \<in> {0, 400, 501} \<and>
   (if sound_framing head then snd (uvFraming head) = (values_of ''transfer-encoding'' (ph_headers head) \<noteq> []) else True)"
proof (cases "scan_framing (ph_headers head) empty_scan")
  case (Inl e)
  have "\<not> sound_framing head"
    using scan_framing_Inl [OF Inl] by (simp add: sound_framing_def Let_def empty_scan_def)
  then show ?thesis using Inl by (simp add: uvFraming_def)
next
  case (Inr s)
  have "fst (fst (uvFraming head)) \<in> {0, 400, 501}"
    using Inr framing_te_error by (auto simp: uvFraming_def split: sum.splits)
  then show ?thesis using uvFraming_scan [OF Inr] uvFraming_chunked [OF Inr] by auto
qed

lemma content_length_bound: "\<not> bad_cl v \<Longrightarrow> dec_val v < 10 ^ 18"
proof -
  assume v: "\<not> bad_cl v"
  then have "dec_val v < 10 ^ length v" by (intro dec_val_less) (simp add: bad_cl_def list_all_iff)
  also have "\<dots> \<le> 10 ^ 18" using v by (intro power_increasing) (auto simp: bad_cl_def)
  finally show ?thesis .
qed

end
