(* ===== verification/PendingTable.thy ===== *)
theory PendingTable
  imports Common "HOL-Library.AList" "HOL-Library.Multiset"
begin

text \<open>
  \<open>src/engine/PendingTable.h\<close>: the sharded registry of in-flight requests and the malloc-owned body
  payloads that cross to Dart. Every operation holds one shard's mutex, so it is one atomic step;
  \<open>abortAll\<close>, \<open>size\<close> and \<open>payloadLogCountForTesting\<close> lock the shards one after the other and are the
  sequence of their per-shard steps. A \<open>shared_ptr\<close> is the index of its object in \<open>objs\<close>, a payload
  pointer is the number of its allocation, and \<open>std::free\<close> appends to the log \<open>freed\<close>.
\<close>

section \<open>State\<close>

record PendingRequest =
  pr_answered :: bool
  pr_timedOut :: bool
  pr_workerOwned :: bool
  pr_status :: int
  pr_headers :: "header list"
  pr_body :: string
  pr_fd :: int
  pr_wakeFd :: int
  pr_isHead :: bool
  pr_keepAlive :: bool
  pr_keepAliveSecs :: int
  pr_writing :: bool
  pr_flushing :: bool
  pr_workerWaiting :: bool
  pr_tail :: string
  pr_done :: bool
  pr_failed :: bool
  pr_doneAt :: nat
  pr_fileFd :: int
  pr_fileOffset :: int
  pr_fileRemaining :: int
  pr_streamStarted :: bool
  pr_streamDone :: bool
  pr_streamDead :: bool

definition new_request :: PendingRequest where
  "new_request = \<lparr>pr_answered = False, pr_timedOut = False, pr_workerOwned = False, pr_status = 500,
     pr_headers = [], pr_body = [], pr_fd = -1, pr_wakeFd = -1, pr_isHead = False, pr_keepAlive = False,
     pr_keepAliveSecs = 0, pr_writing = False, pr_flushing = False, pr_workerWaiting = False, pr_tail = [],
     pr_done = False, pr_failed = False, pr_doneAt = 0, pr_fileFd = -1, pr_fileOffset = 0,
     pr_fileRemaining = 0, pr_streamStarted = False, pr_streamDone = False, pr_streamDead = False\<rparr>"

record PayloadLog =
  pl_payloads :: "(int \<times> nat) list"
  pl_nextSeq :: int
  pl_acked :: int
  pl_orphaned :: bool

definition new_log :: PayloadLog where
  "new_log = \<lparr>pl_payloads = [], pl_nextSeq = 0, pl_acked = 0, pl_orphaned = False\<rparr>"

record Shard =
  sh_table :: "(int \<times> nat) list"
  sh_payloads :: "(int \<times> PayloadLog) list"

record PendingTable =
  shards :: "nat \<Rightarrow> Shard"
  objs :: "PendingRequest list"
  freed :: "nat list"

definition kShardBits :: nat where "kShardBits = 4"
definition kShardCount :: nat where "kShardCount = 2 ^ kShardBits"

definition new_table :: PendingTable where
  "new_table = \<lparr>shards = (\<lambda>i. \<lparr>sh_table = [], sh_payloads = []\<rparr>), objs = [], freed = []\<rparr>"

text \<open>\<open>static_cast<uint64_t>(id) & (kShardCount - 1)\<close>.\<close>

definition shard_of :: "int \<Rightarrow> nat" where
  "shard_of reqId = unat ((word_of_int reqId :: u64) AND (word_of_nat kShardCount - 1))"

definition upd_shard :: "int \<Rightarrow> (Shard \<Rightarrow> Shard) \<Rightarrow> PendingTable \<Rightarrow> PendingTable" where
  "upd_shard reqId f t = t\<lparr>shards := (shards t)(shard_of reqId := f (shards t (shard_of reqId)))\<rparr>"

section \<open>Stores\<close>

definition entry_of :: "PendingTable \<Rightarrow> int \<Rightarrow> nat option" where
  "entry_of t reqId = map_of (sh_table (shards t (shard_of reqId))) reqId"

definition put_entry :: "int \<Rightarrow> nat \<Rightarrow> PendingTable \<Rightarrow> PendingTable" where
  "put_entry reqId a = upd_shard reqId (\<lambda>s. s\<lparr>sh_table := AList.update reqId a (sh_table s)\<rparr>)"

definition del_entry :: "int \<Rightarrow> PendingTable \<Rightarrow> PendingTable" where
  "del_entry reqId = upd_shard reqId (\<lambda>s. s\<lparr>sh_table := AList.delete reqId (sh_table s)\<rparr>)"

definition log_of :: "PendingTable \<Rightarrow> int \<Rightarrow> PayloadLog option" where
  "log_of t reqId = map_of (sh_payloads (shards t (shard_of reqId))) reqId"

definition put_log :: "int \<Rightarrow> PayloadLog \<Rightarrow> PendingTable \<Rightarrow> PendingTable" where
  "put_log reqId l = upd_shard reqId (\<lambda>s. s\<lparr>sh_payloads := AList.update reqId l (sh_payloads s)\<rparr>)"

definition del_log :: "int \<Rightarrow> PendingTable \<Rightarrow> PendingTable" where
  "del_log reqId = upd_shard reqId (\<lambda>s. s\<lparr>sh_payloads := AList.delete reqId (sh_payloads s)\<rparr>)"

definition free_all :: "nat list \<Rightarrow> PendingTable \<Rightarrow> PendingTable" where
  "free_all ps t = t\<lparr>freed := freed t @ ps\<rparr>"

section \<open>Operations\<close>

definition create :: "int \<Rightarrow> PendingTable \<Rightarrow> PendingTable \<times> nat" where
  "create reqId t = (let a = length (objs t) in (put_entry reqId a (t\<lparr>objs := objs t @ [new_request]\<rparr>), a))"

definition find_request :: "int \<Rightarrow> PendingTable \<Rightarrow> nat option" where
  "find_request reqId t = entry_of t reqId"

definition erase :: "int \<Rightarrow> PendingTable \<Rightarrow> PendingTable" where
  "erase reqId t =
     (let t1 = del_entry reqId t in
      case log_of t1 reqId of
        None \<Rightarrow> t1
      | Some l \<Rightarrow>
          let l' = l\<lparr>pl_orphaned := True\<rparr> in
          if pl_acked l' = pl_nextSeq l' then del_log reqId (free_all (map snd (pl_payloads l')) t1)
          else put_log reqId l' t1)"

definition dropPayloads :: "int \<Rightarrow> PendingTable \<Rightarrow> PendingTable" where
  "dropPayloads reqId t =
     (case log_of t reqId of
        None \<Rightarrow> t
      | Some l \<Rightarrow> del_log reqId (free_all (map snd (pl_payloads l)) t))"

definition trackPayload :: "int \<Rightarrow> nat \<Rightarrow> PendingTable \<Rightarrow> PendingTable \<times> int" where
  "trackPayload reqId ptr t =
     (let l = (case log_of t reqId of None \<Rightarrow> new_log | Some l \<Rightarrow> l); sq = pl_nextSeq l
      in (put_log reqId (l\<lparr>pl_nextSeq := sq + 1, pl_payloads := pl_payloads l @ [(sq, ptr)]\<rparr>) t, sq))"

definition ack :: "int \<Rightarrow> int \<Rightarrow> PendingTable \<Rightarrow> PendingTable" where
  "ack reqId ackedUpTo t =
     (case log_of t reqId of
        None \<Rightarrow> t
      | Some l \<Rightarrow>
          if ackedUpTo \<le> pl_acked l then t
          else let gone = filter (\<lambda>(sq, p). sq < ackedUpTo) (pl_payloads l);
                   l' = l\<lparr>pl_acked := ackedUpTo, pl_payloads := filter (\<lambda>(sq, p). \<not> sq < ackedUpTo) (pl_payloads l)\<rparr>;
                   t' = free_all (map snd gone) t
               in if pl_orphaned l' \<and> pl_acked l' = pl_nextSeq l' then del_log reqId t'
                  else put_log reqId l' t')"

definition abort_request :: "PendingRequest \<Rightarrow> PendingRequest" where
  "abort_request req =
     (if \<not> pr_answered req then
        req\<lparr>pr_answered := True, pr_workerOwned := True, pr_status := 503,
            pr_headers := [hdr ''Content-Type'' ''text/plain''], pr_body := ''server stopped''\<rparr>
      else if pr_streamStarted req \<and> \<not> pr_streamDone req \<and> \<not> pr_streamDead req then req\<lparr>pr_streamDead := True\<rparr>
      else req)"

text \<open>The body of the loop of \<open>abortAll\<close>, for one shard under its mutex.\<close>

definition abort_shard :: "nat \<Rightarrow> PendingTable \<Rightarrow> PendingTable" where
  "abort_shard i t =
     (let s = shards t i;
          os = fold (\<lambda>(k, a) os. if a < length os then os[a := abort_request (os ! a)] else os) (sh_table s) (objs t)
      in free_all (concat (map (\<lambda>(k, l). map snd (pl_payloads l)) (sh_payloads s)))
           (t\<lparr>objs := os, shards := (shards t)(i := \<lparr>sh_table = [], sh_payloads = []\<rparr>)\<rparr>))"

definition abortAll :: "PendingTable \<Rightarrow> PendingTable" where
  "abortAll t = fold abort_shard [0..<kShardCount] t"

definition table_size :: "PendingTable \<Rightarrow> nat" where
  "table_size t = sum_list (map (\<lambda>i. length (sh_table (shards t i))) [0..<kShardCount])"

definition payloadLogCountForTesting :: "PendingTable \<Rightarrow> nat" where
  "payloadLogCountForTesting t = sum_list (map (\<lambda>i. length (sh_payloads (shards t i))) [0..<kShardCount])"

definition pendingPayloadsForTesting :: "int \<Rightarrow> PendingTable \<Rightarrow> nat" where
  "pendingPayloadsForTesting reqId t = (case log_of t reqId of None \<Rightarrow> 0 | Some l \<Rightarrow> length (pl_payloads l))"

section \<open>Both stores keep the laws of a keyed store\<close>

lemma shard_of_mod: "shard_of i = nat (i mod 16)"
proof -
  have m: "(word_of_nat kShardCount - 1 :: u64) = mask 4" by (simp add: kShardCount_def kShardBits_def mask_eq_exp_minus_1)
  have "unat (word_of_int i :: u64) mod 16 = nat (i mod 16)"
  proof -
    have "int (unat (word_of_int i :: u64)) = i mod 2 ^ 64" by (simp add: unat_eq_nat_uint uint_word_of_int)
    then have "int (unat (word_of_int i :: u64) mod 16) = i mod 2 ^ 64 mod 16" by (simp add: zmod_int)
    also have "\<dots> = i mod 16" by (rule mod_mod_cancel) simp
    finally show ?thesis by (metis nat_int)
  qed
  then show ?thesis by (simp add: shard_of_def m unat_and_mask)
qed

lemma shard_of_less: "shard_of i < kShardCount"
  by (simp add: shard_of_mod kShardCount_def kShardBits_def nat_less_iff)

interpretation entries: keyed_store new_table put_entry del_entry entry_of id "\<lambda>_. True"
  by unfold_locales (auto simp: entry_of_def put_entry_def del_entry_def upd_shard_def new_table_def update_conv' delete_conv')

interpretation logs: keyed_store new_table put_log del_log log_of id "\<lambda>_. True"
  by unfold_locales (auto simp: log_of_def put_log_def del_log_def upd_shard_def new_table_def update_conv' delete_conv')

lemma entry_frame [simp]:
  "entry_of (put_log r l t) = entry_of t" "entry_of (del_log r t) = entry_of t" "entry_of (free_all ps t) = entry_of t"
  by (auto simp: fun_eq_iff entry_of_def put_log_def del_log_def upd_shard_def free_all_def)

lemma log_frame [simp]:
  "log_of (put_entry r a t) = log_of t" "log_of (del_entry r t) = log_of t" "log_of (free_all ps t) = log_of t"
  "log_of (t\<lparr>objs := os\<rparr>) = log_of t"
  by (auto simp: fun_eq_iff log_of_def put_entry_def del_entry_def upd_shard_def free_all_def)

lemma freed_frame [simp]:
  "freed (put_entry r a t) = freed t" "freed (del_entry r t) = freed t" "freed (put_log r l t) = freed t"
  "freed (del_log r t) = freed t" "freed (free_all ps t) = freed t @ ps"
  by (simp_all add: put_entry_def del_entry_def put_log_def del_log_def upd_shard_def free_all_def)

section \<open>Who owns a payload\<close>

definition ptrs :: "PayloadLog \<Rightarrow> nat multiset" where
  "ptrs l = mset (map snd (pl_payloads l))"

definition log_live :: "PayloadLog option \<Rightarrow> nat multiset" where
  "log_live lo = (case lo of None \<Rightarrow> {#} | Some l \<Rightarrow> ptrs l)"

definition shard_live :: "Shard \<Rightarrow> nat multiset" where
  "shard_live s = sum_list (map (\<lambda>x. ptrs (snd x)) (sh_payloads s))"

definition live :: "PendingTable \<Rightarrow> nat multiset" where
  "live t = (\<Sum>i < kShardCount. shard_live (shards t i))"

definition shard_ok :: "nat \<Rightarrow> Shard \<Rightarrow> bool" where
  "shard_ok i s \<longleftrightarrow> distinct (map fst (sh_payloads s)) \<and> distinct (map fst (sh_table s)) \<and>
     list_all (\<lambda>k. shard_of k = i) (map fst (sh_table s)) \<and> list_all (\<lambda>k. shard_of k = i) (map fst (sh_payloads s))"

definition keys_ok :: "PendingTable \<Rightarrow> bool" where
  "keys_ok t \<longleftrightarrow> (\<forall>i. shard_ok i (shards t i))"

lemma sum_list_update:
  fixes g :: "'a \<times> 'b \<Rightarrow> 'c::comm_monoid_add"
  assumes "distinct (map fst al)"
  shows "sum_list (map g (AList.update k v al)) + (case map_of al k of None \<Rightarrow> 0 | Some w \<Rightarrow> g (k, w)) =
    sum_list (map g al) + g (k, v)"
  using assms by (induction al) (auto simp: ac_simps split: option.splits)

lemma sum_list_delete:
  fixes g :: "'a \<times> 'b \<Rightarrow> 'c::comm_monoid_add"
  assumes "distinct (map fst al)"
  shows "sum_list (map g (AList.delete k al)) + (case map_of al k of None \<Rightarrow> 0 | Some w \<Rightarrow> g (k, w)) = sum_list (map g al)"
  using assms
proof (induction al)
  case (Cons x al)
  show ?case
  proof (cases "fst x = k")
    case True
    then have "k \<notin> fst ` set al" using Cons.prems by auto
    then have "map_of al k = None" "AList.delete k al = al" by (auto simp: map_of_eq_None_iff delete_idem)
    then show ?thesis using True by (cases x) (simp add: ac_simps)
  next
    case False
    then show ?thesis using Cons by (cases x) (auto simp: ac_simps)
  qed
qed simp

lemma swap_cancel: "a + s = b + c \<Longrightarrow> c + d = s + e \<Longrightarrow> a + d = b + e" for a :: "'m::cancel_comm_monoid_add"
proof -
  assume "a + s = b + c" "c + d = s + e"
  then have "(a + d) + s = (b + e) + s" by (metis add.assoc add.commute)
  then show ?thesis by (rule add_right_imp_eq)
qed

lemma live_upd_shard:
  "live (upd_shard r f t) + shard_live (shards t (shard_of r)) = live t + shard_live (f (shards t (shard_of r)))"
proof -
  let ?I = "{..<kShardCount}" and ?j = "shard_of r"
  have j: "?j \<in> ?I" using shard_of_less by simp
  have "live t = shard_live (shards t ?j) + (\<Sum>i \<in> ?I - {?j}. shard_live (shards t i))"
    unfolding live_def by (subst sum.remove [OF _ j]) auto
  moreover have "live (upd_shard r f t) = shard_live (f (shards t ?j)) + (\<Sum>i \<in> ?I - {?j}. shard_live (shards t i))"
    unfolding live_def upd_shard_def by (subst sum.remove [OF _ j]) (auto intro: sum.cong)
  ultimately show ?thesis by (simp add: ac_simps)
qed

lemma live_same_logs: "(\<And>s. sh_payloads (f s) = sh_payloads s) \<Longrightarrow> live (upd_shard r f t) = live t"
  unfolding live_def by (rule sum.cong) (auto simp: upd_shard_def shard_live_def)

lemma live_frame [simp]:
  "live (put_entry r a t) = live t" "live (del_entry r t) = live t" "live (free_all ps t) = live t"
  "live (t\<lparr>objs := os\<rparr>) = live t"
  by (simp_all add: put_entry_def del_entry_def live_same_logs) (simp_all add: live_def free_all_def)

lemma live_put_log: "keys_ok t \<Longrightarrow> live (put_log r l t) + log_live (log_of t r) = live t + ptrs l"
proof -
  assume "keys_ok t"
  then have d: "distinct (map fst (sh_payloads (shards t (shard_of r))))" by (simp add: keys_ok_def shard_ok_def)
  let ?s = "shards t (shard_of r)"
  have "live (put_log r l t) + shard_live ?s = live t + shard_live (?s\<lparr>sh_payloads := AList.update r l (sh_payloads ?s)\<rparr>)"
    unfolding put_log_def by (rule live_upd_shard)
  moreover have "shard_live (?s\<lparr>sh_payloads := AList.update r l (sh_payloads ?s)\<rparr>) + log_live (log_of t r) = shard_live ?s + ptrs l"
    using sum_list_update [OF d, of "\<lambda>x. ptrs (snd x)" r l]
    by (simp add: shard_live_def log_live_def log_of_def split: option.splits)
  ultimately show ?thesis by (rule swap_cancel)
qed

lemma live_del_log: "keys_ok t \<Longrightarrow> live (del_log r t) + log_live (log_of t r) = live t"
proof -
  assume "keys_ok t"
  then have d: "distinct (map fst (sh_payloads (shards t (shard_of r))))" by (simp add: keys_ok_def shard_ok_def)
  let ?s = "shards t (shard_of r)"
  have "live (del_log r t) + shard_live ?s = live t + shard_live (?s\<lparr>sh_payloads := AList.delete r (sh_payloads ?s)\<rparr>)"
    unfolding del_log_def by (rule live_upd_shard)
  moreover have "shard_live (?s\<lparr>sh_payloads := AList.delete r (sh_payloads ?s)\<rparr>) + log_live (log_of t r) = shard_live ?s + {#}"
    using sum_list_delete [OF d, of "\<lambda>x. ptrs (snd x)" r]
    by (simp add: shard_live_def log_live_def log_of_def split: option.splits)
  ultimately show ?thesis using swap_cancel by fastforce
qed

lemma keys_ok_upd: "keys_ok t \<Longrightarrow> shard_ok (shard_of r) (f (shards t (shard_of r))) \<Longrightarrow> keys_ok (upd_shard r f t)"
  by (simp add: keys_ok_def upd_shard_def)

lemma list_all_keys_delete: "list_all P (map fst al) \<Longrightarrow> list_all P (map fst (AList.delete k al))"
  by (induction al) auto

lemma list_all_keys_update: "list_all P (map fst al) \<Longrightarrow> P k \<Longrightarrow> list_all P (map fst (AList.update k v al))"
  by (induction al) auto

lemma shard_ok_stores:
  assumes "shard_ok (shard_of r) s"
  shows "shard_ok (shard_of r) (s\<lparr>sh_table := AList.update r a (sh_table s)\<rparr>)"
    "shard_ok (shard_of r) (s\<lparr>sh_table := AList.delete r (sh_table s)\<rparr>)"
    "shard_ok (shard_of r) (s\<lparr>sh_payloads := AList.update r l (sh_payloads s)\<rparr>)"
    "shard_ok (shard_of r) (s\<lparr>sh_payloads := AList.delete r (sh_payloads s)\<rparr>)"
  using assms by (simp_all add: shard_ok_def distinct_update distinct_delete list_all_keys_delete list_all_keys_update)

lemma keys_ok_stores [inv_intros]:
  assumes "keys_ok t"
  shows "keys_ok (put_entry r a t)" "keys_ok (del_entry r t)" "keys_ok (put_log r l t)" "keys_ok (del_log r t)"
    "keys_ok (free_all ps t)" "keys_ok (t\<lparr>objs := os\<rparr>)"
proof -
  have s: "shard_ok (shard_of r) (shards t (shard_of r))" using assms by (simp add: keys_ok_def)
  show "keys_ok (put_entry r a t)" "keys_ok (del_entry r t)" "keys_ok (put_log r l t)" "keys_ok (del_log r t)"
    unfolding put_entry_def del_entry_def put_log_def del_log_def
    by (rule keys_ok_upd [OF assms], rule shard_ok_stores [OF s])+
  show "keys_ok (free_all ps t)" "keys_ok (t\<lparr>objs := os\<rparr>)" using assms by (simp_all add: keys_ok_def free_all_def)
qed

lemma keys_ok_new [inv_intros]: "keys_ok new_table"
  by (simp add: keys_ok_def shard_ok_def new_table_def)

lemma keys_ok_ops [inv_intros]:
  assumes "keys_ok t"
  shows "keys_ok (fst (create r t))" "keys_ok (erase r t)" "keys_ok (dropPayloads r t)"
    "keys_ok (fst (trackPayload r p t))" "keys_ok (ack r n t)" "keys_ok (abort_shard i t)"
proof -
  show "keys_ok (abort_shard i t)" using assms by (auto simp: abort_shard_def keys_ok_def shard_ok_def free_all_def Let_def)
qed (use assms in \<open>auto simp: create_def erase_def dropPayloads_def trackPayload_def ack_def Let_def
    intro!: keys_ok_stores split: option.splits\<close>)

text \<open>Freed and live payloads together only ever grow by what is tracked.\<close>

definition owned :: "PendingTable \<Rightarrow> nat multiset" where
  "owned t = mset (freed t) + live t"

lemma owned_del_log:
  "keys_ok t \<Longrightarrow> log_of t r = Some l \<Longrightarrow> owned (del_log r (free_all (map snd (pl_payloads l)) t)) = owned t"
  using live_del_log [of "free_all (map snd (pl_payloads l)) t" r] keys_ok_stores(5) [of t "map snd (pl_payloads l)"]
  by (simp add: owned_def log_live_def ptrs_def ac_simps)

lemma owned_put_log:
  "keys_ok t \<Longrightarrow> log_of t r = Some l \<Longrightarrow> ptrs l' + mset ps = ptrs l \<Longrightarrow> owned (put_log r l' (free_all ps t)) = owned t"
proof -
  assume a: "keys_ok t" "log_of t r = Some l" "ptrs l' + mset ps = ptrs l"
  have "live (put_log r l' (free_all ps t)) + ptrs l = live t + ptrs l'"
    using live_put_log [OF keys_ok_stores(5) [OF a(1)], of r l' ps] a(2) by (simp add: log_live_def)
  then have "live (put_log r l' (free_all ps t)) + mset ps + ptrs l' = live t + ptrs l'"
    unfolding a(3) [symmetric] by (simp add: ac_simps)
  then show ?thesis by (simp add: owned_def ac_simps)
qed

text \<open>Every logged payload is numbered below the next sequence number.\<close>

definition seqs_ok :: "PendingTable \<Rightarrow> bool" where
  "seqs_ok t \<longleftrightarrow> (\<forall>r l. log_of t r = Some l \<longrightarrow> (\<forall>(sq, p) \<in> set (pl_payloads l). sq < pl_nextSeq l))"

lemma mset_partition:
  "mset (map snd (filter (\<lambda>(sq, p). \<not> sq < n) xs)) + mset (map snd (filter (\<lambda>(sq, p). sq < n) xs)) = mset (map snd xs)"
  for n :: int and xs :: "(int \<times> nat) list"
  by (induction xs) auto

lemma owned_ops:
  assumes "keys_ok t" and logs_ok: "seqs_ok t"
  shows "owned (fst (create r t)) = owned t" "owned (erase r t) = owned t" "owned (dropPayloads r t) = owned t"
    "owned (fst (trackPayload r p t)) = add_mset p (owned t)" "owned (ack r n t) = owned t"
proof -
  show "owned (fst (create r t)) = owned t" by (simp add: create_def Let_def owned_def)
  show "owned (dropPayloads r t) = owned t"
    using owned_del_log [OF assms(1)] by (simp add: dropPayloads_def split: option.splits)
  have k: "keys_ok (del_entry r t)" by (rule keys_ok_stores [OF assms(1)])
  have o: "owned (del_entry r t) = owned t" by (simp add: owned_def)
  show "owned (erase r t) = owned t"
  proof (cases "log_of t r")
    case None
    then show ?thesis by (simp add: erase_def o)
  next
    case (Some l)
    have "owned (put_log r (l\<lparr>pl_orphaned := True\<rparr>) (free_all [] (del_entry r t))) = owned (del_entry r t)"
      using Some by (intro owned_put_log [OF k]) (auto simp: ptrs_def)
    moreover have "free_all [] (del_entry r t) = del_entry r t" by (simp add: free_all_def)
    ultimately show ?thesis using Some owned_del_log [OF k, of r l] o
      by (simp add: erase_def Let_def)
  qed
  show "owned (fst (trackPayload r p t)) = add_mset p (owned t)"
  proof (cases "log_of t r")
    case None
    then show ?thesis using live_put_log [OF assms(1), of r]
      by (simp add: trackPayload_def Let_def owned_def log_live_def ptrs_def new_log_def)
  next
    case (Some l)
    let ?l = "l\<lparr>pl_nextSeq := pl_nextSeq l + 1, pl_payloads := pl_payloads l @ [(pl_nextSeq l, p)]\<rparr>"
    have "live (put_log r ?l t) + ptrs l = add_mset p (live t) + ptrs l"
      using live_put_log [OF assms(1), of r ?l] Some by (simp add: log_live_def ptrs_def)
    then show ?thesis using Some by (simp add: trackPayload_def Let_def owned_def)
  qed
  show "owned (ack r n t) = owned t"
  proof (cases "log_of t r")
    case None
    then show ?thesis by (simp add: ack_def)
  next
    case (Some l)
    let ?g = "filter (\<lambda>(sq, p). sq < n) (pl_payloads l)" and ?k = "filter (\<lambda>(sq, p). \<not> sq < n) (pl_payloads l)"
    have sp: "mset (map snd ?k) + mset (map snd ?g) = mset (map snd (pl_payloads l))"
      by (rule mset_partition)
    define l' where "l' = l\<lparr>pl_acked := n, pl_payloads := ?k\<rparr>"
    have pl: "ptrs l' + mset (map snd ?g) = ptrs l" using sp by (simp add: ptrs_def l'_def)
    have keep: "owned (put_log r l' (free_all (map snd ?g) t)) = owned t" by (rule owned_put_log [OF assms(1) Some pl])
    show ?thesis
    proof (cases "pl_orphaned l \<and> n = pl_nextSeq l")
      case False
      then show ?thesis using Some keep by (auto simp: ack_def Let_def l'_def)
    next
      case True
      then have all: "?g = pl_payloads l"
        using Some logs_ok by (fastforce simp: seqs_ok_def intro!: filter_True)
      then have "filter (\<lambda>(sq, p). sq < pl_nextSeq l) (pl_payloads l) = pl_payloads l" using True by simp
      then show ?thesis using Some True owned_del_log [OF assms(1) Some] by (simp add: ack_def Let_def)
    qed
  qed
qed

lemma abort_shard_frame:
  "log_of (abort_shard i t) r = (if shard_of r = i then None else log_of t r)"
  "entry_of (abort_shard i t) r = (if shard_of r = i then None else entry_of t r)"
  by (simp_all add: abort_shard_def log_of_def entry_of_def free_all_def Let_def)

lemma owned_abort_shard: "i < kShardCount \<Longrightarrow> owned (abort_shard i t) = owned t"
proof -
  assume i: "i < kShardCount"
  let ?ps = "concat (map (\<lambda>(k, l). map snd (pl_payloads l)) (sh_payloads (shards t i)))"
  have mc: "mset (concat (map (\<lambda>(k, l). map snd (pl_payloads l)) xs)) = sum_list (map (\<lambda>x. ptrs (snd x)) xs)"
    for xs :: "(int \<times> PayloadLog) list"
    by (induction xs) (auto simp: ptrs_def)
  have ps: "mset ?ps = shard_live (shards t i)" unfolding shard_live_def by (rule mc)
  have "live t = shard_live (shards t i) + (\<Sum>j \<in> {..<kShardCount} - {i}. shard_live (shards t j))"
    unfolding live_def by (subst sum.remove [of _ i]) (use i in auto)
  moreover have "live (abort_shard i t) = (\<Sum>j \<in> {..<kShardCount} - {i}. shard_live (shards t j))"
    unfolding live_def abort_shard_def Let_def free_all_def
    by (subst sum.remove [of _ i]) (use i in \<open>auto simp: shard_live_def intro: sum.cong\<close>)
  moreover have "mset (freed (abort_shard i t)) = mset (freed t) + mset ?ps"
    by (simp add: abort_shard_def Let_def free_all_def)
  ultimately show ?thesis by (simp add: owned_def ps ac_simps del: mset_concat)
qed

lemma seqs_ok_new [inv_intros]: "seqs_ok new_table"
  by (simp add: seqs_ok_def logs.get_emp)

lemma seqs_ok_ops [inv_intros]:
  assumes "seqs_ok t"
  shows "seqs_ok (fst (create r t))" "seqs_ok (erase r t)" "seqs_ok (dropPayloads r t)"
    "seqs_ok (fst (trackPayload r p t))" "seqs_ok (ack r n t)" "seqs_ok (abort_shard i t)"
proof -
  show "seqs_ok (fst (create r t))" using assms by (simp add: seqs_ok_def create_def Let_def)
  show "seqs_ok (dropPayloads r t)" using assms
    by (auto simp: seqs_ok_def dropPayloads_def logs.get_del split: option.splits if_splits)
  show "seqs_ok (abort_shard i t)" using assms by (auto simp: seqs_ok_def abort_shard_frame split: if_splits)
  show "seqs_ok (erase r t)" using assms
    by (auto simp: seqs_ok_def erase_def logs.get_del logs.get_put Let_def split: option.splits if_splits)
  show "seqs_ok (fst (trackPayload r p t))" using assms
    by (force simp: seqs_ok_def trackPayload_def logs.get_put Let_def new_log_def split: option.splits if_splits)
  show "seqs_ok (ack r n t)" using assms
    by (auto simp: seqs_ok_def ack_def logs.get_put logs.get_del Let_def split: option.splits if_splits)
qed

text \<open>
  Every interleaving of the table's operations, with \<open>abortAll\<close> broken into its per-shard critical
  sections. The list holds the payloads handed over so far; \<open>malloc\<close> never hands out the same
  allocation twice.
\<close>

inductive pt_reach :: "nat list \<Rightarrow> PendingTable \<Rightarrow> bool" where
  pt_new: "pt_reach [] new_table"
| pt_create: "pt_reach ps t \<Longrightarrow> pt_reach ps (fst (create r t))"
| pt_erase: "pt_reach ps t \<Longrightarrow> pt_reach ps (erase r t)"
| pt_drop: "pt_reach ps t \<Longrightarrow> pt_reach ps (dropPayloads r t)"
| pt_ack: "pt_reach ps t \<Longrightarrow> pt_reach ps (ack r n t)"
| pt_abort: "pt_reach ps t \<Longrightarrow> i < kShardCount \<Longrightarrow> pt_reach ps (abort_shard i t)"
| pt_track: "pt_reach ps t \<Longrightarrow> p \<notin> set ps \<Longrightarrow> pt_reach (p # ps) (fst (trackPayload r p t))"

lemma pt_reach_inv: "pt_reach ps t \<Longrightarrow> keys_ok t \<and> seqs_ok t \<and> distinct ps \<and> owned t = mset ps"
proof (induction rule: pt_reach.induct)
  case pt_new
  then show ?case by (simp add: keys_ok_new seqs_ok_new owned_def) (simp add: new_table_def live_def shard_live_def)
qed (simp_all add: keys_ok_ops seqs_ok_ops owned_ops owned_abort_shard)

text \<open>
  C15: payload memory is owned exactly once. In every state any interleaving of create, erase, track,
  ack, drop and the per-shard sections of abort can reach, no payload has been freed twice, no live
  log points to a freed payload, and every payload ever handed over is either freed or still held by
  a log: nothing leaks out of the table.
\<close>

theorem payload_ownership:
  assumes "pt_reach ps t"
  shows "distinct (freed t) \<and> set (freed t) \<inter> set_mset (live t) = {} \<and> set (freed t) \<union> set_mset (live t) = set ps \<and>
    mset (freed t) + live t = mset ps"
proof -
  have d: "distinct ps" and o: "mset (freed t) + live t = mset ps" using pt_reach_inv [OF assms] by (auto simp: owned_def)
  have c: "count (mset (freed t)) p + count (live t) p \<le> 1" for p
    using d o by (metis count_union distinct_count_atmost_1 le_refl zero_le_one)
  have "distinct (freed t)"
    unfolding distinct_count_atmost_1 using c
    by (metis add_leD1 count_eq_zero_iff le_neq_implies_less less_one set_mset_mset)
  moreover have "set (freed t) \<inter> set_mset (live t) = {}"
  proof (rule ccontr)
    assume "set (freed t) \<inter> set_mset (live t) \<noteq> {}"
    then obtain p where "p \<in> set (freed t)" "p \<in># live t" by blast
    then have "1 \<le> count (mset (freed t)) p" "1 \<le> count (live t) p" by (simp_all add: Suc_le_eq)
    with c [of p] show False by simp
  qed
  moreover have "set (freed t) \<union> set_mset (live t) = set ps" using o by (metis set_mset_mset set_mset_union)
  ultimately show ?thesis using o by blast
qed

definition sample_table :: PendingTable where
  "sample_table = ack 7 1 (fst (trackPayload 7 1 (fst (trackPayload 7 0 (fst (create 7 new_table))))))"

theorem payload_ownership_witness:
  "pt_reach [1, 0] sample_table \<and> distinct (freed sample_table) \<and> set (freed sample_table) \<union> set_mset (live sample_table) = {0, 1}"
proof -
  have "pt_reach [1, 0] sample_table" unfolding sample_table_def by (intro pt_reach.intros) auto
  from payload_ownership [OF this] this show ?thesis by (simp add: insert_commute)
qed

section \<open>When a payload is freed\<close>

text \<open>A log whose peer acknowledges only what it was sent: the live payloads are the unacknowledged ones, in order.\<close>

definition log_ok :: "PayloadLog \<Rightarrow> bool" where
  "log_ok l \<longleftrightarrow> 0 \<le> pl_acked l \<and> pl_acked l \<le> pl_nextSeq l \<and> map fst (pl_payloads l) = [pl_acked l..pl_nextSeq l - 1]"

definition logs_ok :: "PendingTable \<Rightarrow> bool" where
  "logs_ok t \<longleftrightarrow> (\<forall>r l. log_of t r = Some l \<longrightarrow> log_ok l)"

text \<open>The same interleavings, with acknowledgements of at most what the log has handed out.\<close>

inductive pt_protocol :: "PendingTable \<Rightarrow> bool" where
  pp_new: "pt_protocol new_table"
| pp_create: "pt_protocol t \<Longrightarrow> pt_protocol (fst (create r t))"
| pp_erase: "pt_protocol t \<Longrightarrow> pt_protocol (erase r t)"
| pp_drop: "pt_protocol t \<Longrightarrow> pt_protocol (dropPayloads r t)"
| pp_ack: "pt_protocol t \<Longrightarrow> (case log_of t r of None \<Rightarrow> True | Some l \<Rightarrow> n \<le> pl_nextSeq l) \<Longrightarrow> pt_protocol (ack r n t)"
| pp_abort: "pt_protocol t \<Longrightarrow> pt_protocol (abort_shard i t)"
| pp_track: "pt_protocol t \<Longrightarrow> pt_protocol (fst (trackPayload r p t))"

lemma filter_fst: "map fst (filter (\<lambda>(sq, p). P sq) xs) = filter P (map fst xs)"
  by (induction xs) auto

lemma filter_upto: "a \<le> n \<Longrightarrow> n \<le> b + 1 \<Longrightarrow> filter (\<lambda>x. \<not> x < n) [a..b] = [n..b]" for n :: int
proof -
  assume n: "a \<le> n" "n \<le> b + 1"
  show ?thesis
  proof (cases "n = a")
    case True
    then show ?thesis by (auto simp: filter_id_conv)
  next
    case False
    then have "[a..b] = [a..n - 1] @ [n..b]" using n upto_split2 [of a "n - 1" b] by simp
    moreover have "filter (\<lambda>x. \<not> x < n) [a..n - 1] = []" "filter (\<lambda>x. \<not> x < n) [n..b] = [n..b]"
      by (auto simp: filter_empty_conv filter_id_conv)
    ultimately show ?thesis by simp
  qed
qed

lemma log_ok_ack:
  "log_ok l \<Longrightarrow> pl_acked l < n \<Longrightarrow> n \<le> pl_nextSeq l \<Longrightarrow>
   log_ok (l\<lparr>pl_acked := n, pl_payloads := filter (\<lambda>(sq, p). \<not> sq < n) (pl_payloads l)\<rparr>)"
  by (simp add: log_ok_def filter_fst filter_upto)

lemma log_ok_track:
  "log_ok l \<Longrightarrow> log_ok (l\<lparr>pl_nextSeq := pl_nextSeq l + 1, pl_payloads := pl_payloads l @ [(pl_nextSeq l, p)]\<rparr>)"
  using upto_rec2 [of "pl_acked l" "pl_nextSeq l"] by (simp add: log_ok_def)

lemma pt_protocol_ok: "pt_protocol t \<Longrightarrow> logs_ok t"
proof (induction rule: pt_protocol.induct)
  case pp_new
  then show ?case by (simp add: logs_ok_def logs.get_emp)
next
  case (pp_create t r)
  then show ?case by (simp add: logs_ok_def create_def Let_def)
next
  case (pp_erase t r)
  then show ?case
    by (auto simp: logs_ok_def log_ok_def erase_def logs.get_del logs.get_put Let_def split: option.splits if_splits)
next
  case (pp_drop t r)
  then show ?case by (auto simp: logs_ok_def dropPayloads_def logs.get_del split: option.splits if_splits)
next
  case (pp_ack t r n)
  then show ?case
    by (auto simp: logs_ok_def ack_def logs.get_put logs.get_del Let_def log_ok_ack split: option.splits if_splits)
next
  case (pp_abort t i)
  then show ?case by (auto simp: logs_ok_def abort_shard_frame split: if_splits)
next
  case (pp_track t r p)
  have "log_ok new_log" by (simp add: log_ok_def new_log_def)
  with pp_track show ?case
    by (auto simp: logs_ok_def trackPayload_def logs.get_put Let_def log_ok_track split: option.splits if_splits)
qed

lemma log_ok_bounds: "log_ok l \<Longrightarrow> (sq, p) \<in> set (pl_payloads l) \<Longrightarrow> pl_acked l \<le> sq \<and> sq < pl_nextSeq l"
proof -
  assume l: "log_ok l" and "(sq, p) \<in> set (pl_payloads l)"
  then have "sq \<in> set (map fst (pl_payloads l))" by force
  also have "\<dots> = {pl_acked l..pl_nextSeq l - 1}" using l unfolding log_ok_def by (metis set_upto)
  finally show ?thesis by simp
qed

lemma log_ok_empty: "log_ok l \<Longrightarrow> pl_acked l = pl_nextSeq l \<Longrightarrow> pl_payloads l = []"
  by (auto simp: log_ok_def)

text \<open>
  C17: a payload Dart may still read is never freed under it. As long as acknowledgements never exceed
  what was handed out, erasing a request frees nothing at all (its log survives, orphaned, until it is
  acknowledged), and an acknowledgement up to \<open>n\<close> frees exactly the payloads numbered below \<open>n\<close> that
  were not acknowledged before.
\<close>

theorem free_only_on_ack:
  assumes "pt_protocol t"
  shows "freed (erase r t) = freed t \<and>
    (case log_of t r of
       None \<Rightarrow> freed (ack r n t) = freed t
     | Some l \<Rightarrow> freed (ack r n t) = freed t @ map snd (filter (\<lambda>(sq, p). pl_acked l \<le> sq \<and> sq < n) (pl_payloads l)) \<and>
         map fst (pl_payloads l) = [pl_acked l..pl_nextSeq l - 1])"
proof -
  have ok: "logs_ok t" by (rule pt_protocol_ok [OF assms])
  show ?thesis
  proof (cases "log_of t r")
    case None
    then show ?thesis by (simp add: erase_def ack_def)
  next
    case (Some l)
    with ok have l: "log_ok l" by (simp add: logs_ok_def)
    have e: "freed (erase r t) = freed t"
      using Some log_ok_empty [OF l] by (auto simp: erase_def Let_def)
    have ge: "pl_acked l \<le> sq" if "(sq, p) \<in> set (pl_payloads l)" for sq p using log_ok_bounds [OF l that] by simp
    have f: "filter (\<lambda>(sq, p). pl_acked l \<le> sq \<and> sq < n) (pl_payloads l) = filter (\<lambda>(sq, p). sq < n) (pl_payloads l)"
      by (rule filter_cong) (auto dest: ge)
    have "freed (ack r n t) = freed t @ map snd (filter (\<lambda>(sq, p). sq < n) (pl_payloads l))"
    proof (cases "n \<le> pl_acked l")
      case True
      then have "filter (\<lambda>(sq, p). sq < n) (pl_payloads l) = []" using ge by (fastforce simp: filter_empty_conv)
      then show ?thesis using Some True by (simp add: ack_def)
    next
      case False
      then show ?thesis using Some by (simp add: ack_def Let_def)
    qed
    then show ?thesis using Some e l f by (simp add: log_ok_def)
  qed
qed

text \<open>
  C34: logs are reaped. Under the same protocol, once a request has been erased and everything its log
  handed out has been acknowledged, in either order, the log is gone and every payload of it freed.
\<close>

theorem log_reaped:
  assumes "pt_protocol t" "log_of t r = Some l"
  shows "log_of (ack r (pl_nextSeq l) (erase r t)) r = None \<and> log_of (erase r (ack r (pl_nextSeq l) t)) r = None \<and>
    set (map snd (pl_payloads l)) \<subseteq> set (freed (ack r (pl_nextSeq l) (erase r t))) \<and>
    set (map snd (pl_payloads l)) \<subseteq> set (freed (erase r (ack r (pl_nextSeq l) t)))"
proof -
  have l: "log_ok l" using pt_protocol_ok [OF assms(1)] assms(2) by (simp add: logs_ok_def)
  have lt: "filter (\<lambda>(sq, p). sq < pl_nextSeq l) (pl_payloads l) = pl_payloads l"
    by (rule filter_True) (use log_ok_bounds [OF l] in auto)
  show ?thesis
  proof (cases "pl_acked l = pl_nextSeq l")
    case True
    then show ?thesis using assms(2) log_ok_empty [OF l True]
      by (simp add: erase_def ack_def Let_def logs.get_del)
  next
    case False
    then have "\<not> pl_nextSeq l \<le> pl_acked l" using l by (simp add: log_ok_def)
    then show ?thesis using assms(2) False lt
      by (auto simp: erase_def ack_def Let_def logs.get_del logs.get_put)
  qed
qed

lemma sample_protocol: "pt_protocol (fst (trackPayload 7 5 new_table))"
  by (intro pt_protocol.intros)

theorem free_only_on_ack_witness:
  "pt_protocol (fst (trackPayload 7 5 new_table)) \<and> freed (erase 7 (fst (trackPayload 7 5 new_table))) = [] \<and>
   freed (ack 7 1 (fst (trackPayload 7 5 new_table))) = [5]"
proof -
  have l: "log_of (fst (trackPayload 7 5 new_table)) 7 = Some \<lparr>pl_payloads = [(0, 5)], pl_nextSeq = 1, pl_acked = 0, pl_orphaned = False\<rparr>"
    by (simp add: trackPayload_def logs.get_put logs.get_emp new_log_def)
  have f: "freed (fst (trackPayload 7 5 new_table)) = []" by (simp add: trackPayload_def new_table_def Let_def)
  show ?thesis using free_only_on_ack [OF sample_protocol, of 7 1] sample_protocol by (simp add: l f)
qed

theorem log_reaped_witness:
  "pt_protocol (fst (trackPayload 7 5 new_table)) \<and> log_of (ack 7 1 (erase 7 (fst (trackPayload 7 5 new_table)))) 7 = None"
proof -
  have l: "log_of (fst (trackPayload 7 5 new_table)) 7 = Some \<lparr>pl_payloads = [(0, 5)], pl_nextSeq = 1, pl_acked = 0, pl_orphaned = False\<rparr>"
    by (simp add: trackPayload_def logs.get_put logs.get_emp new_log_def)
  from log_reaped [OF sample_protocol l] sample_protocol show ?thesis by simp
qed

text \<open>
  A payload tracked after the request was erased opens a fresh log that nothing marks as orphaned: full
  acknowledgement frees the payload but leaves the log behind until the connection is dropped or the
  server stops.
\<close>

lemma track_after_erase_keeps_log:
  "log_of (erase r t) r = None \<Longrightarrow>
   log_of (ack r 1 (fst (trackPayload r p (erase r t)))) r =
     Some \<lparr>pl_payloads = [], pl_nextSeq = 1, pl_acked = 1, pl_orphaned = False\<rparr>"
  by (simp add: trackPayload_def ack_def Let_def logs.get_put new_log_def)

section \<open>Stopping\<close>

lemma abort_request_answered: "pr_answered (abort_request req)"
  by (simp add: abort_request_def)

lemma fold_abort_answered:
  "a < length os \<Longrightarrow> (pr_answered (os ! a) \<or> a \<in> snd ` set xs) \<Longrightarrow>
   pr_answered (fold (\<lambda>(k, a) os. if a < length os then os[a := abort_request (os ! a)] else os) xs os ! a)"
proof (induction xs arbitrary: os)
  case (Cons x xs)
  obtain k b where x: "x = (k, b)" by (cases x)
  define os' where "os' = (if b < length os then os[b := abort_request (os ! b)] else os)"
  have "a < length os'" "pr_answered (os' ! a) \<or> a \<in> snd ` set xs"
    using Cons.prems by (auto simp: x os'_def nth_list_update abort_request_answered)
  from Cons.IH [OF this] show ?case by (simp add: x os'_def)
qed simp

lemma fold_abort_length:
  "length (fold (\<lambda>(k, a) os. if a < length os then os[a := abort_request (os ! a)] else os) xs os) = length os"
  by (induction xs arbitrary: os) auto

lemma abort_shard_objs:
  "length (objs (abort_shard i t)) = length (objs t)"
  "a < length (objs t) \<Longrightarrow> pr_answered (objs t ! a) \<or> a \<in> snd ` set (sh_table (shards t i)) \<Longrightarrow>
   pr_answered (objs (abort_shard i t) ! a)"
  using fold_abort_length fold_abort_answered by (simp_all add: abort_shard_def Let_def free_all_def)

lemma abort_shard_other: "j \<noteq> i \<Longrightarrow> shards (abort_shard i t) j = shards t j"
  by (simp add: abort_shard_def Let_def free_all_def)

lemma fold_abort_shards:
  assumes "distinct is"
  shows "length (objs (fold abort_shard is t)) = length (objs t) \<and>
    (\<forall>a < length (objs t). pr_answered (objs t ! a) \<or> (\<exists>i \<in> set is. a \<in> snd ` set (sh_table (shards t i))) \<longrightarrow>
      pr_answered (objs (fold abort_shard is t) ! a)) \<and>
    (\<forall>r. log_of (fold abort_shard is t) r = (if shard_of r \<in> set is then None else log_of t r)) \<and>
    (\<forall>r. entry_of (fold abort_shard is t) r = (if shard_of r \<in> set is then None else entry_of t r))"
  using assms
proof (induction "is" arbitrary: t)
  case (Cons i "is")
  have IH: "distinct is" "i \<notin> set is" using Cons.prems by auto
  have tb: "sh_table (shards (abort_shard i t) j) = sh_table (shards t j)" if "j \<in> set is" for j
  proof -
    have "j \<noteq> i" using that IH by blast
    then show ?thesis by (simp add: abort_shard_other)
  qed
  show ?case using Cons.IH [OF IH(1), of "abort_shard i t"] abort_shard_objs(1) [of i t] abort_shard_objs(2) [where i = i and t = t] tb
    by (auto simp: abort_shard_frame)
qed simp

lemma pt_reach_abortAll: "pt_reach ps t \<Longrightarrow> pt_reach ps (abortAll t)"
proof -
  have "pt_reach ps t \<Longrightarrow> set is \<subseteq> {..<kShardCount} \<Longrightarrow> pt_reach ps (fold abort_shard is t)" for "is"
    by (induction "is" arbitrary: t) (auto intro: pt_abort)
  moreover assume "pt_reach ps t"
  ultimately show ?thesis by (auto simp: abortAll_def atLeast0LessThan)
qed

lemma live_no_logs: "keys_ok t \<Longrightarrow> (\<And>r. log_of t r = None) \<Longrightarrow> live t = {#}"
proof -
  assume k: "keys_ok t" and n: "\<And>r. log_of t r = None"
  have "sh_payloads (shards t i) = []" for i
  proof (rule ccontr)
    assume "sh_payloads (shards t i) \<noteq> []"
    then obtain r l xs where x: "sh_payloads (shards t i) = (r, l) # xs" by (cases "sh_payloads (shards t i)") auto
    then have "shard_of r = i" using k by (auto simp: keys_ok_def shard_ok_def dest: spec [of _ i])
    then show False using n [of r] x by (simp add: log_of_def)
  qed
  then show ?thesis by (simp add: live_def shard_live_def)
qed



end
