(* ===== verification/DispatchController.thy ===== *)
theory DispatchController
  imports Prelude
begin

text \<open>
  \<open>src/engine/DispatchController.h\<close>: the hill climb over the number of isolates requests are dealt
  across. The sampled rates are answer counts; whether one beats another by the margin of 5 percent
  (\<open>answers > baseRate_ * kMargin\<close>, evaluated in doubles) is the argument \<open>beats\<close>, about which nothing is
  assumed. Widths are isolate counts, far from the bounds of \<open>size_t\<close>.
\<close>

section \<open>The controller\<close>

record DispatchController =
  dc_width :: nat
  dc_probe :: nat
  dc_baseRate :: int
  dc_probing :: bool
  dc_dir :: int
  dc_dwell :: int
  dc_dwellTarget :: int

definition kSaturatedBacklog :: int where "kSaturatedBacklog = 8"
definition kDwellMin :: int where "kDwellMin = 4"
definition kDwellMax :: int where "kDwellMax = 50"

definition new_controller :: DispatchController where
  "new_controller = \<lparr>dc_width = 1, dc_probe = 1, dc_baseRate = -1, dc_probing = False, dc_dir = 1,
     dc_dwell = 0, dc_dwellTarget = kDwellMin\<rparr>"

definition step_width :: "nat \<Rightarrow> int \<Rightarrow> nat \<Rightarrow> nat" where
  "step_width w dir maxWidth = (if dir > 0 then min maxWidth (w * 2) else max 1 (w div 2))"

definition reset :: "DispatchController \<Rightarrow> DispatchController" where
  "reset c = c\<lparr>dc_width := 1, dc_probe := 1, dc_baseRate := -1, dc_probing := False, dc_dir := 1,
     dc_dwell := 0, dc_dwellTarget := kDwellMin\<rparr>"

definition tick_settled :: "int \<Rightarrow> nat \<Rightarrow> DispatchController \<Rightarrow> DispatchController \<times> nat" where
  "tick_settled answers maxWidth c0 =
     (let c = c0\<lparr>dc_baseRate := answers, dc_dwell := dc_dwell c0 + 1\<rparr>
      in if dc_dwell c < dc_dwellTarget c then (c, dc_width c)
         else let c1 = c\<lparr>dc_dwell := 0\<rparr>;
                  c2 = (if dc_dir c1 > 0 \<and> dc_width c1 \<ge> maxWidth then c1\<lparr>dc_dir := -1\<rparr>
                        else if dc_dir c1 < 0 \<and> dc_width c1 \<le> 1 then c1\<lparr>dc_dir := 1\<rparr> else c1);
                  probe = step_width (dc_width c2) (dc_dir c2) maxWidth
              in if probe = dc_width c2 then (c2, dc_width c2)
                 else (c2\<lparr>dc_probe := probe, dc_probing := True\<rparr>, probe))"

definition tick_probing :: "(int \<Rightarrow> int \<Rightarrow> bool) \<Rightarrow> int \<Rightarrow> nat \<Rightarrow> DispatchController \<Rightarrow> DispatchController \<times> nat" where
  "tick_probing beats answers maxWidth c =
     (if beats answers (dc_baseRate c) then
        (let c1 = c\<lparr>dc_width := dc_probe c, dc_baseRate := answers, dc_dwellTarget := kDwellMin\<rparr>;
             next = step_width (dc_width c1) (dc_dir c1) maxWidth
         in if next \<noteq> dc_width c1 then (c1\<lparr>dc_probe := next\<rparr>, next)
            else (c1\<lparr>dc_probing := False\<rparr>, dc_width c1))
      else (c\<lparr>dc_probing := False, dc_dir := - dc_dir c, dc_dwellTarget := min kDwellMax (dc_dwellTarget c * 2)\<rparr>,
            dc_width c))"

definition tick :: "(int \<Rightarrow> int \<Rightarrow> bool) \<Rightarrow> int \<Rightarrow> int \<Rightarrow> nat \<Rightarrow> DispatchController \<Rightarrow> DispatchController \<times> nat" where
  "tick beats answers backlog maxWidth c =
     (if maxWidth \<le> 1 then (c, 1)
      else if backlog < kSaturatedBacklog then (let c' = reset c in (c', dc_width c'))
      else if \<not> dc_probing c then tick_settled answers maxWidth c
      else tick_probing beats answers maxWidth c)"

section \<open>Bounds\<close>

definition ctrl_ok :: "nat \<Rightarrow> DispatchController \<Rightarrow> bool" where
  "ctrl_ok maxWidth c \<longleftrightarrow> 1 \<le> dc_width c \<and> dc_width c \<le> maxWidth \<and> 1 \<le> dc_probe c \<and> dc_probe c \<le> maxWidth \<and>
     (dc_dir c = 1 \<or> dc_dir c = -1) \<and> 0 \<le> dc_dwell c \<and> dc_dwell c < dc_dwellTarget c \<and>
     kDwellMin \<le> dc_dwellTarget c \<and> dc_dwellTarget c \<le> kDwellMax \<and> (dc_probing c \<longrightarrow> dc_dwell c = 0)"

lemmas dwell_consts = kDwellMin_def kDwellMax_def

lemma step_width_bounds: "1 \<le> w \<Longrightarrow> 1 \<le> maxWidth \<Longrightarrow> w \<le> maxWidth \<Longrightarrow> 1 \<le> step_width w d maxWidth \<and> step_width w d maxWidth \<le> maxWidth"
  by (auto simp: step_width_def)

lemma tick_ok [inv_intros]:
  assumes "ctrl_ok m c" "1 \<le> m"
  shows "ctrl_ok m (fst (tick beats a b m c)) \<and> 1 \<le> snd (tick beats a b m c) \<and> snd (tick beats a b m c) \<le> m"
proof -
  have w: "1 \<le> step_width (dc_width c) d m \<and> step_width (dc_width c) d m \<le> m"
    "1 \<le> step_width (dc_probe c) d m \<and> step_width (dc_probe c) d m \<le> m" for d
    using assms step_width_bounds by (auto simp: ctrl_ok_def)
  consider "m \<le> 1" | "\<not> m \<le> 1" "b < kSaturatedBacklog" | "\<not> m \<le> 1" "\<not> b < kSaturatedBacklog" "\<not> dc_probing c"
    | "\<not> m \<le> 1" "\<not> b < kSaturatedBacklog" "dc_probing c" by blast
  then show ?thesis
  proof cases
    case 1
    then show ?thesis using assms by (simp add: tick_def)
  next
    case 2
    then show ?thesis by (simp add: tick_def reset_def ctrl_ok_def dwell_consts)
  next
    case 3
    then show ?thesis using assms w
      by (auto simp: tick_def tick_settled_def ctrl_ok_def Let_def dwell_consts)
  next
    case 4
    then show ?thesis using assms w
      by (auto simp: tick_def tick_probing_def ctrl_ok_def Let_def dwell_consts)
  qed
qed

lemma new_controller_ok: "1 \<le> m \<Longrightarrow> ctrl_ok m new_controller"
  by (simp add: ctrl_ok_def new_controller_def dwell_consts)

text \<open>A run of the controller: one (answers, backlog) sample per sweep.\<close>

fun run_ticks :: "(int \<Rightarrow> int \<Rightarrow> bool) \<Rightarrow> nat \<Rightarrow> (int \<times> int) list \<Rightarrow> DispatchController \<Rightarrow> DispatchController \<times> nat list" where
  "run_ticks beats m [] c = (c, [])"
| "run_ticks beats m ((a, b) # xs) c =
     (let (c1, w) = tick beats a b m c; (c2, ws) = run_ticks beats m xs c1 in (c2, w # ws))"

lemma run_ticks_ok:
  "ctrl_ok m c \<Longrightarrow> 1 \<le> m \<Longrightarrow> ctrl_ok m (fst (run_ticks beats m xs c)) \<and> (\<forall>w \<in> set (snd (run_ticks beats m xs c)). 1 \<le> w \<and> w \<le> m)"
proof (induction xs arbitrary: c)
  case (Cons x xs)
  obtain a b where x: "x = (a, b)" by (cases x)
  show ?case using tick_ok [OF Cons.prems, of beats a b] Cons.IH [of "fst (tick beats a b m c)"] Cons.prems(2)
    by (auto simp: x Let_def split: prod.splits)
qed simp

text \<open>
  The dispatch width always names an isolate. For a fixed number of isolates, whatever samples the
  sweeps feed and however the rates compare, every width \<open>tick\<close> returns lies between one and the number
  of isolates.
\<close>

theorem dispatch_width_bounds:
  assumes "1 \<le> maxWidth"
  shows "list_all (\<lambda>w. 1 \<le> w \<and> w \<le> maxWidth) (snd (run_ticks beats maxWidth samples new_controller))"
  using run_ticks_ok [OF new_controller_ok [OF assms] assms] by (simp add: list_all_iff)

theorem dispatch_width_bounds_witness:
  "(1::nat) \<le> 4 \<and> list_all (\<lambda>w. 1 \<le> w \<and> w \<le> 4)
     (snd (run_ticks (\<lambda>a b. 20 * a > 21 * b) 4 [(10, 9), (10, 9), (10, 9), (10, 9), (30, 9), (90, 9)] new_controller))"
  by (rule conjI, simp, rule dispatch_width_bounds, simp)

section \<open>A backed-up server keeps probing\<close>

lemma step_moves:
  assumes "1 \<le> w" "w \<le> m" "2 \<le> m" "d = 1 \<or> d = -1"
  shows "step_width w (if d > 0 \<and> w \<ge> m then -1 else if d < 0 \<and> w \<le> 1 then 1 else d) m \<noteq> w"
  using assms by (auto simp: step_width_def min_def max_def)

lemma settled_tick:
  assumes "ctrl_ok m c" "2 \<le> m" "kSaturatedBacklog \<le> b" "\<not> dc_probing c"
  shows "(if dc_dwell c + 1 < dc_dwellTarget c
    then \<not> dc_probing (fst (tick beats a b m c)) \<and> dc_dwell (fst (tick beats a b m c)) = dc_dwell c + 1 \<and>
      dc_dwellTarget (fst (tick beats a b m c)) = dc_dwellTarget c
    else dc_probing (fst (tick beats a b m c)))"
  using assms step_moves [of "dc_width c" m "dc_dir c"]
  by (auto simp: tick_def tick_settled_def Let_def ctrl_ok_def)

lemma settled_run:
  assumes "ctrl_ok m c" "2 \<le> m" "\<forall>(a, b) \<in> set xs. kSaturatedBacklog \<le> b" "\<not> dc_probing c"
    "int (length xs) = dc_dwellTarget c - dc_dwell c"
  shows "dc_probing (fst (run_ticks beats m xs c))"
  using assms
proof (induction xs arbitrary: c)
  case Nil
  then show ?case by (simp add: ctrl_ok_def)
next
  case (Cons x xs)
  obtain a b where x: "x = (a, b)" by (cases x)
  let ?c = "fst (tick beats a b m c)"
  have b: "kSaturatedBacklog \<le> b" using Cons.prems(3) x by auto
  have ok: "ctrl_ok m ?c" using tick_ok [OF Cons.prems(1)] Cons.prems(2) by simp
  note st = settled_tick [OF Cons.prems(1,2) b Cons.prems(4), of beats a]
  show ?case
  proof (cases "dc_dwell c + 1 < dc_dwellTarget c")
    case True
    then have "dc_probing (fst (run_ticks beats m xs ?c))"
      using st ok Cons.prems by (intro Cons.IH) auto
    then show ?thesis by (auto simp: x Let_def split: prod.splits)
  next
    case False
    moreover have "1 + int (length xs) = dc_dwellTarget c - dc_dwell c" using Cons.prems(5) by simp
    ultimately have "int (length xs) \<le> 0" by linarith
    then have "xs = []" by simp
    then show ?thesis using False st by (auto simp: x Let_def split: prod.splits)
  qed
qed

text \<open>
  C37: the climb never gets stuck. While at least eight requests are in flight and there are two
  isolates or more, a settled controller trials another width after its remaining dwell time, which is
  at most 50 sweeps.
\<close>

theorem dispatch_probes_again:
  assumes "ctrl_ok maxWidth c" "2 \<le> maxWidth" "\<not> dc_probing c"
    and "\<forall>(a, b) \<in> set samples. kSaturatedBacklog \<le> b" "int (length samples) = dc_dwellTarget c - dc_dwell c"
  shows "dc_probing (fst (run_ticks beats maxWidth samples c)) \<and> length samples \<le> 50"
  using settled_run [OF assms(1,2,4,3,5)] assms(1,5) by (simp add: ctrl_ok_def dwell_consts)

theorem dispatch_probes_again_witness:
  "ctrl_ok 8 new_controller \<and> dc_probing (fst (run_ticks (\<lambda>a b. True) 8 (replicate 4 (100, 9)) new_controller))"
proof -
  have c: "ctrl_ok 8 new_controller" by (rule new_controller_ok) simp
  then show ?thesis
    using dispatch_probes_again [OF c, of "replicate 4 (100, 9)" "\<lambda>a b. True"]
    by (simp add: new_controller_def dwell_consts kSaturatedBacklog_def del: run_ticks.simps replicate.simps)
qed

text \<open>
  The bound is only against the isolate count of the same run: a count that shrinks between two sweeps
  leaves the committed width above it.
\<close>

lemma shrinking_isolates:
  "snd (tick (\<lambda>a b. True) 10 9 2 (new_controller\<lparr>dc_width := 8\<rparr>)) = 8"
  by (simp add: tick_def tick_settled_def new_controller_def dwell_consts kSaturatedBacklog_def)

end
