(* ===== verification/Proxy.thy ===== *)
theory Proxy
  imports HttpBody
begin

text \<open>
  The PROXY protocol header that may precede a connection's first byte: \<open>uvParseProxyHeader\<close> of
  \<open>UvReactor.cpp\<close>, both the text form (version 1) and the binary form (version 2), and the listening
  address of \<open>uvBuildAddr\<close>. The address conversions \<open>inet_pton\<close> and \<open>inet_ntop\<close> are the operating
  system's: they are arguments, \<open>pton\<close> saying whether a text is an address of the family and \<open>ntop\<close>
  giving the text of the bytes (\<open>None\<close> for failure).
\<close>

datatype addr_family = AF_INET | AF_INET6

text \<open>What a C function sees of a \<open>std::string\<close> handed over with \<open>c_str()\<close>.\<close>

definition c_str :: "string \<Rightarrow> string" where
  "c_str s = takeWhile (\<lambda>c. c \<noteq> CHR 0x00) s"

section \<open>The listening address\<close>

text \<open>The family and the port of the address built, or \<open>None\<close> for the return value -1.\<close>

definition uvBuildAddr :: "(addr_family \<Rightarrow> string \<Rightarrow> bool) \<Rightarrow> string \<Rightarrow> int \<Rightarrow> (addr_family \<times> nat) option" where
  "uvBuildAddr pton h pt =
     (if pton AF_INET6 (c_str h) then Some (AF_INET6, nat (pt mod 65536))
      else if \<not> pton AF_INET (c_str h) then None
      else Some (AF_INET, nat (pt mod 65536)))"

definition uvPortOf :: "addr_family \<times> nat \<Rightarrow> int" where
  "uvPortOf ss = int (snd ss)"

section \<open>The header\<close>

text \<open>
  The three outcomes: \<open>0\<close> (more bytes needed), \<open>-1\<close> (not a well-formed header), and \<open>1\<close> with the
  client address it names (empty: keep the socket peer) and the bytes it took.
\<close>

datatype proxy_result = ProxyMore | ProxyBad | ProxyOk string nat

definition kV2Sig :: string where
  "kV2Sig = [CR, LF, CR, LF, CHR 0x00, CR, LF, CHR ''Q'', CHR ''U'', CHR ''I'', CHR ''T'', LF]"

definition kV1 :: string where
  "kV1 = ''PROXY ''"

definition proxy_addr :: "(addr_family \<Rightarrow> string \<Rightarrow> string option) \<Rightarrow> addr_family \<Rightarrow> string \<Rightarrow> nat \<Rightarrow> proxy_result" where
  "proxy_addr ntop af src used = (case ntop af src of None \<Rightarrow> ProxyBad | Some t \<Rightarrow> ProxyOk t used)"

definition proxy_v2 :: "(addr_family \<Rightarrow> string \<Rightarrow> string option) \<Rightarrow> string \<Rightarrow> proxy_result" where
  "proxy_v2 ntop buf =
     (if length buf < 16 then ProxyMore else
      let verCmd = byte_of (buf ! 12); fam = byte_of (buf ! 13);
          len = ord (buf ! 14) * 256 + ord (buf ! 15)
      in if verCmd AND 0xF0 \<noteq> 0x20 then ProxyBad
         else if length buf < 16 + len then ProxyMore
         else let used = 16 + len; cmd = verCmd AND 0x0F; af = drop_bit 4 fam
              in if cmd = 0 then ProxyOk [] used
                 else if cmd \<noteq> 1 then ProxyBad
                 else if af = 1 then
                   (if len < 12 then ProxyBad else proxy_addr ntop AF_INET (substr buf 16 4) used)
                 else if af = 2 then
                   (if len < 36 then ProxyBad else proxy_addr ntop AF_INET6 (substr buf 16 16) used)
                 else if af \<noteq> 0 then ProxyBad
                 else ProxyOk [] used)"

text \<open>\<open>while (pos <= eol)\<close>: the fields between blanks up to the end of the line.\<close>

function proxy_tokens :: "string \<Rightarrow> nat \<Rightarrow> nat \<Rightarrow> string list" where
  "proxy_tokens buf eol pos =
     (if pos \<le> eol then
        (let sp = (case find_from '' '' buf pos of None \<Rightarrow> eol | Some i \<Rightarrow> if i > eol then eol else i)
         in substr buf pos (sp - pos) # proxy_tokens buf eol (sp + 1))
      else [])"
  by pat_completeness auto

termination
  by (relation "measure (\<lambda>(buf, eol, pos). eol + 1 - pos)") (auto dest: find_from_bounds split: option.splits if_splits)

declare proxy_tokens.simps [simp del]

definition bad_port :: "string \<Rightarrow> bool" where
  "bad_port t \<longleftrightarrow> t = [] \<or> length t > 5 \<or> \<not> list_all is_digit t \<or> dec_val t > 65535"

definition proxy_v1_tokens :: "(addr_family \<Rightarrow> string \<Rightarrow> bool) \<Rightarrow> string list \<Rightarrow> nat \<Rightarrow> proxy_result" where
  "proxy_v1_tokens pton tok used =
     (if tok = [] then ProxyBad
      else if tok ! 0 = ''UNKNOWN'' then ProxyOk [] used
      else if length tok \<noteq> 5 then ProxyBad
      else case (if tok ! 0 = ''TCP4'' then Some AF_INET else if tok ! 0 = ''TCP6'' then Some AF_INET6 else None) of
             None \<Rightarrow> ProxyBad
           | Some af \<Rightarrow>
               if \<not> pton af (c_str (tok ! 1)) \<or> \<not> pton af (c_str (tok ! 2)) then ProxyBad
               else if bad_port (tok ! 3) \<or> bad_port (tok ! 4) then ProxyBad
               else ProxyOk (tok ! 1) used)"

definition proxy_v1 :: "(addr_family \<Rightarrow> string \<Rightarrow> bool) \<Rightarrow> string \<Rightarrow> proxy_result" where
  "proxy_v1 pton buf =
     (if take 6 buf \<noteq> take (length buf) kV1 then
        (if length buf < 12 \<and> buf = take (length buf) kV2Sig then ProxyMore else ProxyBad)
      else case find_sub crlf buf of
             None \<Rightarrow> if length buf \<ge> 108 then ProxyBad else ProxyMore
           | Some eol \<Rightarrow>
               if eol > 106 then ProxyBad
               else proxy_v1_tokens pton (proxy_tokens buf eol 6) (eol + 2))"

definition uvParseProxyHeader ::
  "(addr_family \<Rightarrow> string \<Rightarrow> bool) \<Rightarrow> (addr_family \<Rightarrow> string \<Rightarrow> string option) \<Rightarrow> string \<Rightarrow> proxy_result" where
  "uvParseProxyHeader pton ntop buf =
     (if length buf \<ge> 12 \<and> take 12 buf = kV2Sig then proxy_v2 ntop buf else proxy_v1 pton buf)"

section \<open>The verdict does not depend on how the bytes arrive\<close>

lemma len_sigs [simp]: "length kV2Sig = 12" "length kV1 = 6"
  by (simp_all add: kV2Sig_def kV1_def)

lemma take_prefix: "a @ b = take (length (a @ b)) s \<Longrightarrow> a = take (length a) s"
  by (drule arg_cong [where f = "take (length a)"]) (simp only: take_take append_eq_conv_conj length_append min.absorb1 le_add1, simp)

lemma proxy_v2_append:
  assumes "proxy_v2 ntop buf \<noteq> ProxyMore"
  shows "proxy_v2 ntop (buf @ more') = proxy_v2 ntop buf"
proof -
  have n: "16 \<le> length buf" using assms by (rule contrapos_np) (simp add: proxy_v2_def)
  let ?len = "ord (buf ! 14) * 256 + ord (buf ! 15)"
  have "byte_of (buf ! 12) AND 0xF0 \<noteq> 0x20 \<or> 16 + ?len \<le> length buf"
    by (rule ccontr) (use assms n in \<open>simp add: proxy_v2_def Let_def\<close>)
  moreover have "substr (buf @ more') 16 k = substr buf 16 k" if "16 + k \<le> length buf" for k
    using that by (simp add: substr_def)
  ultimately show ?thesis using n by (auto simp: proxy_v2_def Let_def nth_append)
qed

lemma proxy_tokens_append:
  "eol \<le> length buf \<Longrightarrow> proxy_tokens (buf @ more') eol pos = proxy_tokens buf eol pos"
proof (induction buf eol pos rule: proxy_tokens.induct)
  case (1 buf eol pos)
  let ?sp = "\<lambda>b. case find_from '' '' b pos of None \<Rightarrow> eol | Some i \<Rightarrow> if i > eol then eol else i"
  have sp: "?sp (buf @ more') = ?sp buf"
  proof (cases "find_from '' '' buf pos")
    case (Some i)
    then show ?thesis by (simp add: find_from_append)
  next
    case None
    have "eol \<le> j" if "find_from '' '' (buf @ more') pos = Some j" for j
    proof (rule ccontr)
      assume "\<not> eol \<le> j"
      with that 1(2) have "pos \<le> j" "occurs_at '' '' buf j" by (auto simp: find_from_Some_iff occurs_at_1 nth_append)
      with None show False by (auto simp: find_from_None_iff)
    qed
    with None show ?thesis by (auto split: option.splits)
  qed
  have le: "?sp buf \<le> eol" by (auto split: option.splits)
  show ?case
  proof (cases "pos \<le> eol")
    case True
    have "substr (buf @ more') pos (?sp buf - pos) = substr buf pos (?sp buf - pos)"
      using le 1(2) by (auto simp: substr_def)
    with True 1(1) [OF True refl 1(2)] sp show ?thesis
      by (simp add: proxy_tokens.simps [of "buf @ more'"] proxy_tokens.simps [of buf] Let_def)
  qed (simp add: proxy_tokens.simps)
qed

lemma proxy_v1_append:
  assumes "proxy_v1 pton buf \<noteq> ProxyMore" "\<not> (length buf \<ge> 12 \<and> take 12 buf = kV2Sig)"
  shows "uvParseProxyHeader pton ntop (buf @ more') = proxy_v1 pton buf"
proof (cases "take 6 buf = take (length buf) kV1")
  case False
  then have bad: "proxy_v1 pton buf = ProxyBad" and ns: "\<not> (length buf < 12 \<and> buf = take (length buf) kV2Sig)"
    using assms(1) by (auto simp: proxy_v1_def split: if_splits)
  have v1: "take 6 (buf @ more') \<noteq> take (length (buf @ more')) kV1"
  proof
    assume "take 6 (buf @ more') = take (length (buf @ more')) kV1"
    then have "take (length buf) (take 6 (buf @ more')) = take (length buf) kV1" by (simp add: min_def)
    then show False using False by (simp add: min_def split: if_splits)
  qed
  have nos: "take 12 (buf @ more') \<noteq> kV2Sig"
  proof
    assume s: "take 12 (buf @ more') = kV2Sig"
    show False
    proof (cases "length buf \<ge> 12")
      case True then show ?thesis using s assms(2) by simp
    next
      case False
      have "take (length buf) kV2Sig = buf" unfolding s [symmetric] using False by simp
      then show ?thesis using ns False by simp
    qed
  qed
  have "buf @ more' \<noteq> take (length (buf @ more')) kV2Sig" if "length (buf @ more') < 12"
    using ns that take_prefix [of buf more' kV2Sig] by auto
  then show ?thesis using v1 nos bad by (auto simp: uvParseProxyHeader_def proxy_v1_def)
next
  case True
  have n0: "6 \<le> length buf"
  proof (rule ccontr)
    assume "\<not> 6 \<le> length buf"
    then have "find_sub crlf buf = None"
      using True by (auto simp: find_from_None_iff occurs_at_2 kV1_def nth_Cons' take_Cons' split: if_splits)
    then show False using assms(1) True \<open>\<not> 6 \<le> length buf\<close> by (simp add: proxy_v1_def)
  qed
  then have t6: "take 6 buf = kV1" using True by simp
  have hd0: "buf ! 0 = CHR ''P''" using t6 by (metis kV1_def nth_Cons_0 nth_take zero_less_numeral)
  have nos: "take 12 (buf @ more') \<noteq> kV2Sig"
  proof
    assume "take 12 (buf @ more') = kV2Sig"
    then have "take 12 (buf @ more') ! 0 = CR" by (simp add: kV2Sig_def)
    then have "(buf @ more') ! 0 = CR" by (simp only: nth_take zero_less_numeral)
    then show False using hd0 n0 by (cases buf) simp_all
  qed
  have t6': "take 6 (buf @ more') = take (length (buf @ more')) kV1" using n0 t6 by simp
  show ?thesis
  proof (cases "find_sub crlf buf")
    case (Some eol)
    then show ?thesis using nos t6' True find_from_bounds [OF Some]
      by (simp add: uvParseProxyHeader_def proxy_v1_def find_from_append proxy_tokens_append)
  next
    case None
    then have big: "108 \<le> length buf" "proxy_v1 pton buf = ProxyBad" using assms(1) True by (auto simp: proxy_v1_def split: if_splits)
    have "107 \<le> j" if "find_sub crlf (buf @ more') = Some j" for j
      using that None big(1) by (force simp: find_from_Some_iff find_from_None_iff occurs_at_2 nth_append not_le split: if_splits)
    then show ?thesis using nos t6' big by (fastforce simp: uvParseProxyHeader_def proxy_v1_def split: option.splits)
  qed
qed

text \<open>
  C19: the PROXY header is read the same however its bytes are split over reads. Once a prefix of the
  stream is accepted or refused, the verdict, the address and the number of bytes taken are the same
  for every continuation, and the bytes taken lie inside that prefix; while the parser asks for more,
  what it has buffered stays below 16 + 65535 bytes.
\<close>

theorem proxy_header_stable:
  "case uvParseProxyHeader pton ntop buf of
     ProxyMore \<Rightarrow> length buf < 16 + 65535
   | ProxyBad \<Rightarrow> uvParseProxyHeader pton ntop (buf @ bs) = ProxyBad
   | ProxyOk ip used \<Rightarrow> used \<le> length buf \<and> uvParseProxyHeader pton ntop (buf @ bs) = ProxyOk ip used"
proof -
  let ?v2 = "length buf \<ge> 12 \<and> take 12 buf = kV2Sig"
  have v2': "uvParseProxyHeader pton ntop (buf @ bs) = proxy_v2 ntop (buf @ bs)" if ?v2
    using that by (simp add: uvParseProxyHeader_def)
  have len: "ord (buf ! 14) * 256 + ord (buf ! 15) \<le> 65535" using ord_less_256 [of "buf ! 14"] ord_less_256 [of "buf ! 15"] by linarith
  have used: "used \<le> length buf" if "uvParseProxyHeader pton ntop buf = ProxyOk ip used" for ip used
    using that by (auto simp: uvParseProxyHeader_def proxy_v2_def proxy_v1_def proxy_v1_tokens_def proxy_addr_def Let_def
        dest!: find_from_bounds split: if_splits option.splits)
  have wait: "length buf < 16 + 65535" if "uvParseProxyHeader pton ntop buf = ProxyMore"
    using that len by (auto simp: uvParseProxyHeader_def proxy_v2_def proxy_v1_def proxy_v1_tokens_def proxy_addr_def Let_def
        split: if_splits option.splits)
  have "uvParseProxyHeader pton ntop (buf @ bs) = uvParseProxyHeader pton ntop buf" if "uvParseProxyHeader pton ntop buf \<noteq> ProxyMore"
    using that v2' proxy_v2_append [of ntop buf bs] proxy_v1_append [of pton buf ntop bs]
    by (cases ?v2) (auto simp: uvParseProxyHeader_def)
  then show ?thesis using used wait by (auto split: proxy_result.splits)
qed

section \<open>Well-formed headers are accepted\<close>

definition v1_line :: "string \<Rightarrow> string \<Rightarrow> string \<Rightarrow> nat \<Rightarrow> nat \<Rightarrow> string" where
  "v1_line proto src dst sport dport =
     kV1 @ proto @ '' '' @ src @ '' '' @ dst @ '' '' @ to_string_nat sport @ '' '' @ to_string_nat dport @ crlf"

definition v2_header :: "nat \<Rightarrow> string \<Rightarrow> string" where
  "v2_header fam addrs =
     kV2Sig @ [char_of (0x21::nat), char_of fam, char_of (length addrs div 256), char_of (length addrs mod 256)] @ addrs"

text \<open>A field of the text form: no blank, no line end, no NUL.\<close>

definition v1_field :: "string \<Rightarrow> bool" where
  "v1_field s \<longleftrightarrow> CHR '' '' \<notin> set s \<and> CR \<notin> set s \<and> CHR 0x00 \<notin> set s"

lemma proxy_tokens_step:
  assumes "CHR '' '' \<notin> set a" "buf = p @ a @ CHR '' '' # b" "length p + length a < eol"
  shows "proxy_tokens buf eol (length p) = a # proxy_tokens buf eol (length p + length a + 1)"
  using assms find_char_append [OF assms(1), of p b]
  by (simp add: proxy_tokens.simps [of _ _ "length p"] Let_def)

lemma proxy_tokens_last:
  assumes "CHR '' '' \<notin> set a" "buf = p @ a @ CR # b" "eol = length p + length a"
  shows "proxy_tokens buf eol (length p) = [a]"
proof -
  have "eol < j" if "find_from '' '' buf (length p) = Some j" for j
  proof -
    from that have j: "length p \<le> j" "j < length buf" "buf ! j = CHR '' ''" by (auto simp: find_from_Some_iff occurs_at_1)
    show "eol < j"
    proof (rule ccontr)
      assume "\<not> eol < j"
      then have "buf ! j \<in> set (a @ [CR])" using j(1) assms(2,3)
        by (auto simp: nth_append nth_Cons' intro!: nth_mem)
      with j(3) assms(1) show False by auto
    qed
  qed
  then have c: "(case find_from '' '' buf (length p) of None \<Rightarrow> eol | Some i \<Rightarrow> if i > eol then eol else i) = eol"
    by (auto split: option.splits)
  have "proxy_tokens buf eol (length p) = substr buf (length p) (eol - length p) # proxy_tokens buf eol (eol + 1)"
    unfolding proxy_tokens.simps [of buf eol "length p"] Let_def c using assms(3) by simp
  then show ?thesis using assms(2,3) by (simp add: proxy_tokens.simps [of _ _ "Suc _"])
qed

lemma port_ok: "n \<le> 65535 \<Longrightarrow> \<not> bad_port (to_string_nat n)"
  using length_to_digits [of 10 5 n]
  by (auto simp: bad_port_def list_all_iff dest: to_string_nat_digits) (auto simp: to_string_nat_def)

lemma digits_field: "v1_field (to_string_nat n)"
  by (auto simp: v1_field_def dest!: to_string_nat_digits) (auto simp: is_digit_def ord_def)

lemma c_str_field: "v1_field s \<Longrightarrow> c_str s = s"
  by (auto simp: v1_field_def c_str_def takeWhile_eq_all_conv)

text \<open>
  C38: well-formed PROXY headers are accepted. A text header of at most 107 bytes that names a TCP4 or
  TCP6 client, and a binary header that carries an address the platform can print, both yield exactly
  that client's address and consume exactly the header, whatever bytes follow it.
\<close>

theorem proxy_header_accepted:
  assumes v1: "proto = (if af = AF_INET then ''TCP4'' else ''TCP6'')" "v1_field src" "v1_field dst" "pton af src" "pton af dst"
      "sport \<le> 65535" "dport \<le> 65535" "length (v1_line proto src dst sport dport) \<le> 107"
    and v2: "ntop af addr = Some txt" "length addr = (if af = AF_INET then 4 else 16)"
      "length (addr @ tail) = alen" "(if af = AF_INET then 12 else 36) \<le> alen" "alen \<le> 65535"
  shows "uvParseProxyHeader pton ntop (v1_line proto src dst sport dport @ rest) =
      ProxyOk src (length (v1_line proto src dst sport dport)) \<and>
    uvParseProxyHeader pton ntop (v2_header (if af = AF_INET then 0x11 else 0x21) (addr @ tail) @ rest) =
      ProxyOk txt (length (v2_header (if af = AF_INET then 0x11 else 0x21) (addr @ tail)))"
proof
  let ?line = "v1_line proto src dst sport dport" and ?sp = "to_string_nat sport" and ?dp = "to_string_nat dport"
  let ?buf = "?line @ rest"
  let ?eol = "length ?line - 2"
  have pr: "CHR '' '' \<notin> set proto" "CR \<notin> set proto" "proto \<noteq> ''UNKNOWN''" using v1(1) by auto
  have fs: "CHR '' '' \<notin> set src" "CHR '' '' \<notin> set dst" "CHR '' '' \<notin> set ?sp" "CHR '' '' \<notin> set ?dp"
    "CR \<notin> set src" "CR \<notin> set dst" "CR \<notin> set ?sp" "CR \<notin> set ?dp"
    using v1(2,3) digits_field [of sport] digits_field [of dport] by (auto simp: v1_field_def)
  have eol: "find_sub crlf ?buf = Some ?eol"
    using find_crlf_append [of "kV1 @ proto @ '' '' @ src @ '' '' @ dst @ '' '' @ ?sp @ '' '' @ ?dp" "[]" rest] pr fs
    by (simp add: v1_line_def kV1_def)
  have toks: "proxy_tokens ?buf ?eol 6 = [proto, src, dst, ?sp, ?dp]"
  proof -
    have "proxy_tokens ?buf ?eol 6 = proto # proxy_tokens ?buf ?eol (6 + length proto + 1)"
      using proxy_tokens_step [of proto ?buf kV1 _ ?eol] pr by (simp add: v1_line_def)
    also have "proxy_tokens ?buf ?eol (6 + length proto + 1) = src # proxy_tokens ?buf ?eol (6 + length proto + 1 + length src + 1)"
      using proxy_tokens_step [of src ?buf "kV1 @ proto @ '' ''" _ ?eol] fs by (simp add: v1_line_def)
    also have "proxy_tokens ?buf ?eol (6 + length proto + 1 + length src + 1) =
        dst # proxy_tokens ?buf ?eol (6 + length proto + 1 + length src + 1 + length dst + 1)"
      using proxy_tokens_step [of dst ?buf "kV1 @ proto @ '' '' @ src @ '' ''" _ ?eol] fs by (simp add: v1_line_def ac_simps)
    also have "proxy_tokens ?buf ?eol (6 + length proto + 1 + length src + 1 + length dst + 1) =
        ?sp # proxy_tokens ?buf ?eol (6 + length proto + 1 + length src + 1 + length dst + 1 + length ?sp + 1)"
      using proxy_tokens_step [of ?sp ?buf "kV1 @ proto @ '' '' @ src @ '' '' @ dst @ '' ''" _ ?eol] fs by (simp add: v1_line_def ac_simps)
    also have "proxy_tokens ?buf ?eol (6 + length proto + 1 + length src + 1 + length dst + 1 + length ?sp + 1) = [?dp]"
      using proxy_tokens_last [of ?dp ?buf "kV1 @ proto @ '' '' @ src @ '' '' @ dst @ '' '' @ ?sp @ '' ''" _ ?eol] fs
      by (simp add: v1_line_def ac_simps)
    finally show ?thesis .
  qed
  have "take 12 ?buf \<noteq> kV2Sig" by (simp add: v1_line_def kV1_def kV2Sig_def)
  moreover have "take 6 ?buf = take (length ?buf) kV1" by (simp add: v1_line_def)
  moreover have "proxy_v1_tokens pton [proto, src, dst, ?sp, ?dp] used = ProxyOk src used" for used
    using v1(1-7) by (cases af) (simp_all add: proxy_v1_tokens_def port_ok c_str_field)
  moreover have "?eol + 2 = length ?line" "\<not> 106 < ?eol" using v1(8) by (auto simp: v1_line_def)
  ultimately show "uvParseProxyHeader pton ntop ?buf = ProxyOk src (length ?line)"
    by (simp add: uvParseProxyHeader_def proxy_v1_def toks eol)
next
  let ?fam = "if af = AF_INET then 0x11 else 0x21 :: nat"
  let ?buf = "v2_header ?fam (addr @ tail) @ rest"
  have n: "ord (?buf ! 14) * 256 + ord (?buf ! 15) = alen"
    using v2(3,5) by (simp add: v2_header_def nth_append kV2Sig_def ord_def)
  have b: "byte_of (?buf ! 12) = 0x21" "byte_of (?buf ! 13) = word_of_nat ?fam"
    by (simp_all add: v2_header_def nth_append kV2Sig_def byte_of_def of_char_word_nat)
  have s: "substr ?buf 16 (length addr) = addr"
    by (simp add: v2_header_def substr_def kV2Sig_def)
  have l: "length (v2_header ?fam (addr @ tail)) = 16 + alen" using v2(3) by (simp add: v2_header_def)
  have sig: "take 12 (v2_header f x) = kV2Sig" for f x by (simp add: v2_header_def)
  show "uvParseProxyHeader pton ntop ?buf = ProxyOk txt (length (v2_header ?fam (addr @ tail)))"
    using v2 s n b l by (cases af) (simp_all add: uvParseProxyHeader_def sig proxy_v2_def proxy_addr_def Let_def)
qed

text \<open>A platform that prints an IPv4 address as four decimal numbers and an IPv6 one as hexadecimal bytes.\<close>

definition sample_ntop :: "addr_family \<Rightarrow> string \<Rightarrow> string option" where
  "sample_ntop af bs = Some (concat (map (\<lambda>c. to_string_nat (ord c) @ ''.'') (butlast bs)) @ to_string_nat (ord (last bs)))"

definition sample_pton :: "addr_family \<Rightarrow> string \<Rightarrow> bool" where
  "sample_pton af s \<longleftrightarrow> (case af of AF_INET \<Rightarrow> CHR ''.'' \<in> set s | AF_INET6 \<Rightarrow> CHR '':'' \<in> set s)"

theorem proxy_header_accepted_witness:
  "uvParseProxyHeader sample_pton sample_ntop (v1_line ''TCP4'' ''10.0.0.1'' ''10.0.0.2'' 4711 80 @ ''GET'') = ProxyOk ''10.0.0.1'' 38 \<and>
   uvParseProxyHeader sample_pton sample_ntop
     (v2_header 0x11 (map char_of [10::nat, 0, 0, 1] @ map char_of [10::nat, 0, 0, 2, 0, 80, 0, 81]) @ ''GET'') = ProxyOk ''10.0.0.1'' 28"
proof -
  let ?a = "map char_of [10::nat, 0, 0, 1]" and ?t = "map char_of [10::nat, 0, 0, 2, 0, 80, 0, 81]"
  have w1: "length (v1_line ''TCP4'' ''10.0.0.1'' ''10.0.0.2'' 4711 80) = 38" by code_simp
  have w2: "to_string_nat (Suc 0) = ''1''" "to_string_nat 0 = ''0''" "to_string_nat 10 = ''10''" by code_simp+
  have "uvParseProxyHeader sample_pton sample_ntop (v1_line ''TCP4'' ''10.0.0.1'' ''10.0.0.2'' 4711 80 @ ''GET'') =
      ProxyOk ''10.0.0.1'' (length (v1_line ''TCP4'' ''10.0.0.1'' ''10.0.0.2'' 4711 80)) \<and>
    uvParseProxyHeader sample_pton sample_ntop (v2_header (if AF_INET = AF_INET then 0x11 else 0x21) (?a @ ?t) @ ''GET'') =
      ProxyOk ''10.0.0.1'' (length (v2_header (if AF_INET = AF_INET then 0x11 else 0x21) (?a @ ?t)))"
    by (rule proxy_header_accepted [where af = AF_INET and alen = 12 and proto = "''TCP4''"]) (simp_all add: v1_field_def sample_pton_def sample_ntop_def w1 w2)
  moreover note w1
  moreover have "length (v2_header 0x11 (?a @ ?t)) = 28" by code_simp
  ultimately show ?thesis by (simp only: if_True refl)
qed

text \<open>
  The text form compares the address only up to a NUL byte, but reports the field whole: bytes after
  the NUL reach the handlers and the per-address table.
\<close>

lemma proxy_v1_nul_kept:
  assumes "pton AF_INET ''1.2.3.4''"
  shows "proxy_v1_tokens pton [''TCP4'', ''1.2.3.4'' @ [CHR 0x00] @ ''evil'', ''1.2.3.4'', ''1'', ''2''] 40 =
    ProxyOk (''1.2.3.4'' @ [CHR 0x00] @ ''evil'') 40"
  using assms by (simp add: proxy_v1_tokens_def c_str_def bad_port_def is_digit_def ord_def dec_val_def from_digits_def)

end
