(* ===== verification/ReactorState.thy ===== *)
theory ReactorState
  imports Proxy RouterMatch PendingTable DispatchController WsUtf8
begin

text \<open>
  The state of the event-loop reactor (\<open>UvReactor.h\<close>, and \<open>struct UvReactor::Conn\<close> of
  \<open>UvReactor.cpp\<close>) and the operations that only move data in it: routes, dispatch sinks, the request
  table, the cross-thread queue and the socket writes. The model is of a server that serves plain
  HTTP/1.1 and WebSocket: no certificate is configured and HTTP/2 is compiled out, the default build.

  A \<open>Conn*\<close> is the connection's id, an index into \<open>conns\<close>; \<open>alive\<close> lists the objects not yet
  deleted, and \<open>drainWrites\<close> the refused connections whose 503 is still being written. What libuv keeps for a handle is in the fields \<open>h_closing\<close> (\<open>uv_is_closing\<close>), \<open>h_reading\<close>
  and \<open>h_writes\<close> (write requests not completed, oldest first). Calls that leave the engine are
  logged in \<open>effects\<close>, oldest first: what the sinks are told, the bytes handed to the sockets, closed
  handles and files, and loop wake-ups. Times are nanoseconds of the steady clock, and an operation
  reads the clock once.
\<close>

section \<open>State\<close>

record WriteCtx =
  wc_payload :: string
  wc_keepAlive :: bool
  wc_finish :: bool

record Conn =
  h_closing :: bool
  h_reading :: bool
  h_writes :: "WriteCtx list"
  c_lp :: nat
  c_buf :: string
  c_busy :: bool
  c_closing :: bool
  c_counted :: bool
  c_peerIp :: string
  c_clientIp :: string
  c_served :: int
  c_reqIdInFlight :: int
  c_continueSent :: bool
  c_streamingBody :: bool
  c_streamChunked :: bool
  c_streamReqId :: int
  c_streamEmitter :: "nat option"
  c_bodyRemaining :: nat
  c_chunkRemaining :: nat
  c_chunkNeedCrlf :: bool
  c_streamMaxBody :: int
  c_streamBodyTotal :: int
  c_fileFd :: int
  c_fileOffset :: int
  c_fileRemaining :: int
  c_fileKeepAlive :: bool
  c_writePending :: int
  c_writeStartedAt :: int
  c_lastActive :: int
  c_responseStarted :: bool
  c_lastWriteAt :: int
  c_openedAt :: int
  c_reqDeadline :: int
  c_hasDeadline :: bool
  c_bodyPending :: bool
  c_headPending :: bool
  c_headStartedAt :: int
  c_proxyDone :: bool
  c_proxyBuf :: string
  c_ageExpired :: bool
  c_wsPingSent :: bool
  c_ws :: bool
  c_wsEmitter :: "nat option"
  c_wsMsg :: string
  c_wsMsgOpcode :: int
  c_wsMsgCompressed :: bool
  c_wsClosing :: bool
  c_deflate :: bool

definition new_conn :: Conn where
  "new_conn = \<lparr>h_closing = False, h_reading = False, h_writes = [], c_lp = 0, c_buf = [], c_busy = False,
     c_closing = False, c_counted = False, c_peerIp = [], c_clientIp = [], c_served = 0, c_reqIdInFlight = -1,
     c_continueSent = False, c_streamingBody = False, c_streamChunked = False, c_streamReqId = 0,
     c_streamEmitter = None, c_bodyRemaining = 0, c_chunkRemaining = 0, c_chunkNeedCrlf = False,
     c_streamMaxBody = -1, c_streamBodyTotal = 0, c_fileFd = -1, c_fileOffset = 0, c_fileRemaining = 0,
     c_fileKeepAlive = False, c_writePending = 0, c_writeStartedAt = 0, c_lastActive = 0,
     c_responseStarted = False, c_lastWriteAt = 0, c_openedAt = 0, c_reqDeadline = 0, c_hasDeadline = False,
     c_bodyPending = False, c_headPending = False, c_headStartedAt = 0, c_proxyDone = False, c_proxyBuf = [],
     c_ageExpired = False, c_wsPingSent = False, c_ws = False, c_wsEmitter = None, c_wsMsg = [],
     c_wsMsgOpcode = -1, c_wsMsgCompressed = False, c_wsClosing = False, c_deflate = False\<rparr>"

record Pending =
  q_connId :: int
  q_bytes :: string
  q_keepAlive :: bool
  q_finish :: bool
  q_fileFd :: int
  q_fileOffset :: int
  q_fileRemaining :: int

text \<open>The aggregate initialiser \<open>{connId, bytes, keepAlive, finish}\<close>: no file.\<close>

definition mk_pending :: "int \<Rightarrow> string \<Rightarrow> bool \<Rightarrow> bool \<Rightarrow> Pending" where
  "mk_pending cid bs ka fin = \<lparr>q_connId = cid, q_bytes = bs, q_keepAlive = ka, q_finish = fin,
     q_fileFd = -1, q_fileOffset = 0, q_fileRemaining = 0\<rparr>"

record Loop =
  lp_conns :: "int list"
  lp_queue :: "Pending list"
  lp_stopping :: bool
  lp_serverClosing :: bool
  lp_asyncClosing :: bool
  lp_sweepClosing :: bool

definition new_loop :: Loop where
  "new_loop = \<lparr>lp_conns = [], lp_queue = [], lp_stopping = False, lp_serverClosing = False,
     lp_asyncClosing = False, lp_sweepClosing = False\<rparr>"

record ReqLoc =
  rl_loopIdx :: nat
  rl_connId :: int
  rl_isHead :: bool
  rl_keepAlive :: bool

datatype effect =
    Emitted nat emit_call
  | UvWrite int string
  | UvClose int
  | UvAbort int
  | UvAsyncSend nat
  | FsClose int

record Reactor =
  emitters :: "nat list"
  emitterRr :: u64
  dispatchWidth :: nat
  dispatch :: DispatchController
  completions :: int
  ctlLastCompletions :: int
  ctlEnabled :: bool
  cfg :: ServerConfig
  rt_table :: router
  bound_port :: int
  reservedPort :: int
  liveConns :: int
  nextId :: int
  running :: bool
  draining :: bool
  loops :: "Loop list"
  pending :: PendingTable
  reqLoc :: "(int \<times> ReqLoc) list"
  wsConnLoop :: "(int \<times> nat) list"
  ipCounts :: "(string \<times> int) list"
  conns :: "int \<Rightarrow> Conn"
  alive :: "int list"
  drainWrites :: "int list"
  next_ptr :: nat
  effects :: "effect list"

definition new_reactor :: Reactor where
  "new_reactor = \<lparr>emitters = [], emitterRr = 0, dispatchWidth = 0, dispatch = new_controller, completions = 0,
     ctlLastCompletions = 0, ctlEnabled = True, cfg = default_config, rt_table = new_router, bound_port = 0,
     reservedPort = 0, liveConns = 0, nextId = 1, running = False, draining = False, loops = [],
     pending = new_table, reqLoc = [], wsConnLoop = [], ipCounts = [], conns = (\<lambda>_. new_conn), alive = [],
     drainWrites = [], next_ptr = 0, effects = []\<rparr>"

text \<open>
  What an operation reads of its surroundings: the steady clock, the calendar clock (whole seconds, for
  the Date line), which allocations succeed, the address conversions and the bytes of open files
  (\<open>None\<close> for a read error).
\<close>

record Env =
  e_now :: int
  e_time :: nat
  e_malloc :: "nat \<Rightarrow> bool"
  e_pton :: "addr_family \<Rightarrow> string \<Rightarrow> bool"
  e_ntop :: "addr_family \<Rightarrow> string \<Rightarrow> string option"
  e_read :: "int \<Rightarrow> int \<Rightarrow> nat \<Rightarrow> string option"

text \<open>\<open>std::chrono::milliseconds\<close> on the nanosecond clock.\<close>

definition ms :: "int \<Rightarrow> int" where
  "ms v = v * 1000000"

section \<open>Effects\<close>

definition log_effect :: "effect \<Rightarrow> Reactor \<Rightarrow> Reactor" where
  "log_effect e r = r\<lparr>effects := effects r @ [e]\<rparr>"

definition upd_conn :: "int \<Rightarrow> (Conn \<Rightarrow> Conn) \<Rightarrow> Reactor \<Rightarrow> Reactor" where
  "upd_conn c f r = r\<lparr>conns := (conns r)(c := f (conns r c))\<rparr>"

definition upd_loop :: "nat \<Rightarrow> (Loop \<Rightarrow> Loop) \<Rightarrow> Reactor \<Rightarrow> Reactor" where
  "upd_loop i f r = r\<lparr>loops := (loops r)[i := f (loops r ! i)]\<rparr>"

text \<open>\<open>uv_close\<close> on a connection's handle. libuv aborts the process when the handle is already closing.\<close>

definition uv_close :: "int \<Rightarrow> Reactor \<Rightarrow> Reactor" where
  "uv_close c r =
     (if h_closing (conns r c) then log_effect (UvAbort c) r
      else log_effect (UvClose c) (upd_conn c (\<lambda>k. k\<lparr>h_closing := True, h_reading := False\<rparr>) r))"

text \<open>\<open>if (!uv_is_closing(h)) uv_close(h, onCloseConn);\<close>\<close>

definition close_if_open :: "int \<Rightarrow> Reactor \<Rightarrow> Reactor" where
  "close_if_open c r = (if \<not> h_closing (conns r c) then uv_close c r else r)"

definition emit :: "nat \<Rightarrow> emit_call \<Rightarrow> Reactor \<Rightarrow> Reactor" where
  "emit e x r = log_effect (Emitted e x) r"

text \<open>
  \<open>malloc\<close> a copy of the bytes, log it in the pending table under the id, and hand it to the sink; an
  allocation that fails skips both.
\<close>

definition emit_payload :: "Env \<Rightarrow> int \<Rightarrow> nat option \<Rightarrow> (nat \<Rightarrow> emit_call) \<Rightarrow> Reactor \<Rightarrow> Reactor" where
  "emit_payload env i em mk r =
     (let p = next_ptr r in
      if \<not> e_malloc env p then r
      else let r1 = r\<lparr>next_ptr := p + 1, pending := fst (trackPayload i p (pending r))\<rparr>
           in case em of None \<Rightarrow> r1 | Some e \<Rightarrow> emit e (mk p) r1)"

section \<open>Routes\<close>

definition registerRouteEntry :: "RouteEntry \<Rightarrow> Reactor \<Rightarrow> Reactor \<times> StatusResult" where
  "registerRouteEntry e r =
     (case add (rt_table r) e of (rt, ok) \<Rightarrow>
        if \<not> ok then (r\<lparr>rt_table := rt\<rparr>, \<lparr>kind = BadRequest, message = ''invalid route'', boundPort = 0\<rparr>)
        else (r\<lparr>rt_table := rt\<rparr>, status_ok))"

text \<open>\<open>while (s < en && v[s] == ' ')\<close> and its mirror image: blanks only, unlike \<open>uvTrim\<close>.\<close>

definition trim_blanks :: "string \<Rightarrow> string" where
  "trim_blanks s = rev (dropWhile (\<lambda>c. c = CHR '' '') (rev (dropWhile (\<lambda>c. c = CHR '' '') s)))"

function ws_protocol_list :: "string \<Rightarrow> nat \<Rightarrow> string list" where
  "ws_protocol_list v b =
     (if b \<le> length v then
        (let c = (case find_from '','' v b of None \<Rightarrow> length v | Some i \<Rightarrow> i);
             t = trim_blanks (substr v b (c - b))
         in (if t \<noteq> [] then [t] else []) @ ws_protocol_list v (c + 1))
      else [])"
  by pat_completeness auto

termination
  by (relation "measure (\<lambda>(v, b). length v + 1 - b)") (auto dest: find_from_bounds split: option.splits)

declare ws_protocol_list.simps [simp del]

definition registerRoute ::
  "Method \<Rightarrow> string \<Rightarrow> string \<Rightarrow> int \<Rightarrow> bool \<Rightarrow> bool \<Rightarrow> int \<Rightarrow> string \<Rightarrow> Reactor \<Rightarrow> Reactor \<times> StatusResult" where
  "registerRoute m custom pattern timeoutMs isWebSocket streamBody maxBody wsProtocols r =
     registerRouteEntry (default_route\<lparr>re_method := m, re_customMethod := custom, re_pattern := pattern,
        re_timeoutMs := timeoutMs, re_isWebSocket := isWebSocket, re_streamBody := streamBody,
        re_maxBodyBytes := maxBody, re_wsProtocols := ws_protocol_list wsProtocols 0\<rparr>) r"

definition registerStaticRoute ::
  "Method \<Rightarrow> string \<Rightarrow> string \<Rightarrow> int \<Rightarrow> header list \<Rightarrow> string \<Rightarrow> Reactor \<Rightarrow> Reactor \<times> StatusResult" where
  "registerStaticRoute m custom pattern status headers body r =
     registerRouteEntry (default_route\<lparr>re_method := m, re_customMethod := custom, re_pattern := pattern,
        re_staticResponse := Some \<lparr>sr_status = status, sr_headers = headers, sr_body = body\<rparr>\<rparr>) r"

definition unregisterRoute :: "Method \<Rightarrow> string \<Rightarrow> string \<Rightarrow> Reactor \<Rightarrow> Reactor \<times> StatusResult" where
  "unregisterRoute m custom pattern r =
     (case remove (rt_table r) m custom pattern of (rt, ok) \<Rightarrow>
        if \<not> ok then (r\<lparr>rt_table := rt\<rparr>, \<lparr>kind = RouteNotFound, message = ''no such route: '' @ pattern, boundPort = 0\<rparr>)
        else (r\<lparr>rt_table := rt\<rparr>, status_ok))"

section \<open>Dispatch sinks\<close>

definition setEmitter :: "nat option \<Rightarrow> Reactor \<Rightarrow> Reactor" where
  "setEmitter e r = r\<lparr>emitters := (case e of None \<Rightarrow> [] | Some x \<Rightarrow> [x])\<rparr>"

definition addEmitter :: "nat \<Rightarrow> Reactor \<Rightarrow> Reactor" where
  "addEmitter e r = (if e \<in> set (emitters r) then r else r\<lparr>emitters := emitters r @ [e]\<rparr>)"

definition removeEmitter :: "nat \<Rightarrow> Reactor \<Rightarrow> Reactor \<times> bool" where
  "removeEmitter e r =
     (let es = filter (\<lambda>x. x \<noteq> e) (emitters r)
      in (r\<lparr>emitters := es\<rparr>, length es \<noteq> length (emitters r)))"

definition nextEmitter :: "Reactor \<Rightarrow> Reactor \<times> nat option" where
  "nextEmitter r =
     (if emitters r = [] then (r, None)
      else let n = length (emitters r); d = dispatchWidth r;
               w = (if d = 0 \<or> d > n then n else d); i = unat (emitterRr r)
           in (r\<lparr>emitterRr := emitterRr r + 1\<rparr>, Some (emitters r ! (n - w + i mod w))))"

definition broadcastEvent :: "ServerEventKind \<Rightarrow> int \<Rightarrow> string \<Rightarrow> Reactor \<Rightarrow> Reactor" where
  "broadcastEvent k i msg r = fold (\<lambda>e. emit e (EmitEvent k i msg)) (emitters r) r"

definition setDispatchWidthForTesting :: "nat \<Rightarrow> Reactor \<Rightarrow> Reactor" where
  "setDispatchWidthForTesting w r = r\<lparr>dispatchWidth := w, ctlEnabled := False\<rparr>"

definition runDispatchController :: "(int \<Rightarrow> int \<Rightarrow> bool) \<Rightarrow> Reactor \<Rightarrow> Reactor" where
  "runDispatchController faster r =
     (if \<not> ctlEnabled r then r
      else let comp = completions r; answers = comp - ctlLastCompletions r;
               (d, w) = tick faster answers (int (length (reqLoc r))) (length (emitters r)) (dispatch r)
           in r\<lparr>ctlLastCompletions := comp, dispatch := d, dispatchWidth := w\<rparr>)"

section \<open>The request table and the cross-thread queue\<close>

definition configure :: "ServerConfig \<Rightarrow> Reactor \<Rightarrow> Reactor" where
  "configure c r = r\<lparr>cfg := c\<rparr>"

text \<open>\<open>(cfg_.keepAliveTimeoutMs + 999) / 1000\<close> rounds towards zero.\<close>

definition keepAliveHeaderSecs :: "Reactor \<Rightarrow> int" where
  "keepAliveHeaderSecs r =
     (if keepAliveHeader (cfg r) then
        (let v = keepAliveTimeoutMs (cfg r) + 999 in if v \<ge> 0 then v div 1000 else - ((- v) div 1000))
      else -1)"

definition lookupReq :: "int \<Rightarrow> bool \<Rightarrow> Reactor \<Rightarrow> Reactor \<times> ReqLoc option" where
  "lookupReq i er r =
     (case map_of (reqLoc r) i of
        None \<Rightarrow> (r, None)
      | Some loc \<Rightarrow>
          (if er then r\<lparr>reqLoc := AList.delete i (reqLoc r), pending := erase i (pending r)\<rparr> else r, Some loc))"

definition inFlightRequests :: "Reactor \<Rightarrow> int" where
  "inFlightRequests r = int (length (reqLoc r))"

definition overInFlightBudget :: "Reactor \<Rightarrow> bool" where
  "overInFlightBudget r \<longleftrightarrow>
     \<not> maxInFlightRequests (cfg r) \<le> 0 \<and> int (length (reqLoc r)) \<ge> maxInFlightRequests (cfg r)"

definition push_queue :: "nat \<Rightarrow> Pending \<Rightarrow> Reactor \<Rightarrow> Reactor" where
  "push_queue i p r = log_effect (UvAsyncSend i) (upd_loop i (\<lambda>l. l\<lparr>lp_queue := lp_queue l @ [p]\<rparr>) r)"

definition pushWrite :: "ReqLoc \<Rightarrow> string \<Rightarrow> bool \<Rightarrow> Reactor \<Rightarrow> Reactor" where
  "pushWrite loc bs fin r = push_queue (rl_loopIdx loc) (mk_pending (rl_connId loc) bs (rl_keepAlive loc) fin) r"

definition ackBody :: "int \<Rightarrow> int \<Rightarrow> Reactor \<Rightarrow> Reactor" where
  "ackBody i n r = r\<lparr>pending := ack i n (pending r)\<rparr>"

definition beginDrain :: "Reactor \<Rightarrow> Reactor" where
  "beginDrain r = r\<lparr>draining := True\<rparr>"

section \<open>Writing\<close>

text \<open>The tail of \<open>writeAnswer\<close> and \<open>writeRaw\<close>: account the bytes and start the write.\<close>

definition start_write :: "Env \<Rightarrow> int \<Rightarrow> string \<Rightarrow> bool \<Rightarrow> bool \<Rightarrow> Reactor \<Rightarrow> Reactor" where
  "start_write env c bs ka fin r =
     log_effect (UvWrite c bs)
       (upd_conn c (\<lambda>k. k\<lparr>c_writeStartedAt := (if c_writePending k = 0 then e_now env else c_writeStartedAt k),
            c_writePending := c_writePending k + int (length bs),
            h_writes := h_writes k @ [\<lparr>wc_payload = bs, wc_keepAlive = ka, wc_finish = fin\<rparr>]\<rparr>) r)"

definition begin_answer :: "Env \<Rightarrow> int \<Rightarrow> string \<Rightarrow> bool \<Rightarrow> bool \<Rightarrow> Reactor \<Rightarrow> Reactor" where
  "begin_answer env c bs ka fin r =
     start_write env c bs ka fin
       (upd_conn c (\<lambda>k. k\<lparr>c_busy := True, c_hasDeadline := False, c_responseStarted := True,
            c_lastWriteAt := e_now env\<rparr>) r)"

definition drop_slow_reader :: "int \<Rightarrow> Reactor \<Rightarrow> Reactor" where
  "drop_slow_reader c r =
     close_if_open c (upd_conn c (\<lambda>k. k\<lparr>c_closing := True\<rparr>)
       (broadcastEvent ClientError c ''stream buffer limit exceeded'' r))"

definition ws_over_buffer :: "int \<Rightarrow> Reactor \<Rightarrow> bool" where
  "ws_over_buffer c r \<longleftrightarrow>
     c_ws (conns r c) \<and> \<not> c_wsClosing (conns r c) \<and> wsMaxBufferBytes (cfg r) > 0 \<and>
     c_writePending (conns r c) > wsMaxBufferBytes (cfg r)"

definition stream_over_buffer :: "int \<Rightarrow> bool \<Rightarrow> Reactor \<Rightarrow> bool" where
  "stream_over_buffer c fin r \<longleftrightarrow>
     \<not> c_ws (conns r c) \<and> \<not> fin \<and> streamMaxBufferBytes (cfg r) > 0 \<and>
     c_writePending (conns r c) > streamMaxBufferBytes (cfg r) \<and> \<not> c_closing (conns r c)"

text \<open>
  The close frame's payload: \<open>(code >> 8) & 0xff\<close>, \<open>code & 0xff\<close>.
\<close>

definition close_payload :: "int \<Rightarrow> bytes" where
  "close_payload code = [word_of_int (code div 256), word_of_int code]"

text \<open>
  The state \<open>wsCloseConn\<close> reaches before it writes its close frame, and that frame. 1005 is not a wire
  code: it is echoed as 1000.
\<close>

definition ws_mark_closing :: "int \<Rightarrow> int \<Rightarrow> Reactor \<Rightarrow> Reactor" where
  "ws_mark_closing c code r =
     (let r1 = upd_conn c (\<lambda>k. k\<lparr>c_wsClosing := True\<rparr>) r;
          r2 = r1\<lparr>wsConnLoop := AList.delete c (wsConnLoop r1)\<rparr>
      in case c_wsEmitter (conns r c) of
           None \<Rightarrow> r2
         | Some e \<Rightarrow> emit e (EmitWsMessage c None [] (int kClose) code) r2)"

definition ws_close_frame :: "int \<Rightarrow> string" where
  "ws_close_frame code = string_of (encodeFrame kClose (close_payload (if code = 1005 then 1000 else code)) True)"

lemma conns_frame [simp]:
  "conns (log_effect e r) = conns r" "conns (emit i x r) = conns r" "conns (upd_loop j g r) = conns r"
  "conns (push_queue j p r) = conns r"
  by (simp_all add: log_effect_def emit_def upd_loop_def push_queue_def)

lemma conns_upd_conn [simp]: "conns (upd_conn c f r) = (conns r)(c := f (conns r c))"
  by (simp add: upd_conn_def)

lemma wsClosing_begin_answer [simp]:
  "c_wsClosing (conns (begin_answer env c bs ka fin r) d) = c_wsClosing (conns r d)"
  by (auto simp: begin_answer_def start_write_def)

lemma wsClosing_mark [simp]: "c_wsClosing (conns (ws_mark_closing c code r) c)"
  by (auto simp: ws_mark_closing_def Let_def split: option.splits)

text \<open>\<open>writeAnswer\<close> closes a WebSocket whose reader is too slow, and closing it writes one more frame.\<close>

function writeAnswer :: "Env \<Rightarrow> int \<Rightarrow> string \<Rightarrow> bool \<Rightarrow> bool \<Rightarrow> Reactor \<Rightarrow> Reactor"
  and wsCloseConn :: "Env \<Rightarrow> int \<Rightarrow> int \<Rightarrow> Reactor \<Rightarrow> Reactor" where
  "writeAnswer env c bs ka fin r =
     (let r1 = begin_answer env c bs ka fin r in
      if ws_over_buffer c r1 then wsCloseConn env c 1009 r1
      else if stream_over_buffer c fin r1 then drop_slow_reader c r1
      else r1)"
| "wsCloseConn env c code r =
     (if c_wsClosing (conns r c) then r
      else writeAnswer env c (ws_close_frame code) False True (ws_mark_closing c code r))"
  by pat_completeness auto

termination
  by (relation "measure (\<lambda>x. case x of
        Inl (env, c, bs, ka, fin, r) \<Rightarrow> if c_wsClosing (conns r c) then 0 else 2
      | Inr (env, c, code, r) \<Rightarrow> if c_wsClosing (conns r c) then 0 else 1)")
    (auto simp: ws_over_buffer_def)

declare writeAnswer.simps [simp del] wsCloseConn.simps [simp del]

definition writeRaw :: "Env \<Rightarrow> int \<Rightarrow> string \<Rightarrow> Reactor \<Rightarrow> Reactor" where
  "writeRaw env c bs r = (if bs = [] then r else start_write env c bs True False r)"

end
