(* ===== verification/ReactorWs.thy ===== *)
theory ReactorWs
  imports ReactorState
begin

text \<open>
  The WebSocket half of the reactor: the handshake (\<open>UvReactor::wsHandshake\<close>), the frame loop
  (\<open>wsProcess\<close>) with reassembly and control frames, and the cross-thread \<open>wsSend\<close> and \<open>wsClose\<close>.
\<close>

section \<open>What a write leaves alone\<close>

text \<open>
  \<open>writeAnswer\<close> and \<open>wsCloseConn\<close> touch a few fields of the connection and the session table. The two
  projections forget exactly those; everything else follows from their invariance.
\<close>

definition conn_core :: "Conn \<Rightarrow> Conn" where
  "conn_core k = k\<lparr>h_closing := False, h_reading := False, h_writes := [], c_busy := False, c_closing := False,
     c_hasDeadline := False, c_responseStarted := False, c_lastWriteAt := 0, c_writePending := 0,
     c_writeStartedAt := 0, c_wsClosing := False\<rparr>"

definition reactor_core :: "Reactor \<Rightarrow> Reactor" where
  "reactor_core r = r\<lparr>wsConnLoop := [], conns := (\<lambda>_. new_conn), effects := []\<rparr>"

lemma core_basic [simp]:
  "reactor_core (log_effect e r) = reactor_core r" "reactor_core (emit i x r) = reactor_core r"
  "reactor_core (upd_conn c f r) = reactor_core r" "reactor_core (uv_close c r) = reactor_core r"
  "reactor_core (close_if_open c r) = reactor_core r"
  by (simp_all add: reactor_core_def log_effect_def emit_def upd_conn_def uv_close_def close_if_open_def)

lemma fold_emit [simp]:
  "conns (fold (\<lambda>e. emit e x) es r) = conns r" "reactor_core (fold (\<lambda>e. emit e x) es r) = reactor_core r"
  "wsConnLoop (fold (\<lambda>e. emit e x) es r) = wsConnLoop r"
  by (induction es arbitrary: r) (simp_all, simp add: emit_def log_effect_def)

lemma broadcast_frame [simp]:
  "conns (broadcastEvent k i m r) = conns r" "reactor_core (broadcastEvent k i m r) = reactor_core r"
  "wsConnLoop (broadcastEvent k i m r) = wsConnLoop r"
  by (simp_all add: broadcastEvent_def)

lemma conn_core_upd [simp]:
  "conn_core (h_closing_update f k) = conn_core k" "conn_core (h_reading_update f k) = conn_core k"
  "conn_core (h_writes_update g k) = conn_core k" "conn_core (c_busy_update f k) = conn_core k"
  "conn_core (c_closing_update f k) = conn_core k" "conn_core (c_hasDeadline_update f k) = conn_core k"
  "conn_core (c_responseStarted_update f k) = conn_core k" "conn_core (c_lastWriteAt_update h k) = conn_core k"
  "conn_core (c_writePending_update h k) = conn_core k" "conn_core (c_writeStartedAt_update h k) = conn_core k"
  "conn_core (c_wsClosing_update f k) = conn_core k"
  by (simp_all add: conn_core_def)

lemma core_uv_close [simp]:
  "conn_core (conns (uv_close c r) d) = conn_core (conns r d)"
  "conn_core (conns (close_if_open c r) d) = conn_core (conns r d)"
  by (auto simp: uv_close_def close_if_open_def)

lemma core_write_parts [simp]:
  "conn_core (conns (start_write env c bs ka fin r) d) = conn_core (conns r d)"
  "conn_core (conns (begin_answer env c bs ka fin r) d) = conn_core (conns r d)"
  "conn_core (conns (drop_slow_reader c r) d) = conn_core (conns r d)"
  "conn_core (conns (ws_mark_closing c code r) d) = conn_core (conns r d)"
  "reactor_core (start_write env c bs ka fin r) = reactor_core r"
  "reactor_core (begin_answer env c bs ka fin r) = reactor_core r"
  "reactor_core (drop_slow_reader c r) = reactor_core r"
  "reactor_core (ws_mark_closing c code r) = reactor_core r"
  by (auto simp: start_write_def begin_answer_def drop_slow_reader_def ws_mark_closing_def Let_def split: option.splits)
    (simp_all add: reactor_core_def upd_conn_def)

lemma core_write [simp]:
  "conn_core (conns (writeAnswer env c bs ka fin r) d) = conn_core (conns r d)"
  "conn_core (conns (wsCloseConn env c code r) d) = conn_core (conns r d)"
  "reactor_core (writeAnswer env c bs ka fin r) = reactor_core r"
  "reactor_core (wsCloseConn env c code r) = reactor_core r"
proof (induction env c bs ka fin r and env c code r rule: writeAnswer_wsCloseConn.induct)
qed (simp_all add: writeAnswer.simps wsCloseConn.simps Let_def)

lemma conn_core_sel:
  "c_buf (conn_core k) = c_buf k"
  "c_ws (conn_core k) = c_ws k"
  "c_lp (conn_core k) = c_lp k"
  "c_peerIp (conn_core k) = c_peerIp k"
  "c_counted (conn_core k) = c_counted k"
  "c_reqIdInFlight (conn_core k) = c_reqIdInFlight k"
  "c_streamingBody (conn_core k) = c_streamingBody k"
  "c_fileFd (conn_core k) = c_fileFd k"
  "c_fileKeepAlive (conn_core k) = c_fileKeepAlive k"
  "c_deflate (conn_core k) = c_deflate k"
  "c_wsMsg (conn_core k) = c_wsMsg k"
  "c_wsMsgOpcode (conn_core k) = c_wsMsgOpcode k"
  "c_wsMsgCompressed (conn_core k) = c_wsMsgCompressed k"
  "c_wsEmitter (conn_core k) = c_wsEmitter k"
  "c_clientIp (conn_core k) = c_clientIp k"
  "c_streamEmitter (conn_core k) = c_streamEmitter k"
  "c_streamReqId (conn_core k) = c_streamReqId k"
  "c_proxyDone (conn_core k) = c_proxyDone k"
  "c_chunkRemaining (conn_core k) = c_chunkRemaining k"
  "c_chunkNeedCrlf (conn_core k) = c_chunkNeedCrlf k"
  by (simp_all add: conn_core_def)

lemma conn_core_eqD:
  assumes "conn_core k = conn_core k'"
  shows "c_buf k = c_buf k'"
    "c_ws k = c_ws k'"
    "c_lp k = c_lp k'"
    "c_peerIp k = c_peerIp k'"
    "c_counted k = c_counted k'"
    "c_reqIdInFlight k = c_reqIdInFlight k'"
    "c_streamingBody k = c_streamingBody k'"
    "c_fileFd k = c_fileFd k'"
    "c_fileKeepAlive k = c_fileKeepAlive k'"
    "c_deflate k = c_deflate k'"
    "c_wsMsg k = c_wsMsg k'"
    "c_wsMsgOpcode k = c_wsMsgOpcode k'"
    "c_wsMsgCompressed k = c_wsMsgCompressed k'"
    "c_wsEmitter k = c_wsEmitter k'"
    "c_clientIp k = c_clientIp k'"
    "c_streamEmitter k = c_streamEmitter k'"
    "c_streamReqId k = c_streamReqId k'"
    "c_proxyDone k = c_proxyDone k'"
    "c_chunkRemaining k = c_chunkRemaining k'"
    "c_chunkNeedCrlf k = c_chunkNeedCrlf k'"
  using conn_core_sel [of k] conn_core_sel [of k'] assms by simp_all

lemma reactor_core_sel:
  "cfg (reactor_core r) = cfg r"
  "reqLoc (reactor_core r) = reqLoc r"
  "pending (reactor_core r) = pending r"
  "nextId (reactor_core r) = nextId r"
  "alive (reactor_core r) = alive r"
  "loops (reactor_core r) = loops r"
  "ipCounts (reactor_core r) = ipCounts r"
  "liveConns (reactor_core r) = liveConns r"
  "emitters (reactor_core r) = emitters r"
  "next_ptr (reactor_core r) = next_ptr r"
  "running (reactor_core r) = running r"
  "draining (reactor_core r) = draining r"
  "completions (reactor_core r) = completions r"
  "rt_table (reactor_core r) = rt_table r"
  "drainWrites (reactor_core r) = drainWrites r"
  by (simp_all add: reactor_core_def)

lemma reactor_core_eqD:
  assumes "reactor_core r = reactor_core r'"
  shows "cfg r = cfg r'"
    "reqLoc r = reqLoc r'"
    "pending r = pending r'"
    "nextId r = nextId r'"
    "alive r = alive r'"
    "loops r = loops r'"
    "ipCounts r = ipCounts r'"
    "liveConns r = liveConns r'"
    "emitters r = emitters r'"
    "next_ptr r = next_ptr r'"
    "running r = running r'"
    "draining r = draining r'"
    "completions r = completions r'"
    "rt_table r = rt_table r'"
    "drainWrites r = drainWrites r'"
  using reactor_core_sel [of r] reactor_core_sel [of r'] assms by simp_all

lemmas write_conn_frame [simp] =
  conn_core_eqD [OF core_write(1)] conn_core_eqD [OF core_write(2)] conn_core_eqD [OF core_uv_close(1)]
  conn_core_eqD [OF core_uv_close(2)] conn_core_eqD [OF core_write_parts(1)] conn_core_eqD [OF core_write_parts(2)]

lemmas write_reactor_frame [simp] =
  reactor_core_eqD [OF core_write(3)] reactor_core_eqD [OF core_write(4)] reactor_core_eqD [OF core_basic(1)]
  reactor_core_eqD [OF core_basic(2)] reactor_core_eqD [OF core_basic(3)] reactor_core_eqD [OF core_basic(4)]
  reactor_core_eqD [OF core_basic(5)] reactor_core_eqD [OF broadcast_frame(2)] reactor_core_eqD [OF core_write_parts(5)]
  reactor_core_eqD [OF core_write_parts(6)]

section \<open>The frame loop\<close>

text \<open>\<open>cfg_.maxBodyBytes > 0 ? cfg_.maxBodyBytes : (10 << 20)\<close>, the server-wide body and message cap.\<close>

definition server_max :: "Reactor \<Rightarrow> int" where
  "server_max r = (if maxBodyBytes (cfg r) > 0 then maxBodyBytes (cfg r) else 10485760)"

definition ws_unmask :: "bytes \<Rightarrow> bytes \<Rightarrow> bytes" where
  "ws_unmask msk p = map (\<lambda>i. p ! i XOR msk ! (i mod 4)) [0..<length p]"

text \<open>The judgement of the first two bytes: reserved bits, opcode, mask, and the limits of control frames.\<close>

definition ws_bad_start :: "bool \<Rightarrow> u8 \<Rightarrow> u8 \<Rightarrow> bool" where
  "ws_bad_start deflate b0 b1 \<longleftrightarrow>
     (let opcode = unat (b0 AND 0x0f);
          badRsv = (if deflate then b0 AND 0x30 \<noteq> 0 else b0 AND 0x70 \<noteq> 0);
          badOp = (opcode \<noteq> 0 \<and> opcode \<noteq> 1 \<and> opcode \<noteq> 2 \<and> opcode \<noteq> 8 \<and> opcode \<noteq> 9 \<and> opcode \<noteq> 0xA);
          masked = (b1 AND 0x80 \<noteq> 0)
      in (badRsv \<or> badOp \<or> \<not> masked) \<or>
         (isControl opcode \<and> (b0 AND 0x80 = 0 \<or> b1 AND 0x7f > 125)))"

text \<open>A close frame: the code to answer with.\<close>

definition ws_close_code :: "bytes \<Rightarrow> int" where
  "ws_close_code p =
     (if length p = 1 then 1002
      else if length p \<ge> 2 then
        (let code = int (unat (p ! 0)) * 256 + int (unat (p ! 1))
         in if \<not> validCloseCode code then 1002
            else if \<not> validUtf8 (drop 2 p) then 1007
            else code)
      else 1005)"

text \<open>A completed message goes to the session's sink.\<close>

definition ws_deliver :: "Env \<Rightarrow> int \<Rightarrow> Reactor \<Rightarrow> Reactor" where
  "ws_deliver env c r =
     (let k = conns r c;
          r1 = emit_payload env c (c_wsEmitter k)
                 (\<lambda>p. EmitWsMessage c (Some p) (bytes_of (c_wsMsg k)) (c_wsMsgOpcode k) (if c_wsMsgCompressed k then 1 else 0)) r
      in upd_conn c (\<lambda>k. k\<lparr>c_wsMsg := [], c_wsMsgOpcode := -1, c_wsMsgCompressed := False\<rparr>) r1)"

text \<open>A data frame or continuation; the flag says whether the loop goes on.\<close>

definition ws_data :: "Env \<Rightarrow> int \<Rightarrow> FrameHeader \<Rightarrow> bytes \<Rightarrow> Reactor \<Rightarrow> Reactor \<times> bool" where
  "ws_data env c h p r =
     (let k = conns r c; first = (fh_opcode h = kText \<or> fh_opcode h = kBinary) in
      if first \<and> c_wsMsgOpcode k \<ge> 0 then (wsCloseConn env c 1002 r, False)
      else if \<not> first \<and> c_wsMsgOpcode k < 0 then (wsCloseConn env c 1002 r, False)
      else
        let r1 = upd_conn c (\<lambda>k. if first
                   then k\<lparr>c_wsMsgOpcode := int (fh_opcode h), c_wsMsgCompressed := fh_rsv1 h, c_wsMsg := string_of p\<rparr>
                   else k\<lparr>c_wsMsg := c_wsMsg k @ string_of p\<rparr>) r;
            k1 = conns r1 c
        in if int (length (c_wsMsg k1)) > server_max r then (wsCloseConn env c 1009 r1, False)
           else if \<not> fh_fin h then (r1, True)
           else if c_wsMsgOpcode k1 = int kText \<and> \<not> c_wsMsgCompressed k1 \<and> \<not> validUtf8 (bytes_of (c_wsMsg k1))
             then (wsCloseConn env c 1007 r1, False)
           else (ws_deliver env c r1, True))"

text \<open>One turn of the loop of \<open>wsProcess\<close>; the flag is \<open>False\<close> where the code returns.\<close>

definition ws_frame :: "Env \<Rightarrow> int \<Rightarrow> Reactor \<Rightarrow> Reactor \<times> bool" where
  "ws_frame env c r =
     (let k = conns r c; buf = bytes_of (c_buf k) in
      if length buf < 2 then (r, False)
      else if ws_bad_start (c_deflate k) (buf ! 0) (buf ! 1) then (wsCloseConn env c 1002 r, False)
      else case parseHeader buf (c_deflate k) of
        None \<Rightarrow> (r, False)
      | Some h \<Rightarrow>
          if \<not> isControl (fh_opcode h) \<and> sint (fh_length h) > server_max r then (wsCloseConn env c 1009 r, False)
          else if length buf < fh_headerSize h + unat (fh_length h) then (r, False)
          else
            let n = unat (fh_length h);
                p = ws_unmask (fh_mask h) (substr buf (fh_headerSize h) n);
                r1 = upd_conn c (\<lambda>k. k\<lparr>c_buf := drop (fh_headerSize h + n) (c_buf k)\<rparr>) r
            in if fh_opcode h = kPing then
                 (writeAnswer env c (string_of (encodeFrame kPong p True)) True False r1, True)
               else if fh_opcode h = kPong then (r1, True)
               else if fh_opcode h = kClose then (wsCloseConn env c (ws_close_code p) r1, False)
               else ws_data env c h p r1)"

lemma emit_payload_frame [simp]: "conns (emit_payload env i em mk r) = conns r"
  by (simp add: emit_payload_def Let_def split: option.splits)

lemma parseHeader_min: "parseHeader data b = Some h \<Longrightarrow> 2 \<le> fh_headerSize h"
  by (auto simp: parseHeader_def parse_length_def Let_def split: if_splits option.splits)

lemma ws_data_buf: "c_buf (conns (fst (ws_data env c h p r)) c) = c_buf (conns r c)"
  by (auto simp: ws_data_def ws_deliver_def Let_def)

lemma ws_frame_consumes:
  assumes "ws_frame env c r = (r', True)"
  shows "length (c_buf (conns r' c)) < length (c_buf (conns r c))"
proof -
  let ?buf = "bytes_of (c_buf (conns r c))"
  obtain h where h: "parseHeader ?buf (c_deflate (conns r c)) = Some h"
    and fits: "fh_headerSize h + unat (fh_length h) \<le> length ?buf"
    using assms by (cases "parseHeader ?buf (c_deflate (conns r c))") (simp_all add: ws_frame_def Let_def not_less split: if_splits)
  let ?n = "fh_headerSize h + unat (fh_length h)"
  let ?r1 = "upd_conn c (\<lambda>k. k\<lparr>c_buf := drop ?n (c_buf k)\<rparr>) r"
  have d: "c_buf (conns r' c) = c_buf (conns ?r1 c)" if "ws_data env c h p ?r1 = (r', True)" for p
    using ws_data_buf [of env c h p ?r1] that by simp
  have "c_buf (conns r' c) = c_buf (conns ?r1 c)"
    using assms h fits by (simp add: ws_frame_def Let_def split: if_splits) (auto dest!: d)
  then show ?thesis using parseHeader_min [OF h] fits by simp
qed

function wsProcess :: "Env \<Rightarrow> int \<Rightarrow> Reactor \<Rightarrow> Reactor" where
  "wsProcess env c r =
     (if c_closing (conns r c) \<or> c_wsClosing (conns r c) then r
      else case ws_frame env c r of (r', go) \<Rightarrow> if go then wsProcess env c r' else r')"
  by pat_completeness auto

termination
  by (relation "measure (\<lambda>(env, c, r). length (c_buf (conns r c)))") (auto dest: ws_frame_consumes [OF sym])

declare wsProcess.simps [simp del]

section \<open>The handshake\<close>

definition valid_ws_key :: "string \<Rightarrow> bool" where
  "valid_ws_key k \<longleftrightarrow>
     length k = 24 \<and> k ! 22 = CHR ''='' \<and> k ! 23 = CHR ''='' \<and>
     list_all (\<lambda>ch. (65 \<le> ord ch \<and> ord ch \<le> 90) \<or> (97 \<le> ord ch \<and> ord ch \<le> 122) \<or> is_digit ch \<or>
       ch = CHR ''+'' \<or> ch = CHR ''/'') (take 22 k)"

text \<open>The subprotocol negotiated: \<open>None\<close> is the refusal, \<open>Some []\<close> an upgrade without one.\<close>

definition ws_select_protocol :: "string list \<Rightarrow> header option \<Rightarrow> string option" where
  "ws_select_protocol wanted offered =
     (case offered of
        None \<Rightarrow> Some []
      | Some h \<Rightarrow>
          if wanted = [] \<or> uvTrim (h_value h) = [] then Some []
          else find (\<lambda>w. w \<in> set (comma_tokens (h_value h) 0) \<and> w \<noteq> []) wanted)"

definition ws_accept_head :: "string \<Rightarrow> bool \<Rightarrow> string \<Rightarrow> string" where
  "ws_accept_head accept deflate protocol =
     ''HTTP/1.1 101 Switching Protocols'' @ crlf @ ''Upgrade: websocket'' @ crlf @
     ''Connection: Upgrade'' @ crlf @ ''Sec-WebSocket-Accept: '' @ accept @ crlf @
     (if deflate then ''Sec-WebSocket-Extensions: permessage-deflate; '' @
        ''server_no_context_takeover; client_no_context_takeover'' @ crlf else []) @
     (if protocol \<noteq> [] then ''Sec-WebSocket-Protocol: '' @ protocol @ crlf else []) @ crlf"

definition ws_not_supported :: "Env \<Rightarrow> string" where
  "ws_not_supported env =
     uvErrorResponse (e_time env) 426 ''websocket not supported'' [hdr ''Sec-WebSocket-Version'' ''13'']"

text \<open>\<open>writeAnswer(c, uvBuildHead(status, {}, 0, false, 0), false, true)\<close>: refuse and close.\<close>

definition refuse_with :: "Env \<Rightarrow> int \<Rightarrow> int \<Rightarrow> Reactor \<Rightarrow> Reactor" where
  "refuse_with env c status r = writeAnswer env c (uvBuildHead (e_time env) status [] 0 False 0) False True r"

text \<open>The session opens: 101, the session table, the sink the whole session stays on.\<close>

definition ws_open :: "Env \<Rightarrow> int \<Rightarrow> ParsedHead \<Rightarrow> RouteEntry \<Rightarrow> route_param list \<Rightarrow> string \<Rightarrow> string \<Rightarrow> string \<Rightarrow> string \<Rightarrow> Reactor \<Rightarrow> Reactor" where
  "ws_open env c head route params path query key protocol r =
     (let deflate = (wsCompression (cfg r) \<and>
            (case uvFindHeader (ph_headers head) ''sec-websocket-extensions'' of
               None \<Rightarrow> False | Some ext \<Rightarrow> find_sub ''permessage-deflate'' (h_value ext) \<noteq> None));
          r1 = upd_conn c (\<lambda>k. k\<lparr>c_deflate := deflate\<rparr>) r;
          r2 = writeAnswer env c (ws_accept_head (acceptKey key) deflate protocol) True False r1;
          r3 = upd_conn c (\<lambda>k. k\<lparr>c_ws := True\<rparr>) r2;
          r4 = r3\<lparr>wsConnLoop := AList.update c (c_lp (conns r3 c)) (wsConnLoop r3)\<rparr>;
          (r5, em) = nextEmitter r4;
          r6 = upd_conn c (\<lambda>k. k\<lparr>c_wsEmitter := em\<rparr>) r5
      in case em of
           None \<Rightarrow> r6
         | Some e \<Rightarrow> emit e (EmitHead c (ph_method head) (ph_customMethod head) path query (ph_headers head) 0 False True
             (re_pattern route) params (c_clientIp (conns r6 c))) r6)"

definition wsHandshake :: "Env \<Rightarrow> int \<Rightarrow> ParsedHead \<Rightarrow> RouteEntry \<Rightarrow> route_param list \<Rightarrow> string \<Rightarrow> string \<Rightarrow> Reactor \<Rightarrow> Reactor" where
  "wsHandshake env c head route params path query r =
     (case uvFindHeader (ph_headers head) ''sec-websocket-key'' of
        None \<Rightarrow> refuse_with env c 400 r
      | Some key \<Rightarrow>
          if \<not> valid_ws_key (uvTrim (h_value key)) then refuse_with env c 400 r
          else case uvFindHeader (ph_headers head) ''sec-websocket-version'' of
            None \<Rightarrow> writeAnswer env c (ws_not_supported env) False True r
          | Some ver \<Rightarrow>
              if uvTrim (h_value ver) \<noteq> ''13'' then writeAnswer env c (ws_not_supported env) False True r
              else case ws_select_protocol (re_wsProtocols route) (uvFindHeader (ph_headers head) ''sec-websocket-protocol'') of
                None \<Rightarrow> refuse_with env c 400 r
              | Some protocol \<Rightarrow> wsProcess env c (ws_open env c head route params path query (h_value key) protocol r))"

section \<open>Calls from other threads\<close>

definition wsSend :: "int \<Rightarrow> bytes \<Rightarrow> bool \<Rightarrow> bool \<Rightarrow> Reactor \<Rightarrow> Reactor \<times> int" where
  "wsSend connId p binary compressed r =
     (if \<not> running r then (r, -1)
      else case map_of (wsConnLoop r) connId of
        None \<Rightarrow> (r, -1)
      | Some loopIdx \<Rightarrow>
          let frame = encodeFrame (if binary then kBinary else kText) p True;
              frame' = (if compressed then frame[0 := frame ! 0 OR 0x40] else frame)
          in (push_queue loopIdx (mk_pending connId (string_of frame') True False) r, 0))"

definition wsClose :: "int \<Rightarrow> int \<Rightarrow> Reactor \<Rightarrow> Reactor" where
  "wsClose connId code r =
     (if \<not> running r then r
      else case map_of (wsConnLoop r) connId of
        None \<Rightarrow> r
      | Some loopIdx \<Rightarrow>
          push_queue loopIdx
            (mk_pending connId (string_of (encodeFrame kClose (close_payload code) True)) False True)
            (r\<lparr>wsConnLoop := AList.delete connId (wsConnLoop r)\<rparr>))"

end
