(* ===== verification/ReactorStream.thy ===== *)
theory ReactorStream
  imports ReactorWs
begin

text \<open>
  Request bodies that are streamed to the handler while they arrive: \<open>emitStreamBytes\<close> for a declared
  length, \<open>emitStreamChunked\<close> for the chunked coding, decoded incrementally across reads, and
  \<open>abortStreamTooLarge\<close>.
\<close>

section \<open>A body of declared length\<close>

definition emit_opt :: "nat option \<Rightarrow> emit_call \<Rightarrow> Reactor \<Rightarrow> Reactor" where
  "emit_opt em x r = (case em of None \<Rightarrow> r | Some e \<Rightarrow> emit e x r)"

definition emitStreamBytes :: "Env \<Rightarrow> int \<Rightarrow> Reactor \<Rightarrow> Reactor" where
  "emitStreamBytes env c r =
     (let k = conns r c; i = c_streamReqId k; em = c_streamEmitter k;
          avail = min (length (c_buf k)) (c_bodyRemaining k);
          r1 = (if avail > 0 \<and> em \<noteq> None
                then upd_conn c (\<lambda>k. k\<lparr>c_buf := drop avail (c_buf k), c_bodyRemaining := c_bodyRemaining k - avail\<rparr>)
                       (emit_payload env i em (\<lambda>p. EmitBodyData i p (bytes_of (take avail (c_buf k)))) r)
                else r)
      in if c_bodyRemaining (conns r1 c) = 0
         then upd_conn c (\<lambda>k. k\<lparr>c_streamingBody := False\<rparr>) (emit_opt em (EmitBodyEnd i) r1)
         else r1)"

section \<open>A chunked body\<close>

text \<open>How one call of the decoder ends: out of bytes, malformed, past the terminal chunk, or over the cap.\<close>

datatype stream_verdict = SWait | SMalformed | SDone | STooLarge

text \<open>\<open>if (c->chunkNeedCrlf)\<close>: the line end after a chunk's data.\<close>

definition skip_crlf :: "Conn \<Rightarrow> stream_verdict + Conn" where
  "skip_crlf k =
     (if \<not> c_chunkNeedCrlf k then Inr k
      else if length (c_buf k) < 2 then Inl SWait
      else if c_buf k ! 0 \<noteq> CR \<or> c_buf k ! 1 \<noteq> LF then Inl SMalformed
      else Inr (k\<lparr>c_buf := drop 2 (c_buf k), c_chunkNeedCrlf := False\<rparr>))"

text \<open>The trailer section after the terminal chunk, from offset \<open>t\<close>: the verdict and the buffer left.\<close>

function stream_trailer :: "string \<Rightarrow> nat \<Rightarrow> nat \<Rightarrow> nat \<Rightarrow> stream_verdict \<times> string" where
  "stream_trailer buf start t lines =
     (case find_from crlf buf t of
        None \<Rightarrow> (if length buf - start > kMaxTrailerBytes then SMalformed else SWait, buf)
      | Some e2 \<Rightarrow>
          if e2 = t then (SDone, drop (t + 2) buf)
          else if lines + 1 > kMaxTrailerLines then (SMalformed, buf)
          else stream_trailer buf start (e2 + 2) (lines + 1))"
  by pat_completeness auto

termination
  by (relation "measure (\<lambda>(buf, start, t, lines). length buf - t)") (auto dest: find_from_bounds)

declare stream_trailer.simps [simp del]

text \<open>\<open>if (c->chunkRemaining == 0)\<close>: read the next size line.\<close>

definition next_size :: "Conn \<Rightarrow> (Conn \<times> stream_verdict) + Conn" where
  "next_size k =
     (if c_chunkRemaining k \<noteq> 0 then Inr k
      else case find_sub crlf (c_buf k) of
        None \<Rightarrow> Inl (k, if length (c_buf k) > kMaxTrailerBytes then SMalformed else SWait)
      | Some eol \<Rightarrow>
          let sz = uvChunkSize (c_buf k) 0 eol in
          if sz < 0 then Inl (k, SMalformed)
          else if sz = 0 then
            (case stream_trailer (c_buf k) (eol + 2) (eol + 2) 0 of (v, b) \<Rightarrow> Inl (k\<lparr>c_buf := b\<rparr>, v))
          else Inr (k\<lparr>c_buf := drop (eol + 2) (c_buf k), c_chunkRemaining := nat sz\<rparr>))"

text \<open>\<open>if (c->chunkRemaining > 0)\<close>: take what is buffered of the chunk's data.\<close>

definition take_chunk :: "nat \<Rightarrow> Conn \<Rightarrow> Conn" where
  "take_chunk n k = k\<lparr>c_buf := drop n (c_buf k), c_chunkRemaining := c_chunkRemaining k - n,
     c_chunkNeedCrlf := (if c_chunkRemaining k - n = 0 then True else c_chunkNeedCrlf k),
     c_streamBodyTotal := c_streamBodyTotal k + int n\<rparr>"

lemma skip_crlf_shrinks: "skip_crlf k = Inr k' \<Longrightarrow> length (c_buf k') \<le> length (c_buf k)"
  by (auto simp: skip_crlf_def split: if_splits)

lemma next_size_shrinks: "next_size k = Inr k' \<Longrightarrow> length (c_buf k') \<le> length (c_buf k)"
  by (auto simp: next_size_def Let_def split: if_splits option.splits prod.splits)

lemma min_shrinks: "xs \<noteq> [] \<Longrightarrow> 0 < b \<Longrightarrow> length xs \<le> y \<Longrightarrow> y \<le> z \<Longrightarrow> length xs - min (length xs) b < z"
  by (cases xs) (auto simp: min_def)

function stream_loop :: "Conn \<Rightarrow> string \<Rightarrow> Conn \<times> string \<times> stream_verdict" where
  "stream_loop k out =
     (case skip_crlf k of
        Inl v \<Rightarrow> (k, out, v)
      | Inr k1 \<Rightarrow>
          (case next_size k1 of
             Inl (k2, v) \<Rightarrow> (k2, out, v)
           | Inr k2 \<Rightarrow>
               (let n = min (length (c_buf k2)) (c_chunkRemaining k2) in
                if n = 0 then (k2, out, SWait)
                else let k3 = take_chunk n k2; out' = out @ take n (c_buf k2)
                     in if c_streamMaxBody k3 \<ge> 0 \<and> c_streamBodyTotal k3 > c_streamMaxBody k3
                        then (k3, out', STooLarge)
                        else stream_loop k3 out')))"
  by pat_completeness auto

termination
  by (relation "measure (\<lambda>(k, out). length (c_buf k))")
    (auto simp: take_chunk_def intro: min_shrinks dest!: skip_crlf_shrinks next_size_shrinks)

declare stream_loop.simps [simp del]

definition abortStreamTooLarge :: "Env \<Rightarrow> int \<Rightarrow> Reactor \<Rightarrow> Reactor" where
  "abortStreamTooLarge env c r =
     (let i = c_streamReqId (conns r c);
          r1 = upd_conn c (\<lambda>k. k\<lparr>c_streamingBody := False\<rparr>) r;
          r2 = fst (lookupReq i True r1);
          em = c_streamEmitter (conns r2 c);
          r3 = (if em \<noteq> None
                then emit_payload env i em (\<lambda>p. EmitBodyError i p (bytes_of ''request body too large'') RequestTooLarge) r2
                else r2)
      in refuse_with env c 413 r3)"

definition emitStreamChunked :: "Env \<Rightarrow> int \<Rightarrow> Reactor \<Rightarrow> Reactor" where
  "emitStreamChunked env c r =
     (case stream_loop (conns r c) [] of (k, out, v) \<Rightarrow>
        let r1 = upd_conn c (\<lambda>_. k) r; i = c_streamReqId k; em = c_streamEmitter k in
        if v = STooLarge then abortStreamTooLarge env c r1
        else if v = SMalformed then
          close_if_open c (upd_conn c (\<lambda>k. k\<lparr>c_streamingBody := False, c_closing := True\<rparr>) r1)
        else
          let r2 = (if out \<noteq> [] \<and> em \<noteq> None
                    then emit_payload env i em (\<lambda>p. EmitBodyData i p (bytes_of out)) r1 else r1)
          in if v = SDone
             then upd_conn c (\<lambda>k. k\<lparr>c_streamingBody := False\<rparr>) (emit_opt em (EmitBodyEnd i) r2)
             else r2)"

end
