(* ===== verification/ReactorHttp.thy ===== *)
theory ReactorHttp
  imports ReactorStream
begin

text \<open>
  The HTTP/1.1 half of the reactor: \<open>processConn\<close>, which takes one request off a connection's buffer
  and answers it, refuses it or dispatches it to a handler; \<open>onWrite\<close>, which runs when a write lands and
  starts on the next pipelined request; the chunks of a file answer; and \<open>readCb\<close>, the entry point for
  bytes from the socket.
\<close>

section \<open>Pieces of processConn\<close>

text \<open>\<open>strtoll(s, nullptr, 10)\<close>: leading white space, a sign, the digits, saturation.\<close>

definition strtoll :: "string \<Rightarrow> int" where
  "strtoll s =
     (let t = dropWhile (\<lambda>c. ord c = 32 \<or> (9 \<le> ord c \<and> ord c \<le> 13)) s;
          neg = (t \<noteq> [] \<and> hd t = CHR ''-'');
          u = (if t \<noteq> [] \<and> (hd t = CHR ''-'' \<or> hd t = CHR ''+'') then tl t else t);
          v = int (dec_val (takeWhile is_digit u))
      in if neg then max (- (2 ^ 63)) (- v) else min (2 ^ 63 - 1) v)"

definition split_target :: "string \<Rightarrow> string \<times> string" where
  "split_target target =
     (let (path, query) = (case find_sub ''?'' target of
            None \<Rightarrow> (target, []) | Some q \<Rightarrow> (take q target, drop (q + 1) target))
      in (if path = [] then ''/'' else path, query))"

definition content_length :: "ParsedHead \<Rightarrow> int" where
  "content_length head =
     (case uvFindHeader (ph_headers head) ''content-length'' of None \<Rightarrow> 0 | Some cl \<Rightarrow> strtoll (c_str (h_value cl)))"

definition route_max_body :: "MatchResult \<Rightarrow> Reactor \<Rightarrow> int" where
  "route_max_body m r =
     (case mr_route m of
        Some route \<Rightarrow> if re_maxBodyBytes route \<ge> 0 then re_maxBodyBytes route else server_max r
      | None \<Rightarrow> server_max r)"

definition wants_continue :: "ParsedHead \<Rightarrow> bool" where
  "wants_continue head \<longleftrightarrow>
     (case uvFindHeader (ph_headers head) ''expect'' of
        None \<Rightarrow> False
      | Some ex \<Rightarrow> find_sub ''100-continue'' (h_value ex) \<noteq> None \<or> find_sub ''100-Continue'' (h_value ex) \<noteq> None)"

definition send_continue :: "Env \<Rightarrow> int \<Rightarrow> ParsedHead \<Rightarrow> bool \<Rightarrow> Reactor \<Rightarrow> Reactor" where
  "send_continue env c head hasBody r =
     (if hasBody \<and> \<not> c_continueSent (conns r c) then
        upd_conn c (\<lambda>k. k\<lparr>c_continueSent := True\<rparr>)
          (if wants_continue head then writeRaw env c (''HTTP/1.1 100 Continue'' @ crlf @ crlf) r else r)
      else r)"

definition request_keep_alive :: "int \<Rightarrow> ParsedHead \<Rightarrow> Reactor \<Rightarrow> bool" where
  "request_keep_alive c head r \<longleftrightarrow>
     uvClientWantsKeepAlive head \<and> keepAliveTimeoutMs (cfg r) > 0 \<and> \<not> draining r \<and> \<not> c_ageExpired (conns r c) \<and>
     (maxRequestsPerConn (cfg r) \<le> 0 \<or> c_served (conns r c) + 1 < maxRequestsPerConn (cfg r))"

definition server_busy :: "Env \<Rightarrow> string" where
  "server_busy env = uvErrorResponse (e_time env) 503 ''server busy'' [hdr ''Retry-After'' ''1'']"

text \<open>Enter a request in the table, mark the connection busy, start the handler's deadline.\<close>

definition enter_request :: "Env \<Rightarrow> int \<Rightarrow> int \<Rightarrow> ParsedHead \<Rightarrow> RouteEntry \<Rightarrow> bool \<Rightarrow> Reactor \<Rightarrow> Reactor" where
  "enter_request env c i head route ka r =
     (let loc = \<lparr>rl_loopIdx = c_lp (conns r c), rl_connId = c, rl_isHead = (ph_method head = Head), rl_keepAlive = ka\<rparr>;
          timeoutMs = (if re_timeoutMs route \<ge> 0 then re_timeoutMs route else defaultTimeoutMs (cfg r))
      in upd_conn c (\<lambda>k. let k1 = k\<lparr>c_busy := True, c_reqIdInFlight := i\<rparr>
                in if timeoutMs > 0 then k1\<lparr>c_reqDeadline := e_now env + ms timeoutMs, c_hasDeadline := True\<rparr> else k1)
           (r\<lparr>reqLoc := AList.update i loc (reqLoc r)\<rparr>))"

text \<open>A \<open>streamBody\<close> route: dispatch the head now, stream the body as it arrives.\<close>

definition dispatch_stream ::
  "Env \<Rightarrow> int \<Rightarrow> ParsedHead \<Rightarrow> RouteEntry \<Rightarrow> route_param list \<Rightarrow> string \<Rightarrow> string \<Rightarrow> int \<Rightarrow> bool \<Rightarrow> int \<Rightarrow> nat \<Rightarrow> Reactor \<Rightarrow> Reactor" where
  "dispatch_stream env c head route params path query clen chunked maxBody headEnd r =
     (let i = nextId r; r1 = r\<lparr>nextId := i + 1\<rparr> in
      if overInFlightBudget r1 then writeAnswer env c (server_busy env) False True r1
      else
        let ka = request_keep_alive c head r1;
            r2 = enter_request env c i head route ka r1;
            (r3, em) = nextEmitter r2;
            r4 = emit_opt em (EmitHead i (ph_method head) (ph_customMethod head) path query (ph_headers head) clen
                   True False (re_pattern route) params (c_clientIp (conns r3 c))) r3;
            r5 = upd_conn c (\<lambda>k. k\<lparr>c_streamingBody := True, c_streamChunked := chunked, c_streamReqId := i,
                   c_streamEmitter := em, c_bodyRemaining := (if chunked then 0 else nat clen),
                   c_streamMaxBody := maxBody, c_streamBodyTotal := 0, c_buf := drop (headEnd + 4) (c_buf k),
                   c_lastActive := e_now env\<rparr>) r4
        in if chunked then emitStreamChunked env c r5 else emitStreamBytes env c r5)"

text \<open>A body read whole: wait for the rest, refuse with a status, or the bytes and where the request ends.\<close>

datatype body_read = BodyWait | BodyRefuse int | BodyOk string nat

definition read_body :: "string \<Rightarrow> nat \<Rightarrow> bool \<Rightarrow> int \<Rightarrow> int \<Rightarrow> body_read" where
  "read_body buf headEnd chunked clen maxBody =
     (if chunked then
        (case decodeChunked buf (headEnd + 4) maxBody of
           ChunkMore \<Rightarrow> BodyWait
         | ChunkBad \<Rightarrow> BodyRefuse 400
         | ChunkOver \<Rightarrow> BodyRefuse 413
         | ChunkDone body end' \<Rightarrow> BodyOk body end')
      else if length buf < headEnd + 4 + nat clen then BodyWait
      else BodyOk (substr buf (headEnd + 4) (nat clen)) (headEnd + 4 + nat clen))"

text \<open>The handler route: head, then the body as one chunk, then the end marker.\<close>

definition dispatch_handler ::
  "Env \<Rightarrow> int \<Rightarrow> ParsedHead \<Rightarrow> RouteEntry \<Rightarrow> route_param list \<Rightarrow> string \<Rightarrow> string \<Rightarrow> string \<Rightarrow> int \<Rightarrow> bool \<Rightarrow> Reactor \<Rightarrow> Reactor" where
  "dispatch_handler env c head route params path query body clen ka r =
     (let i = nextId r; r1 = r\<lparr>nextId := i + 1\<rparr>;
          r2 = enter_request env c i head route ka r1;
          (r3, em) = nextEmitter r2; hasBody = (clen > 0)
      in case em of
           None \<Rightarrow> r3
         | Some e \<Rightarrow>
             let r4 = emit e (EmitHead i (ph_method head) (ph_customMethod head) path query (ph_headers head) clen
                        hasBody (\<not> hasBody) (re_pattern route) params (c_clientIp (conns r3 c))) r3
             in if hasBody
                then emit e (EmitBodyEnd i) (emit_payload env i em (\<lambda>p. EmitBodyData i p (bytes_of body)) r4)
                else r4)"

text \<open>\<open>allow += (allow.empty() ? "" : ", ") + t\<close>.\<close>

definition join_allow :: "string list \<Rightarrow> string" where
  "join_allow ts = foldl (\<lambda>allow t. allow @ (if allow = [] then [] else '', '') @ t) [] ts"

text \<open>No route: 426 for a handshake, 405 with Allow when other methods exist, else 404.\<close>

definition answer_unmatched :: "Env \<Rightarrow> int \<Rightarrow> bool \<Rightarrow> string \<Rightarrow> bool \<Rightarrow> Reactor \<Rightarrow> Reactor" where
  "answer_unmatched env c wsUpgrade path ka r =
     (let kaSecs = keepAliveHeaderSecs r in
      if wsUpgrade then writeAnswer env c (ws_not_supported env) False True r
      else let allowed = allowedMethods (rt_table r) path in
        if allowed \<noteq> [] then
          writeAnswer env c (uvBuildHead (e_time env) 405 [hdr ''Allow'' (join_allow allowed)] 0 ka kaSecs) ka True r
        else writeAnswer env c (uvBuildHead (e_time env) 404 [] 0 ka kaSecs) ka True r)"

definition answer_static :: "Env \<Rightarrow> int \<Rightarrow> ParsedHead \<Rightarrow> StaticResponse \<Rightarrow> string \<Rightarrow> bool \<Rightarrow> Reactor \<Rightarrow> Reactor" where
  "answer_static env c head sr body keepAlive r =
     (let ka = (keepAlive \<and> body = []);
          out = uvBuildHead (e_time env) (sr_status sr) (sr_headers sr) (int (length (sr_body sr))) ka (keepAliveHeaderSecs r) @
                (if ph_method head \<noteq> Head then sr_body sr else [])
      in writeAnswer env c out ka True r)"

text \<open>The request has been consumed; the flag is \<open>True\<close> for \<open>continue\<close>, \<open>False\<close> for \<open>return\<close>.\<close>

definition answer_request ::
  "Env \<Rightarrow> int \<Rightarrow> ParsedHead \<Rightarrow> MatchResult \<Rightarrow> string \<Rightarrow> string \<Rightarrow> string \<Rightarrow> int \<Rightarrow> bool \<Rightarrow> Reactor \<Rightarrow> Reactor \<times> bool" where
  "answer_request env c head m path query body clen ka r =
     (let wsUpgrade = uvIsWebSocketUpgrade head in
      case mr_route m of
        None \<Rightarrow> (answer_unmatched env c wsUpgrade path ka r, True)
      | Some route \<Rightarrow>
          if re_isWebSocket route then
            (if \<not> wsUpgrade then (writeAnswer env c (ws_not_supported env) False True r, True)
             else if body \<noteq> [] \<or> c_buf (conns r c) \<noteq> [] then (refuse_with env c 400 r, False)
             else (wsHandshake env c head route (mr_params m) path query r, False))
          else if wsUpgrade then (writeAnswer env c (ws_not_supported env) False True r, True)
          else case re_staticResponse route of
            Some sr \<Rightarrow> (answer_static env c head sr body ka r, True)
          | None \<Rightarrow>
              if overInFlightBudget r then (writeAnswer env c (server_busy env) False True r, True)
              else (dispatch_handler env c head route (mr_params m) path query body clen ka r, False))"

section \<open>One turn of the loop\<close>

text \<open>No complete head yet: a header flood closes the connection, else the head's deadline starts.\<close>

definition await_head :: "Env \<Rightarrow> int \<Rightarrow> Reactor \<Rightarrow> Reactor" where
  "await_head env c r =
     (let k = conns r c in
      if length (c_buf k) > 65536 then uv_close c (upd_conn c (\<lambda>k. k\<lparr>c_closing := True\<rparr>) r)
      else if c_buf k \<noteq> [] \<and> \<not> c_headPending k
        then upd_conn c (\<lambda>k. k\<lparr>c_headPending := True, c_headStartedAt := e_now env\<rparr>) r
      else r)"

text \<open>The request whose head is sound: framing, route, caps, body.\<close>

definition take_body ::
  "Env \<Rightarrow> int \<Rightarrow> ParsedHead \<Rightarrow> MatchResult \<Rightarrow> string \<Rightarrow> string \<Rightarrow> int \<Rightarrow> bool \<Rightarrow> int \<Rightarrow> nat \<Rightarrow> Reactor \<Rightarrow> Reactor \<times> bool" where
  "take_body env c head m path query clen chunked maxBody headEnd r =
     (case read_body (c_buf (conns r c)) headEnd chunked clen maxBody of
        BodyWait \<Rightarrow> (upd_conn c (\<lambda>k. k\<lparr>c_bodyPending := True\<rparr>) r, False)
      | BodyRefuse status \<Rightarrow> (refuse_with env c status r, False)
      | BodyOk body reqEnd \<Rightarrow>
          let ka = request_keep_alive c head r;
              r1 = upd_conn c (\<lambda>k. k\<lparr>c_buf := drop reqEnd (c_buf k), c_bodyPending := False, c_lastActive := e_now env\<rparr>) r
          in answer_request env c head m path query body (if chunked then int (length body) else clen) ka r1)"

definition take_request :: "Env \<Rightarrow> int \<Rightarrow> ParsedHead \<Rightarrow> bool \<Rightarrow> nat \<Rightarrow> Reactor \<Rightarrow> Reactor \<times> bool" where
  "take_request env c head chunked headEnd r =
     (let clen = content_length head;
          (path, query) = split_target (ph_target head);
          m = match (rt_table r) (ph_method head) (ph_customMethod head) path;
          maxBody = route_max_body m r;
          hasBody = (clen > 0 \<or> chunked)
      in if clen < 0 then (refuse_with env c 400 r, False)
         else if \<not> chunked \<and> clen > maxBody then (refuse_with env c 413 r, False)
         else
           let r1 = send_continue env c head hasBody r in
           case mr_route m of
             Some route \<Rightarrow>
               if hasBody \<and> re_streamBody route \<and> \<not> (re_maxBodyBytes route \<ge> 0 \<and> clen > re_maxBodyBytes route)
               then (dispatch_stream env c head route (mr_params m) path query clen chunked maxBody headEnd r1, False)
               else take_body env c head m path query clen chunked maxBody headEnd r1
           | None \<Rightarrow> take_body env c head m path query clen chunked maxBody headEnd r1)"

definition process_turn :: "Env \<Rightarrow> int \<Rightarrow> Reactor \<Rightarrow> Reactor \<times> bool" where
  "process_turn env c r =
     (case find_sub (crlf @ crlf) (c_buf (conns r c)) of
        None \<Rightarrow> (await_head env c r, False)
      | Some headEnd \<Rightarrow>
          let r1 = upd_conn c (\<lambda>k. k\<lparr>c_headPending := False\<rparr>) r;
              head = parseRequestHead (c_buf (conns r c)) headEnd
          in if \<not> ph_ok head then (refuse_with env c (if ph_badVersion head then 505 else 400) r1, False)
             else case uvFraming head of ((status, reason), chunked) \<Rightarrow>
               if status \<noteq> 0 then (refuse_with env c status r1, False)
               else take_request env c head chunked headEnd r1)"

section \<open>The loop\<close>

lemma busy_begin_answer [simp]: "c_busy (conns (begin_answer env c bs ka fin r) c)"
  by (simp add: begin_answer_def start_write_def)

lemma busy_close [simp]:
  "c_busy (conns (uv_close c r) d) = c_busy (conns r d)" "c_busy (conns (close_if_open c r) d) = c_busy (conns r d)"
  "c_busy (conns (drop_slow_reader c r) d) = c_busy (conns r d)" "c_busy (conns (ws_mark_closing c code r) d) = c_busy (conns r d)"
  by (auto simp: uv_close_def close_if_open_def drop_slow_reader_def ws_mark_closing_def Let_def split: option.splits)

lemma busy_write:
  "c_busy (conns (writeAnswer env c bs ka fin r) c)"
  "c_busy (conns r c) \<Longrightarrow> c_busy (conns (wsCloseConn env c code r) c)"
  by (induction env c bs ka fin r and env c code r rule: writeAnswer_wsCloseConn.induct)
    (simp_all add: writeAnswer.simps wsCloseConn.simps Let_def)

text \<open>Every \<open>continue\<close> of the loop follows an answer, and an answer makes the connection busy.\<close>

lemma answer_request_continues: "answer_request env c head m path query body clen ka r = (r', True) \<Longrightarrow> c_busy (conns r' c)"
  by (auto simp: answer_request_def answer_unmatched_def answer_static_def Let_def intro: busy_write(1) split: if_splits option.splits)

lemma process_turn_continues: "process_turn env c r = (r', True) \<Longrightarrow> c_busy (conns r' c)"
  by (auto simp: process_turn_def take_request_def take_body_def Let_def dest: answer_request_continues
      split: option.splits if_splits prod.splits body_read.splits)

function process_loop :: "Env \<Rightarrow> int \<Rightarrow> Reactor \<Rightarrow> Reactor" where
  "process_loop env c r =
     (if c_busy (conns r c) \<or> c_closing (conns r c) then r
      else case process_turn env c r of (r', go) \<Rightarrow> if go then process_loop env c r' else r')"
  by pat_completeness auto

termination
  by (relation "measure (\<lambda>(env, c, r). if c_busy (conns r c) then 0 else 1)") (auto dest: process_turn_continues [OF sym])

declare process_loop.simps [simp del]

definition processConn :: "Env \<Rightarrow> int \<Rightarrow> Reactor \<Rightarrow> Reactor" where
  "processConn env c r = (if c_streamingBody (conns r c) then r else process_loop env c r)"

section \<open>Landed writes\<close>

definition kChunk :: int where "kChunk = 256 * 1024"

text \<open>\<open>uv_fs_read\<close> returns at most the bytes asked for; \<open>[]\<close> stands for its results at or below zero.\<close>

definition fs_read :: "Env \<Rightarrow> int \<Rightarrow> int \<Rightarrow> nat \<Rightarrow> string" where
  "fs_read env fd offset want = (case e_read env fd offset want of None \<Rightarrow> [] | Some s \<Rightarrow> take want s)"

definition continueFileSend :: "Env \<Rightarrow> int \<Rightarrow> Reactor \<Rightarrow> Reactor" where
  "continueFileSend env c r =
     (let k = conns r c; fd = c_fileFd k in
      if fd < 0 \<or> c_closing k then r
      else
        let chunk = fs_read env fd (c_fileOffset k) (nat (min kChunk (c_fileRemaining k))) in
        if chunk = [] then
          close_if_open c (upd_conn c (\<lambda>k. k\<lparr>c_closing := True\<rparr>)
            (broadcastEvent ClientError c ''file answer truncated''
              (upd_conn c (\<lambda>k. k\<lparr>c_fileFd := -1\<rparr>) (log_effect (FsClose fd) r))))
        else
          let r1 = upd_conn c (\<lambda>k. k\<lparr>c_fileOffset := c_fileOffset k + int (length chunk),
                     c_fileRemaining := c_fileRemaining k - int (length chunk)\<rparr>) r;
              isLast = (c_fileRemaining (conns r1 c) \<le> 0);
              r2 = (if isLast then upd_conn c (\<lambda>k. k\<lparr>c_fileFd := -1\<rparr>) (log_effect (FsClose fd) r1) else r1)
          in writeAnswer env c chunk (c_fileKeepAlive k) isLast r2)"

text \<open>The oldest write of a connection completes with a status.\<close>

definition onWrite :: "Env \<Rightarrow> int \<Rightarrow> int \<Rightarrow> Reactor \<Rightarrow> Reactor" where
  "onWrite env c status r =
     (case h_writes (conns r c) of
        [] \<Rightarrow> r
      | ctx # rest \<Rightarrow>
          let r1 = upd_conn c (\<lambda>k. k\<lparr>h_writes := rest,
                     c_writePending := max 0 (c_writePending k - int (length (wc_payload ctx)))\<rparr>) r;
              k = conns r1 c
          in if status < 0 then
               (if \<not> h_closing k then uv_close c (upd_conn c (\<lambda>k. k\<lparr>c_closing := True\<rparr>) r1) else r1)
             else if \<not> wc_finish ctx then
               (if c_fileFd k \<ge> 0 \<and> c_writePending k = 0 then continueFileSend env c r1 else r1)
             else
               let r2 = upd_conn c (\<lambda>k. k\<lparr>c_served := c_served k + 1, c_hasDeadline := False, c_responseStarted := False,
                          c_reqIdInFlight := -1, c_continueSent := False, c_lastActive := e_now env\<rparr>) r1
               in if \<not> wc_keepAlive ctx \<or> c_closing (conns r2 c)
                  then close_if_open c (upd_conn c (\<lambda>k. k\<lparr>c_closing := True\<rparr>) r2)
                  else processConn env c (upd_conn c (\<lambda>k. k\<lparr>c_busy := False\<rparr>) r2))"

section \<open>Bytes from the socket\<close>

definition overBusyBuffer :: "Env \<Rightarrow> int \<Rightarrow> Reactor \<Rightarrow> Reactor \<times> bool" where
  "overBusyBuffer env c r =
     (let k = conns r c in
      if \<not> c_busy k \<or> c_streamingBody k \<or> c_ws k then (r, False)
      else if int (length (c_buf k)) \<le> 65536 + server_max r then (r, False)
      else (refuse_with env c 400
              (upd_conn c (\<lambda>k. k\<lparr>c_buf := []\<rparr>) (broadcastEvent ClientError c ''pipelined bytes exceed the buffer cap'' r)), True))"

text \<open>\<open>c->closing = true; uv_close(s)\<close>, unconditional.\<close>

definition close_now :: "int \<Rightarrow> Reactor \<Rightarrow> Reactor" where
  "close_now c r = uv_close c (upd_conn c (\<lambda>k. k\<lparr>c_closing := True\<rparr>) r)"

text \<open>\<open>if (it != end() && --it->second <= 0) ipCounts_.erase(it)\<close>.\<close>

definition ip_release :: "string \<Rightarrow> (string \<times> int) list \<Rightarrow> (string \<times> int) list" where
  "ip_release ip m =
     (case map_of m ip of
        None \<Rightarrow> m
      | Some n \<Rightarrow> if n - 1 \<le> 0 then AList.delete ip m else AList.update ip (n - 1) m)"

definition ip_count :: "string \<Rightarrow> (string \<times> int) list \<Rightarrow> int" where
  "ip_count ip m = (case map_of m ip of None \<Rightarrow> 0 | Some n \<Rightarrow> n)"

text \<open>Move the per-address slot from the socket peer to the client the PROXY header names; \<open>True\<close> if over the cap.\<close>

definition move_ip_slot :: "int \<Rightarrow> string \<Rightarrow> Reactor \<Rightarrow> Reactor \<times> bool" where
  "move_ip_slot c ip r =
     (let peer = c_peerIp (conns r c);
          m1 = (if peer \<noteq> [] then ip_release peer (ipCounts r) else ipCounts r);
          r1 = upd_conn c (\<lambda>k. k\<lparr>c_peerIp := []\<rparr>) (r\<lparr>ipCounts := m1\<rparr>);
          count = ip_count ip m1
      in if count \<ge> maxConnectionsPerIp (cfg r)
         then (r1\<lparr>ipCounts := (if count = 0 then AList.delete ip m1 else m1)\<rparr>, True)
         else (upd_conn c (\<lambda>k. k\<lparr>c_peerIp := ip\<rparr>) (r1\<lparr>ipCounts := AList.update ip (count + 1) m1\<rparr>), False))"

text \<open>The PROXY header: the bytes left to process, or \<open>None\<close> where \<open>readCb\<close> returns.\<close>

definition read_proxy :: "Env \<Rightarrow> int \<Rightarrow> string \<Rightarrow> Reactor \<Rightarrow> Reactor \<times> string option" where
  "read_proxy env c data r =
     (let r1 = upd_conn c (\<lambda>k. k\<lparr>c_proxyBuf := c_proxyBuf k @ data\<rparr>) r; buf = c_proxyBuf (conns r1 c) in
      case uvParseProxyHeader (e_pton env) (e_ntop env) buf of
        ProxyMore \<Rightarrow> (if length buf > 16 + 65535 then close_now c r1 else r1, None)
      | ProxyBad \<Rightarrow> (close_now c (broadcastEvent ClientError c ''invalid PROXY protocol header'' r1), None)
      | ProxyOk ip used \<Rightarrow>
          let r2 = upd_conn c (\<lambda>k. k\<lparr>c_proxyDone := True\<rparr>) r1;
              r3 = (if ip \<noteq> [] then upd_conn c (\<lambda>k. k\<lparr>c_clientIp := ip\<rparr>) r2 else r2);
              (r4, over) = (if ip \<noteq> [] \<and> maxConnectionsPerIp (cfg r) > 0 \<and> ip \<noteq> c_peerIp (conns r3 c)
                            then move_ip_slot c ip r3 else (r3, False))
          in if over then (close_now c r4, None)
             else
               let carry = drop used buf; r5 = upd_conn c (\<lambda>k. k\<lparr>c_proxyBuf := []\<rparr>) r4
               in (r5, if carry = [] then None else Some carry))"

definition feed :: "Env \<Rightarrow> int \<Rightarrow> string \<Rightarrow> Reactor \<Rightarrow> Reactor" where
  "feed env c data r =
     (case overBusyBuffer env c (upd_conn c (\<lambda>k. k\<lparr>c_buf := c_buf k @ data\<rparr>) r) of (r1, over) \<Rightarrow>
        let k = conns r1 c in
        if over then r1
        else if c_streamingBody k then (if c_streamChunked k then emitStreamChunked env c r1 else emitStreamBytes env c r1)
        else if c_ws k then wsProcess env c r1
        else processConn env c r1)"

text \<open>\<open>nread < 0\<close>: end of stream or an error. libuv has stopped reading by then.\<close>

definition read_eof :: "Env \<Rightarrow> int \<Rightarrow> Reactor \<Rightarrow> Reactor" where
  "read_eof env c r =
     (let r1 = upd_conn c (\<lambda>k. k\<lparr>h_reading := False\<rparr>) r; k = conns r1 c in
      if \<not> c_busy k \<and> \<not> c_ws k \<and> \<not> c_closing k \<and> find_sub (crlf @ crlf) (c_buf k) \<noteq> None
      then refuse_with env c 400 r1
      else close_now c r1)"

definition readCb :: "Env \<Rightarrow> int \<Rightarrow> string \<Rightarrow> Reactor \<Rightarrow> Reactor" where
  "readCb env c data r =
     (if data = [] then r
      else
        let r1 = upd_conn c (\<lambda>k. k\<lparr>c_lastActive := e_now env, c_wsPingSent := False\<rparr>) r in
        if proxyProtocol (cfg r) \<and> \<not> c_proxyDone (conns r1 c) then
          (case read_proxy env c data r1 of
             (r2, None) \<Rightarrow> r2
           | (r2, Some carry) \<Rightarrow> feed env c carry r2)
        else feed env c data r1)"

end
