(* ===== verification/ReactorLoop.thy ===== *)
theory ReactorLoop
  imports ReactorHttp
begin

text \<open>
  The reactor's lifecycle and its cross-thread surface: accepting and closing connections with the
  admission counters, the answers of the handlers (\<open>respond\<close>, \<open>respondFile\<close>, \<open>startStream\<close>,
  \<open>sendStreamChunk\<close>), the loop's wake-up \<open>onAsync\<close>, the periodic \<open>onSweep\<close>, \<open>start\<close> and \<open>stop\<close>.
\<close>

section \<open>Admission\<close>

text \<open>A dual-stack listener reports IPv4 peers as \<open>::ffff:a.b.c.d\<close>.\<close>

definition norm_peer :: "string \<Rightarrow> string" where
  "norm_peer ip =
     (if length ip > 7 \<and> take 7 ip = ''::ffff:'' \<and> find_sub ''.'' ip \<noteq> None then drop 7 ip else ip)"

definition k503 :: string where
  "k503 = ''HTTP/1.1 503 Service Unavailable'' @ crlf @ ''Connection: close'' @ crlf @ ''Content-Length: 0'' @ crlf @ crlf"

text \<open>The per-address half of the decision: the refusal flag and the slot taken.\<close>

definition admit_ip :: "int \<Rightarrow> string \<Rightarrow> bool \<Rightarrow> Reactor \<Rightarrow> Reactor \<times> bool" where
  "admit_ip c ip refuse r =
     (if \<not> refuse \<and> maxConnectionsPerIp (cfg r) > 0 \<and> ip \<noteq> [] then
        (if ip_count ip (ipCounts r) \<ge> maxConnectionsPerIp (cfg r) then (r, True)
         else (upd_conn c (\<lambda>k. k\<lparr>c_peerIp := ip\<rparr>)
                 (r\<lparr>ipCounts := AList.update ip (ip_count ip (ipCounts r) + 1) (ipCounts r)\<rparr>), False))
      else (r, refuse))"

text \<open>Refused: while draining answer 503 first, and close when that write is done or cannot start.\<close>

definition refuse_conn :: "int \<Rightarrow> bool \<Rightarrow> Reactor \<Rightarrow> Reactor" where
  "refuse_conn c writeOk r =
     (let r1 = upd_conn c (\<lambda>k. k\<lparr>c_closing := True\<rparr>) r in
      if draining r1 then
        (if writeOk then log_effect (UvWrite c k503) (r1\<lparr>drainWrites := c # drainWrites r1\<rparr>) else uv_close c r1)
      else uv_close c r1)"

text \<open>The write callback of the refusal.\<close>

definition onDrainWrite :: "int \<Rightarrow> Reactor \<Rightarrow> Reactor" where
  "onDrainWrite c r = uv_close c (r\<lparr>drainWrites := remove1 c (drainWrites r)\<rparr>)"

text \<open>
  \<open>onConnection\<close> on loop \<open>i\<close>. The outcomes of libuv's calls are arguments: whether \<open>uv_accept\<close>
  succeeded, the peer's address if \<open>uv_tcp_getpeername\<close> knows it, whether the refusal's \<open>uv_write\<close> started.
\<close>

definition onConnection :: "Env \<Rightarrow> nat \<Rightarrow> bool \<Rightarrow> string option \<Rightarrow> bool \<Rightarrow> Reactor \<Rightarrow> Reactor" where
  "onConnection env i acceptOk peer writeOk r =
     (let c = nextId r;
          r1 = r\<lparr>nextId := c + 1, conns := (conns r)(c := new_conn\<lparr>c_lp := i\<rparr>), alive := c # alive r\<rparr>
      in if \<not> acceptOk then uv_close c r1
         else
           let ip = (case peer of None \<Rightarrow> [] | Some p \<Rightarrow> norm_peer p);
               r2 = upd_conn c (\<lambda>k. k\<lparr>c_clientIp := ip\<rparr>) r1;
               over = (draining r2 \<or> (maxConnections (cfg r2) > 0 \<and> liveConns r2 \<ge> maxConnections (cfg r2)));
               (r3, refuse) = admit_ip c ip over r2
           in if refuse then refuse_conn c writeOk r3
              else upd_loop i (\<lambda>l. l\<lparr>lp_conns := c # lp_conns l\<rparr>)
                     (upd_conn c (\<lambda>k. k\<lparr>c_counted := True, c_lastActive := e_now env, c_openedAt := e_now env, h_reading := True\<rparr>)
                       (r3\<lparr>liveConns := liveConns r3 + 1\<rparr>)))"

definition releaseAdmission :: "int \<Rightarrow> Reactor \<Rightarrow> Reactor" where
  "releaseAdmission c r =
     (let r1 = (if c_counted (conns r c)
                then upd_conn c (\<lambda>k. k\<lparr>c_counted := False\<rparr>) (r\<lparr>liveConns := liveConns r - 1\<rparr>) else r);
          ip = c_peerIp (conns r1 c)
      in if ip \<noteq> [] then upd_conn c (\<lambda>k. k\<lparr>c_peerIp := []\<rparr>) (r1\<lparr>ipCounts := ip_release ip (ipCounts r1)\<rparr>) else r1)"

text \<open>The requests of a connection that goes away: out of the table, their logs orphaned, the runner told.\<close>

definition drop_requests :: "int \<Rightarrow> Reactor \<Rightarrow> Reactor" where
  "drop_requests c r =
     (let dropped = map fst (filter (\<lambda>(i, loc). rl_connId loc = c) (reqLoc r));
          r1 = r\<lparr>pending := fold erase dropped (pending r), reqLoc := filter (\<lambda>(i, loc). rl_connId loc \<noteq> c) (reqLoc r)\<rparr>
      in fold (\<lambda>i. broadcastEvent ClientDisconnect i []) dropped r1)"

definition onCloseConn :: "int \<Rightarrow> Reactor \<Rightarrow> Reactor" where
  "onCloseConn c r =
     (let fd = c_fileFd (conns r c);
          r1 = (if fd \<ge> 0 then upd_conn c (\<lambda>k. k\<lparr>c_fileFd := -1\<rparr>) (log_effect (FsClose fd) r) else r);
          r2 = upd_loop (c_lp (conns r1 c)) (\<lambda>l. l\<lparr>lp_conns := removeAll c (lp_conns l)\<rparr>) r1;
          r3 = releaseAdmission c r2;
          r4 = (if c_ws (conns r3 c)
                then r3\<lparr>wsConnLoop := AList.delete c (wsConnLoop r3), pending := dropPayloads c (pending r3)\<rparr>
                else drop_requests c r3)
      in r4\<lparr>alive := removeAll c (alive r4)\<rparr>)"

section \<open>Answers\<close>

text \<open>\<open>body\<close> is \<open>None\<close> for a null pointer; \<open>bodyLen\<close> may exceed the bytes given only where none are read.\<close>

definition respond :: "Env \<Rightarrow> int \<Rightarrow> int \<Rightarrow> header list \<Rightarrow> string option \<Rightarrow> nat \<Rightarrow> Reactor \<Rightarrow> Reactor" where
  "respond env i status headers body bodyLen r =
     (if \<not> running r then r
      else case lookupReq i True r of
        (r1, None) \<Rightarrow> r1
      | (r1, Some loc) \<Rightarrow>
          let r2 = r1\<lparr>completions := completions r1 + 1\<rparr>;
              head = uvBuildHead (e_time env) status headers (int bodyLen) (rl_keepAlive loc) (keepAliveHeaderSecs r2);
              content = (case body of None \<Rightarrow> [] | Some b \<Rightarrow> take bodyLen b)
          in pushWrite loc (head @ (if \<not> rl_isHead loc \<and> \<not> bodyless status then content else [])) True r2)"

text \<open>
  \<open>int64_t\<close> addition. An overflow is undefined in C++; it is written here as the wrap-around compilers
  emit.
\<close>

definition wrap64 :: "int \<Rightarrow> int" where
  "wrap64 x = (x + 2 ^ 63) mod 2 ^ 64 - 2 ^ 63"

text \<open>The bytes of the file an answer covers: \<open>None\<close> for a start past the end.\<close>

definition file_range :: "int \<Rightarrow> int \<Rightarrow> int \<Rightarrow> (int \<times> int) option" where
  "file_range fsz offset len =
     (let off = (if offset < 0 then 0 else offset) in
      if off > fsz then None
      else let e = (if len < 0 then fsz else min fsz (wrap64 (off + len)))
           in Some (off, if e > off then e - off else 0))"

definition respond_not_found :: "Env \<Rightarrow> int \<Rightarrow> Reactor \<Rightarrow> Reactor" where
  "respond_not_found env i r = respond env i 404 [hdr ''Content-Type'' ''text/plain''] (Some ''not found'') 9 r"

text \<open>
  \<open>fopen\<close> gives the descriptor for a path (negative for failure), \<open>fstat\<close> the size of an open
  regular file (\<open>None\<close> for anything else).
\<close>

definition respondFile ::
  "Env \<Rightarrow> (string \<Rightarrow> int) \<Rightarrow> (int \<Rightarrow> int option) \<Rightarrow> int \<Rightarrow> int \<Rightarrow> header list \<Rightarrow> string \<Rightarrow> int \<Rightarrow> int \<Rightarrow> Reactor \<Rightarrow> Reactor" where
  "respondFile env fopen fstat i status headers path offset len r =
     (if \<not> running r then r
      else
        let fd = fopen (c_str path) in
        if fd < 0 then respond_not_found env i r
        else case fstat fd of
          None \<Rightarrow> respond_not_found env i (log_effect (FsClose fd) r)
        | Some fsz \<Rightarrow>
            (case file_range fsz offset len of
               None \<Rightarrow> respond_not_found env i (log_effect (FsClose fd) r)
             | Some (off, n) \<Rightarrow>
                 (case lookupReq i False r of
                    (r1, None) \<Rightarrow> log_effect (FsClose fd) r1
                  | (r1, Some loc) \<Rightarrow>
                      if rl_isHead loc \<or> n = 0 then
                        respond env i status headers (Some []) (if rl_isHead loc then nat n else 0) (log_effect (FsClose fd) r1)
                      else
                        let r2 = fst (lookupReq i True r1); r3 = r2\<lparr>completions := completions r2 + 1\<rparr>
                        in push_queue (rl_loopIdx loc)
                             \<lparr>q_connId = rl_connId loc,
                              q_bytes = uvBuildHead (e_time env) status headers n (rl_keepAlive loc) (keepAliveHeaderSecs r3),
                              q_keepAlive = rl_keepAlive loc, q_finish = False, q_fileFd = fd, q_fileOffset = off,
                              q_fileRemaining = n\<rparr> r3)))"

definition startStream :: "Env \<Rightarrow> int \<Rightarrow> int \<Rightarrow> header list \<Rightarrow> Reactor \<Rightarrow> Reactor" where
  "startStream env i status headers r =
     (if \<not> running r then r
      else case lookupReq i False r of
        (r1, None) \<Rightarrow> r1
      | (r1, Some loc) \<Rightarrow>
          let r2 = pushWrite loc (uvBuildStreamHead (e_time env) status headers (rl_keepAlive loc) (keepAliveHeaderSecs r1))
                     (rl_isHead loc) r1
          in if rl_isHead loc then fst (lookupReq i True r2) else r2)"

definition sendStreamChunk :: "int \<Rightarrow> string \<Rightarrow> bool \<Rightarrow> Reactor \<Rightarrow> Reactor" where
  "sendStreamChunk i chunk isLast r =
     (if \<not> running r then r
      else if chunk = [] \<and> \<not> isLast then r
      else case lookupReq i False r of
        (r1, None) \<Rightarrow> r1
      | (r1, Some loc) \<Rightarrow>
          let r2 = (if isLast then (let r' = fst (lookupReq i True r1) in r'\<lparr>completions := completions r' + 1\<rparr>) else r1)
          in pushWrite loc (stream_chunk_bytes chunk isLast) isLast r2)"

section \<open>Waking a loop\<close>

text \<open>The inner \<open>while\<close> of \<open>onAsync\<close>: merge the following entries of the same connection.\<close>

fun merge_run :: "int \<Rightarrow> string \<Rightarrow> bool \<Rightarrow> bool \<Rightarrow> Pending list \<Rightarrow> string \<times> bool \<times> bool \<times> Pending list" where
  "merge_run cid merged ka fin [] = (merged, ka, fin, [])"
| "merge_run cid merged ka fin (p # ps) =
     (if \<not> fin \<and> q_connId p = cid \<and> q_fileFd p < 0
      then merge_run cid (merged @ q_bytes p) (q_keepAlive p) (q_finish p) ps
      else (merged, ka, fin, p # ps))"

lemma merge_run_length: "merge_run cid m ka fin ps = (m', ka', fin', rest) \<Longrightarrow> length rest \<le> length ps"
  by (induction cid m ka fin ps rule: merge_run.induct) (auto split: if_splits)

definition conn_on_loop :: "nat \<Rightarrow> int \<Rightarrow> Reactor \<Rightarrow> bool" where
  "conn_on_loop i c r \<longleftrightarrow> c \<in> set (lp_conns (loops r ! i)) \<and> \<not> c_closing (conns r c)"

definition begin_file :: "Env \<Rightarrow> nat \<Rightarrow> Pending \<Rightarrow> Reactor \<Rightarrow> Reactor" where
  "begin_file env i p r =
     (let c = q_connId p in
      if \<not> conn_on_loop i c r then log_effect (FsClose (q_fileFd p)) r
      else writeAnswer env c (q_bytes p) (q_keepAlive p) False
             (upd_conn c (\<lambda>k. k\<lparr>c_fileFd := q_fileFd p, c_fileOffset := q_fileOffset p, c_fileRemaining := q_fileRemaining p,
                c_fileKeepAlive := q_keepAlive p\<rparr>) r))"

function drain_batch :: "Env \<Rightarrow> nat \<Rightarrow> Pending list \<Rightarrow> Reactor \<Rightarrow> Reactor" where
  "drain_batch env i [] r = r"
| "drain_batch env i (p # ps) r =
     (if q_fileFd p \<ge> 0 then drain_batch env i ps (begin_file env i p r)
      else case merge_run (q_connId p) (q_bytes p) (q_keepAlive p) (q_finish p) ps of
        (merged, ka, fin, rest) \<Rightarrow>
          drain_batch env i rest
            (if conn_on_loop i (q_connId p) r then writeAnswer env (q_connId p) merged ka fin r else r))"
  by pat_completeness auto

termination
  by (relation "measure (\<lambda>(env, i, ps, r). length ps)") (auto dest: merge_run_length [OF sym])

definition close_loop :: "nat \<Rightarrow> Reactor \<Rightarrow> Reactor" where
  "close_loop i r =
     (let r1 = fold (\<lambda>c r. if \<not> h_closing (conns r c) then uv_close c (upd_conn c (\<lambda>k. k\<lparr>c_closing := True\<rparr>) r) else r)
            (lp_conns (loops r ! i)) r
      in upd_loop i (\<lambda>l. l\<lparr>lp_serverClosing := True, lp_asyncClosing := True, lp_sweepClosing := True\<rparr>) r1)"

definition onAsync :: "Env \<Rightarrow> nat \<Rightarrow> Reactor \<Rightarrow> Reactor" where
  "onAsync env i r =
     (let batch = lp_queue (loops r ! i);
          stopping = lp_stopping (loops r ! i);
          r1 = upd_loop i (\<lambda>l. l\<lparr>lp_queue := []\<rparr>) r;
          r2 = drain_batch env i batch r1
      in if stopping then close_loop i r2 else r2)"

section \<open>The sweep\<close>

record Sweep =
  sw_state :: Reactor
  sw_idle :: "int list"
  sw_stalled :: "int list"
  sw_streamIdle :: "int list"
  sw_timedOut :: "(int \<times> ServerEventKind \<times> string) list"

definition body_ms :: "ServerConfig \<Rightarrow> int" where
  "body_ms cf = (if bodyTimeoutMs cf > 0 then bodyTimeoutMs cf else keepAliveTimeoutMs cf)"

definition write_ms :: "ServerConfig \<Rightarrow> int" where
  "write_ms cf = (if writeTimeoutMs cf > 0 then writeTimeoutMs cf else 30000)"

text \<open>A WebSocket: ping a quiet peer at half the window, give it up at the full window.\<close>

definition sweep_ws :: "Env \<Rightarrow> int \<Rightarrow> Reactor \<Rightarrow> Reactor" where
  "sweep_ws env c r =
     (let cf = cfg r; k = conns r c; quiet = e_now env - c_lastActive k in
      if wsIdleTimeoutMs cf > 0 then
        (if quiet \<ge> ms (wsIdleTimeoutMs cf) then
           wsCloseConn env c 1001 (broadcastEvent ClientError c ''websocket idle timeout'' r)
         else if \<not> c_wsPingSent k \<and> quiet \<ge> ms (wsIdleTimeoutMs cf div 2) then
           upd_conn c (\<lambda>k. k\<lparr>c_wsPingSent := True\<rparr>)
             (writeAnswer env c (string_of (encodeFrame kPing [] True)) True False r)
         else r)
      else r)"

text \<open>A connection that is answering: the handler's deadline, a stalled upload, a silent stream.\<close>

definition sweep_busy :: "Env \<Rightarrow> int \<Rightarrow> Sweep \<Rightarrow> Sweep" where
  "sweep_busy env c s =
     (let r = sw_state s; cf = cfg r; k = conns r c in
      if c_hasDeadline k \<and> e_now env \<ge> c_reqDeadline k \<and> c_reqIdInFlight k \<ge> 0 then
        s\<lparr>sw_timedOut := sw_timedOut s @ [(c, HandlerTimeout, ''handler timed out'')]\<rparr>
      else if c_streamingBody k \<and> c_reqIdInFlight k \<ge> 0 \<and> body_ms cf > 0 \<and> e_now env - c_lastActive k \<ge> ms (body_ms cf) then
        s\<lparr>sw_timedOut := sw_timedOut s @ [(c, ClientError, ''request body timed out'')]\<rparr>
      else if c_responseStarted k \<and> c_reqIdInFlight k \<ge> 0 \<and> c_writePending k = 0 \<and> streamIdleTimeoutMs cf > 0 \<and>
              e_now env - c_lastWriteAt k \<ge> ms (streamIdleTimeoutMs cf) then
        s\<lparr>sw_streamIdle := sw_streamIdle s @ [c]\<rparr>
      else s)"

text \<open>A connection between requests: a stalled body, a slow head, an expired or idle connection.\<close>

definition sweep_idle :: "Env \<Rightarrow> int \<Rightarrow> Sweep \<Rightarrow> Sweep" where
  "sweep_idle env c s =
     (let r = sw_state s; cf = cfg r; k = conns r c; now = e_now env in
      if c_bodyPending k then
        (if body_ms cf > 0 \<and> now - c_lastActive k \<ge> ms (body_ms cf) then s\<lparr>sw_stalled := sw_stalled s @ [c]\<rparr> else s)
      else if headerTimeoutMs cf > 0 \<and> c_headPending k \<and> now - c_headStartedAt k \<ge> ms (headerTimeoutMs cf) then
        s\<lparr>sw_state := broadcastEvent ClientError c ''request head timed out'' r, sw_idle := sw_idle s @ [c]\<rparr>
      else if c_ageExpired k then s\<lparr>sw_idle := sw_idle s @ [c]\<rparr>
      else
        let idleMs = (if c_served k = 0 \<and> headerTimeoutMs cf > 0 then headerTimeoutMs cf else keepAliveTimeoutMs cf)
        in if idleMs > 0 \<and> now - c_lastActive k \<ge> ms idleMs then s\<lparr>sw_idle := sw_idle s @ [c]\<rparr> else s)"

text \<open>Past the hard lifetime: an answer in flight says close.\<close>

definition expire_age :: "int \<Rightarrow> Reactor \<Rightarrow> Reactor" where
  "expire_age c r =
     (let r1 = upd_conn c (\<lambda>k. k\<lparr>c_ageExpired := True\<rparr>) r; k = conns r1 c in
      if c_busy k \<and> c_reqIdInFlight k \<ge> 0 then
        (case map_of (reqLoc r1) (c_reqIdInFlight k) of
           None \<Rightarrow> r1
         | Some loc \<Rightarrow> r1\<lparr>reqLoc := AList.update (c_reqIdInFlight k) (loc\<lparr>rl_keepAlive := False\<rparr>) (reqLoc r1)\<rparr>)
      else r1)"

definition sweep_conn :: "Env \<Rightarrow> int \<Rightarrow> Sweep \<Rightarrow> Sweep" where
  "sweep_conn env c s =
     (let r = sw_state s; cf = cfg r; k = conns r c; now = e_now env in
      if c_closing k then s
      else if c_writePending k > 0 \<and> now - c_writeStartedAt k \<ge> ms (write_ms cf) then
        s\<lparr>sw_state := close_if_open c (broadcastEvent ClientError c ''write timed out'' (upd_conn c (\<lambda>k. k\<lparr>c_closing := True\<rparr>) r))\<rparr>
      else
        let expired = (maxConnectionAgeMs cf > 0 \<and> \<not> c_ageExpired k \<and> now - c_openedAt k \<ge> ms (maxConnectionAgeMs cf)) in
        if expired \<and> c_ws k then
          s\<lparr>sw_state := wsCloseConn env c 1001 (upd_conn c (\<lambda>k. k\<lparr>c_ageExpired := True\<rparr>) r)\<rparr>
        else
          let s1 = (if expired then s\<lparr>sw_state := expire_age c r\<rparr> else s) in
          if c_ws k then s1\<lparr>sw_state := sweep_ws env c (sw_state s1)\<rparr>
          else if c_busy k then sweep_busy env c s1
          else sweep_idle env c s1)"

definition close_idle :: "int \<Rightarrow> Reactor \<Rightarrow> Reactor" where
  "close_idle c r = close_if_open c (upd_conn c (\<lambda>k. k\<lparr>c_closing := True\<rparr>) r)"

definition answer_stalled :: "Env \<Rightarrow> int \<Rightarrow> Reactor \<Rightarrow> Reactor" where
  "answer_stalled env c r = refuse_with env c 408 (broadcastEvent ClientError c ''request body timed out'' r)"

definition close_stream_idle :: "int \<Rightarrow> Reactor \<Rightarrow> Reactor" where
  "close_stream_idle c r =
     (let i = c_reqIdInFlight (conns r c);
          r1 = broadcastEvent ClientError i ''stream idle timeout'' (fst (lookupReq i True r))
      in close_if_open c (upd_conn c (\<lambda>k. k\<lparr>c_reqIdInFlight := -1, c_responseStarted := False, c_closing := True\<rparr>) r1))"

definition time_out_request :: "Env \<Rightarrow> nat \<Rightarrow> int \<times> ServerEventKind \<times> string \<Rightarrow> Reactor \<Rightarrow> Reactor" where
  "time_out_request env i e r =
     (case e of (c, kd, why) \<Rightarrow>
        if c \<notin> set (lp_conns (loops r ! i)) then r
        else
          let q = c_reqIdInFlight (conns r c) in
          case lookupReq q True r of
            (r1, None) \<Rightarrow> r1
          | (r1, Some loc) \<Rightarrow>
              broadcastEvent kd q why
                (refuse_with env c 408
                  (upd_conn c (\<lambda>k. k\<lparr>c_hasDeadline := False, c_reqIdInFlight := -1, c_streamingBody := False\<rparr>) r1)))"

definition onSweep :: "Env \<Rightarrow> (int \<Rightarrow> int \<Rightarrow> bool) \<Rightarrow> nat \<Rightarrow> Reactor \<Rightarrow> Reactor" where
  "onSweep env faster i r =
     (let r0 = (if i = 0 then runDispatchController faster r else r);
          s = fold (sweep_conn env) (lp_conns (loops r0 ! i))
                \<lparr>sw_state = r0, sw_idle = [], sw_stalled = [], sw_streamIdle = [], sw_timedOut = []\<rparr>;
          r1 = fold close_idle (sw_idle s) (sw_state s);
          r2 = fold (answer_stalled env) (sw_stalled s) r1;
          r3 = fold close_stream_idle (sw_streamIdle s) r2
      in fold (time_out_request env i) (sw_timedOut s) r3)"

section \<open>Starting and stopping\<close>

text \<open>
  The process-wide registry of bound ports, and the listening sockets a server holds open. What the
  operating system answers when a socket is opened, bound and listened on is an argument: \<open>sock i\<close> for
  the \<open>i\<close>-th socket, with the port \<open>getsockname\<close> reports.
\<close>

record Host =
  boundPorts :: "int list"
  openSocks :: "nat list"

datatype sock_outcome = NoSocket | NoBind | NoListen int | Listening int

definition loop_count :: "int \<Rightarrow> nat \<Rightarrow> ServerConfig \<Rightarrow> int" where
  "loop_count n cores cf =
     (let m = (if n > 0 then n else if cores = 0 then 4 else int cores)
      in if n \<le> 0 \<and> workerThreads cf > 0 \<and> workerThreads cf < m then workerThreads cf else m)"

definition start_dispatch :: "string option \<Rightarrow> Reactor \<Rightarrow> Reactor" where
  "start_dispatch dw r =
     (case dw of
        Some v \<Rightarrow> if strtoll v \<ge> 0 then r\<lparr>dispatchWidth := nat (strtoll v), ctlEnabled := False\<rparr> else r
      | None \<Rightarrow> r\<lparr>dispatchWidth := 1\<rparr>)"

definition release_port :: "Reactor \<times> Host \<Rightarrow> Reactor \<times> Host" where
  "release_port x =
     (case x of (r, h) \<Rightarrow>
        if reservedPort r \<noteq> 0 then (r\<lparr>reservedPort := 0\<rparr>, h\<lparr>boundPorts := removeAll (reservedPort r) (boundPorts h)\<rparr>) else (r, h))"

text \<open>\<open>releaseAndFail\<close>: close the sockets opened so far, give the port back, not running.\<close>

definition releaseAndFail :: "nat list \<Rightarrow> string \<Rightarrow> Reactor \<times> Host \<Rightarrow> Reactor \<times> Host \<times> StatusResult" where
  "releaseAndFail fds msg x =
     (case release_port x of (r, h) \<Rightarrow>
        (r\<lparr>running := False\<rparr>, h\<lparr>openSocks := filter (\<lambda>s. s \<notin> set fds) (openSocks h)\<rparr>,
         \<lparr>kind = BindFailed, message = msg, boundPort = 0\<rparr>))"

definition pin_port :: "int \<Rightarrow> Reactor \<times> Host \<Rightarrow> Reactor \<times> Host" where
  "pin_port bp x =
     (case x of (r, h) \<Rightarrow>
        let r1 = r\<lparr>bound_port := bp, cfg := (cfg r)\<lparr>port := bp\<rparr>\<rparr> in
        if reservedPort r1 = 0 then (r1\<lparr>reservedPort := bp\<rparr>, h\<lparr>boundPorts := List.insert bp (boundPorts h)\<rparr>) else (r1, h))"

text \<open>Phase one, from socket \<open>i\<close> with \<open>n\<close> still to bind: the sockets, or the failure.\<close>

fun bind_sockets ::
  "(addr_family \<Rightarrow> string \<Rightarrow> bool) \<Rightarrow> (nat \<Rightarrow> sock_outcome) \<Rightarrow> nat \<Rightarrow> nat \<Rightarrow> nat list \<Rightarrow> Reactor \<times> Host \<Rightarrow>
   (Reactor \<times> Host \<times> StatusResult) + (Reactor \<times> Host)" where
  "bind_sockets pton sock i 0 fds x = Inr x"
| "bind_sockets pton sock i (Suc n) fds x =
     (case uvBuildAddr pton (host (cfg (fst x))) (port (cfg (fst x))) of
        None \<Rightarrow> Inl (releaseAndFail fds ''invalid host'' x)
      | Some a \<Rightarrow>
          (case sock i of
             NoSocket \<Rightarrow> Inl (releaseAndFail fds ''socket failed'' x)
           | NoBind \<Rightarrow> Inl (releaseAndFail fds ''bind failed'' x)
           | NoListen bp \<Rightarrow> Inl (releaseAndFail fds ''listen failed'' (if i = 0 then pin_port bp x else x))
           | Listening bp \<Rightarrow>
               (case (if i = 0 then pin_port bp x else x) of (r, h) \<Rightarrow>
                  bind_sockets pton sock (Suc i) n (fds @ [i]) (r, h\<lparr>openSocks := i # openSocks h\<rparr>))))"

definition start ::
  "int \<Rightarrow> nat \<Rightarrow> string option \<Rightarrow> (addr_family \<Rightarrow> string \<Rightarrow> bool) \<Rightarrow> (nat \<Rightarrow> sock_outcome) \<Rightarrow> Reactor \<times> Host \<Rightarrow>
   Reactor \<times> Host \<times> StatusResult" where
  "start nloops cores dw pton sock x =
     (case x of (r, h) \<Rightarrow>
        if running r then (r, h, \<lparr>kind = AlreadyRunning, message = ''running'', boundPort = 0\<rparr>)
        else
          let n = nat (loop_count nloops cores (cfg r));
              p = port (cfg r);
              r1 = (start_dispatch dw (r\<lparr>running := True\<rparr>))\<lparr>bound_port := p\<rparr>
          in if p \<noteq> 0 \<and> p \<in> set (boundPorts h)
             then (r1\<lparr>running := False\<rparr>, h, \<lparr>kind = BindFailed, message = ''port already in use'', boundPort = 0\<rparr>)
             else
               let y = (if p \<noteq> 0 then (r1\<lparr>reservedPort := p\<rparr>, h\<lparr>boundPorts := List.insert p (boundPorts h)\<rparr>) else (r1, h))
               in case bind_sockets pton sock 0 n [] y of
                    Inl failure \<Rightarrow> failure
                  | Inr (r2, h2) \<Rightarrow>
                      (r2\<lparr>loops := loops r2 @ replicate n new_loop\<rparr>, h2, status_ok\<lparr>boundPort := bound_port r2\<rparr>))"

text \<open>
  \<open>stop\<close> before the join: every loop is told to stop and woken. After the join of the loop threads,
  which end once every handle of their loop is closed: the rest.
\<close>

definition stop_request :: "Reactor \<Rightarrow> Reactor" where
  "stop_request r =
     (if \<not> running r then r
      else fold (\<lambda>i r. log_effect (UvAsyncSend i) (upd_loop i (\<lambda>l. l\<lparr>lp_stopping := True\<rparr>) r)) [0..<length (loops r)]
             (r\<lparr>running := False\<rparr>))"

definition stop_finish :: "Reactor \<times> Host \<Rightarrow> Reactor \<times> Host" where
  "stop_finish x =
     (case release_port x of (r, h) \<Rightarrow> (r\<lparr>loops := [], pending := abortAll (pending r)\<rparr>, h\<lparr>openSocks := []\<rparr>))"

end
