(* ===== verification/ReactorInv.thy ===== *)
theory ReactorInv
  imports ReactorLoop
begin

text \<open>
  A contract for invariants of the reactor. The locale \<open>reactor_inv\<close> asks a predicate for a law per
  primitive of the model (a write starts, a handle closes, a request enters or leaves the table, an
  answer moves to the queue, \<open>...\<close>) and proves once that every callback and every call of the reactor
  then keeps the predicate. \<open>tracked\<close> is all an invariant may look at: an operation that leaves it
  alone keeps every invariant.
\<close>

section \<open>What invariants see\<close>

definition ctl :: "Conn \<Rightarrow> Conn" where
  "ctl k = new_conn\<lparr>h_closing := h_closing k, h_reading := h_reading k, h_writes := h_writes k,
     c_writePending := c_writePending k, c_busy := c_busy k, c_counted := c_counted k, c_peerIp := c_peerIp k,
     c_lp := c_lp k, c_fileFd := c_fileFd k\<rparr>"

definition aborted :: "Reactor \<Rightarrow> bool" where
  "aborted r \<longleftrightarrow> list_ex (\<lambda>e. case e of UvAbort c \<Rightarrow> True | _ \<Rightarrow> False) (effects r)"

definition tracked :: "Reactor \<Rightarrow> Reactor \<times> bool" where
  "tracked r = (new_reactor\<lparr>alive := alive r, nextId := nextId r, liveConns := liveConns r, ipCounts := ipCounts r,
     reqLoc := reqLoc r, loops := loops r, drainWrites := drainWrites r, cfg := cfg r, conns := (\<lambda>c. ctl (conns r c))\<rparr>, aborted r)"

definition own :: "int \<Rightarrow> Reactor \<Rightarrow> bool" where
  "own c r \<longleftrightarrow> c \<in> set (alive r) \<and> c \<notin> set (drainWrites r)"

lemma tracked_eqD:
  assumes "tracked r = tracked r'"
  shows "alive r = alive r'" "nextId r = nextId r'" "liveConns r = liveConns r'" "ipCounts r = ipCounts r'"
    "reqLoc r = reqLoc r'" "loops r = loops r'" "drainWrites r = drainWrites r'" "aborted r = aborted r'"
    "ctl (conns r c) = ctl (conns r' c)" "cfg r = cfg r'"
proof -
  from assms have "fst (tracked r) = fst (tracked r')" "snd (tracked r) = snd (tracked r')" by simp_all
  then show "alive r = alive r'" "nextId r = nextId r'" "liveConns r = liveConns r'" "ipCounts r = ipCounts r'"
    "reqLoc r = reqLoc r'" "loops r = loops r'" "drainWrites r = drainWrites r'" "aborted r = aborted r'"
    "ctl (conns r c) = ctl (conns r' c)" "cfg r = cfg r'"
    by (auto simp: tracked_def new_reactor_def dest: fun_cong [of _ _ c])
qed

lemma ctl_eqD:
  assumes "ctl k = ctl k'"
  shows "h_closing k = h_closing k'" "h_reading k = h_reading k'" "h_writes k = h_writes k'"
    "c_writePending k = c_writePending k'" "c_busy k = c_busy k'" "c_counted k = c_counted k'" "c_peerIp k = c_peerIp k'"
    "c_lp k = c_lp k'" "c_fileFd k = c_fileFd k'"
  using assms by (simp_all add: ctl_def new_conn_def)

lemma ctl_upd [simp]:
  "ctl (c_buf_update f0 k) = ctl k"
  "ctl (c_closing_update f1 k) = ctl k"
  "ctl (c_clientIp_update f2 k) = ctl k"
  "ctl (c_served_update f3 k) = ctl k"
  "ctl (c_reqIdInFlight_update f4 k) = ctl k"
  "ctl (c_continueSent_update f5 k) = ctl k"
  "ctl (c_streamingBody_update f6 k) = ctl k"
  "ctl (c_streamChunked_update f7 k) = ctl k"
  "ctl (c_streamReqId_update f8 k) = ctl k"
  "ctl (c_streamEmitter_update f9 k) = ctl k"
  "ctl (c_bodyRemaining_update f10 k) = ctl k"
  "ctl (c_chunkRemaining_update f11 k) = ctl k"
  "ctl (c_chunkNeedCrlf_update f12 k) = ctl k"
  "ctl (c_streamMaxBody_update f13 k) = ctl k"
  "ctl (c_streamBodyTotal_update f14 k) = ctl k"
  "ctl (c_fileOffset_update f15 k) = ctl k"
  "ctl (c_fileRemaining_update f16 k) = ctl k"
  "ctl (c_fileKeepAlive_update f17 k) = ctl k"
  "ctl (c_writeStartedAt_update f18 k) = ctl k"
  "ctl (c_lastActive_update f19 k) = ctl k"
  "ctl (c_responseStarted_update f20 k) = ctl k"
  "ctl (c_lastWriteAt_update f21 k) = ctl k"
  "ctl (c_openedAt_update f22 k) = ctl k"
  "ctl (c_reqDeadline_update f23 k) = ctl k"
  "ctl (c_hasDeadline_update f24 k) = ctl k"
  "ctl (c_bodyPending_update f25 k) = ctl k"
  "ctl (c_headPending_update f26 k) = ctl k"
  "ctl (c_headStartedAt_update f27 k) = ctl k"
  "ctl (c_proxyDone_update f28 k) = ctl k"
  "ctl (c_proxyBuf_update f29 k) = ctl k"
  "ctl (c_ageExpired_update f30 k) = ctl k"
  "ctl (c_wsPingSent_update f31 k) = ctl k"
  "ctl (c_ws_update f32 k) = ctl k"
  "ctl (c_wsEmitter_update f33 k) = ctl k"
  "ctl (c_wsMsg_update f34 k) = ctl k"
  "ctl (c_wsMsgOpcode_update f35 k) = ctl k"
  "ctl (c_wsMsgCompressed_update f36 k) = ctl k"
  "ctl (c_wsClosing_update f37 k) = ctl k"
  "ctl (c_deflate_update f38 k) = ctl k"
  by (simp_all add: ctl_def)

lemma tracked_upd [simp]:
  "tracked (emitters_update g0 r) = tracked r"
  "tracked (emitterRr_update g1 r) = tracked r"
  "tracked (dispatchWidth_update g2 r) = tracked r"
  "tracked (dispatch_update g3 r) = tracked r"
  "tracked (completions_update g4 r) = tracked r"
  "tracked (ctlLastCompletions_update g5 r) = tracked r"
  "tracked (ctlEnabled_update g6 r) = tracked r"
  "tracked (rt_table_update g8 r) = tracked r"
  "tracked (bound_port_update g9 r) = tracked r"
  "tracked (reservedPort_update g10 r) = tracked r"
  "tracked (running_update g11 r) = tracked r"
  "tracked (draining_update g12 r) = tracked r"
  "tracked (pending_update g13 r) = tracked r"
  "tracked (wsConnLoop_update g14 r) = tracked r"
  "tracked (next_ptr_update g15 r) = tracked r"
  by (simp_all add: tracked_def aborted_def)

lemma tracked_upd_conn [simp]:
  assumes "ctl (f (conns r c)) = ctl (conns r c)"
  shows "tracked (upd_conn c f r) = tracked r"
proof -
  have "(\<lambda>d. ctl (conns (upd_conn c f r) d)) = (\<lambda>d. ctl (conns r d))" using assms by auto
  then show ?thesis by (simp add: tracked_def aborted_def upd_conn_def)
qed

lemma tracked_log [simp]: "(\<And>c. e \<noteq> UvAbort c) \<Longrightarrow> tracked (log_effect e r) = tracked r"
  by (cases e) (auto simp: tracked_def aborted_def log_effect_def)

lemma tracked_emits [simp]:
  "tracked (emit e x r) = tracked r" "tracked (emit_opt em x r) = tracked r"
  "tracked (emit_payload env i em mk r) = tracked r" "tracked (fst (nextEmitter r)) = tracked r"
  by (simp_all add: emit_def emit_opt_def emit_payload_def nextEmitter_def Let_def split: option.splits)

lemma tracked_broadcast [simp]: "tracked (broadcastEvent kd i m r) = tracked r"
proof -
  have "tracked (fold (\<lambda>e. emit e x) es r) = tracked r" for es x r by (induction es arbitrary: r) simp_all
  then show ?thesis by (simp add: broadcastEvent_def)
qed

lemma tracked_mark [simp]: "tracked (ws_mark_closing c code r) = tracked r"
  by (simp add: ws_mark_closing_def Let_def split: option.splits)

lemma tracked_deliver [simp]: "tracked (ws_deliver env c r) = tracked r"
  by (simp add: ws_deliver_def Let_def)

lemma own_tracked: "tracked r' = tracked r \<Longrightarrow> own c r' = own c r"
  by (simp add: own_def tracked_eqD [of r' r])

lemma ctl_stream_loop: "ctl (fst (stream_loop k out)) = ctl k"
proof (induction k out rule: stream_loop.induct)
  case (1 k out)
  have s: "ctl k' = ctl k" if "skip_crlf k = Inr k'" for k' using that by (auto simp: skip_crlf_def split: if_splits)
  have n: "ctl k2 = ctl k1" if "next_size k1 = Inr k2 \<or> next_size k1 = Inl (k2, v)" for k1 k2 v
    using that by (auto simp: next_size_def Let_def split: if_splits option.splits prod.splits)
  have t: "ctl (take_chunk m k1) = ctl k1" for m k1 by (simp add: take_chunk_def)
  show ?case
  proof (cases "skip_crlf k")
    case (Inl v)
    then show ?thesis by (simp add: stream_loop.simps)
  next
    case (Inr k1)
    show ?thesis
    proof (cases "next_size k1")
      case (Inl x)
      then show ?thesis using Inr s [OF Inr] n [of k1 "fst x" "snd x"] by (cases x) (simp add: stream_loop.simps)
    next
      case (Inr k2)
      let ?n = "min (length (c_buf k2)) (c_chunkRemaining k2)"
      let ?k3 = "take_chunk ?n k2" and ?o = "out @ take ?n (c_buf k2)"
      have e: "ctl k2 = ctl k" using n [of k1 k2] Inr s [OF \<open>skip_crlf k = Inr k1\<close>] by simp
      have u: "stream_loop k out = (if ?n = 0 then (k2, out, SWait)
          else if c_streamMaxBody ?k3 \<ge> 0 \<and> c_streamBodyTotal ?k3 > c_streamMaxBody ?k3 then (?k3, ?o, STooLarge)
          else stream_loop ?k3 ?o)"
        by (simp only: stream_loop.simps [of k out] \<open>skip_crlf k = Inr k1\<close> \<open>next_size k1 = Inr k2\<close> sum.case Let_def)
      have ih: "ctl (fst (stream_loop ?k3 ?o)) = ctl ?k3"
        if "\<not> ?n = 0" "\<not> (c_streamMaxBody ?k3 \<ge> 0 \<and> c_streamBodyTotal ?k3 > c_streamMaxBody ?k3)"
        by (rule 1 [OF \<open>skip_crlf k = Inr k1\<close> Inr refl that(1) refl refl that(2)])
      show ?thesis unfolding u using ih by (simp only: t e fst_conv split: if_split) simp
    qed
  qed
qed

lemma own_writes [simp]:
  "own d (writeAnswer env c bs ka fin r) = own d r" "own d (wsCloseConn env c code r) = own d r"
  "own d (uv_close c r) = own d r" "own d (close_if_open c r) = own d r" "own d (upd_conn c f r) = own d r"
  "own d (begin_answer env c bs ka fin r) = own d r" "own d (start_write env c bs ka fin r) = own d r"
  "own d (r\<lparr>nextId := n\<rparr>) = own d r" "own d (enter_request env c i head route ka r) = own d r"
  "own d (upd_loop j g r) = own d r" "own d (fst (lookupReq i er r)) = own d r"
  by (simp_all add: own_def enter_request_def Let_def lookupReq_def upd_loop_def upd_conn_def split: option.splits)

lemma own_log [simp]: "own d (log_effect e r) = own d r"
  by (simp add: own_def log_effect_def)

lemmas own_calls [simp] =
  own_tracked [OF tracked_mark] own_tracked [OF tracked_broadcast] own_tracked [OF tracked_emits(1)]
  own_tracked [OF tracked_emits(2)] own_tracked [OF tracked_emits(3)] own_tracked [OF tracked_emits(4)]
  own_tracked [OF tracked_deliver]

definition requeue :: "nat \<Rightarrow> Pending list \<Rightarrow> Reactor \<Rightarrow> Reactor" where
  "requeue i ps r = upd_loop i (\<lambda>l. l\<lparr>lp_queue := ps\<rparr>) r"

definition token :: "Pending \<Rightarrow> bool" where
  "token p \<longleftrightarrow> 0 \<le> q_fileFd p \<or> q_finish p \<and> q_keepAlive p"

text \<open>Every \<open>continue\<close> leaves the connection busy, so the loop of \<open>processConn\<close> makes one turn per call.\<close>

lemma process_loop_once:
  "process_loop env c r = (if c_busy (conns r c) \<or> c_closing (conns r c) then r else fst (process_turn env c r))"
proof (cases "process_turn env c r")
  case (Pair r' go)
  then show ?thesis using process_turn_continues [of env c r r'] process_loop.simps [of env c r'] process_loop.simps [of env c r] by auto
qed

section \<open>The contract\<close>

text \<open>
  \<open>Free c r\<close> is what an invariant may require before an answer that keeps connection \<open>c\<close> open is
  started: that no other answer for it is outstanding.
\<close>

locale reactor_inv =
  fixes I :: "Reactor \<Rightarrow> bool" and Free :: "int \<Rightarrow> Reactor \<Rightarrow> bool"
  assumes frame: "tracked r' = tracked r \<Longrightarrow> I r \<Longrightarrow> I r'"
    and free_frame: "tracked r' = tracked r \<Longrightarrow> Free c r \<Longrightarrow> Free c r'"
    and wr: "I r \<Longrightarrow> own c r \<Longrightarrow> (ka \<and> fin \<Longrightarrow> Free c r) \<Longrightarrow> I (begin_answer env c bs ka fin r)"
    and raw: "I r \<Longrightarrow> own c r \<Longrightarrow> I (start_write env c bs True False r)"
    and free_raw: "Free c r \<Longrightarrow> Free c (start_write env c bs True False r)"
    and close: "I r \<Longrightarrow> own c r \<Longrightarrow> \<not> h_closing (conns r c) \<Longrightarrow> I (uv_close c r)"
    and idle: "I r \<Longrightarrow> own c r \<Longrightarrow> \<not> c_busy (conns r c) \<Longrightarrow> Free c r"
    and drop: "I r \<Longrightarrow> I (fst (lookupReq i True r))"
    and next_id: "I r \<Longrightarrow> I (r\<lparr>nextId := nextId r + 1\<rparr>)"
    and free_next_id: "Free c r \<Longrightarrow> Free c (r\<lparr>nextId := n\<rparr>)"
    and enter: "I r \<Longrightarrow> own c r \<Longrightarrow> Free c r \<Longrightarrow> I (enter_request env c i head route ka r)"
    and file_begin: "I r \<Longrightarrow> own c r \<Longrightarrow> Free c r \<Longrightarrow>
      I (begin_answer env c bs ka False (upd_conn c (\<lambda>k. k\<lparr>c_fileFd := fd\<rparr>) r))"
    and file_end: "I r \<Longrightarrow> own c r \<Longrightarrow> 0 \<le> c_fileFd (conns r c) \<Longrightarrow> I (upd_conn c (\<lambda>k. k\<lparr>c_fileFd := -1\<rparr>) r)"
    and free_file_end: "I r \<Longrightarrow> own c r \<Longrightarrow> 0 \<le> c_fileFd (conns r c) \<Longrightarrow> Free c (upd_conn c (\<lambda>k. k\<lparr>c_fileFd := -1\<rparr>) r)"
    and pop: "I r \<Longrightarrow> own c r \<Longrightarrow> h_writes (conns r c) = ctx # rest \<Longrightarrow>
      I (upd_conn c (\<lambda>k. k\<lparr>h_writes := rest, c_writePending := max 0 (c_writePending k - int (length (wc_payload ctx)))\<rparr>) r)"
    and free_pop: "I r \<Longrightarrow> own c r \<Longrightarrow> h_writes (conns r c) = ctx # rest \<Longrightarrow> wc_finish ctx \<Longrightarrow> wc_keepAlive ctx \<Longrightarrow>
      Free c (upd_conn c (\<lambda>k. k\<lparr>h_writes := rest, c_writePending := max 0 (c_writePending k - int (length (wc_payload ctx)))\<rparr>) r)"
    and unbusy: "I r \<Longrightarrow> own c r \<Longrightarrow> Free c r \<Longrightarrow> I (upd_conn c (\<lambda>k. k\<lparr>c_busy := False\<rparr>) r)"
    and stop_reading: "I r \<Longrightarrow> own c r \<Longrightarrow> I (upd_conn c (\<lambda>k. k\<lparr>h_reading := False\<rparr>) r)"
    and move_ip: "I r \<Longrightarrow> own c r \<Longrightarrow> ip \<noteq> [] \<Longrightarrow> I (fst (move_ip_slot c ip r))"
    and push: "I r \<Longrightarrow> \<not> token p \<Longrightarrow> I (push_queue j p r)"
    and answer: "I r \<Longrightarrow> map_of (reqLoc r) i = Some loc \<Longrightarrow> q_connId p = rl_connId loc \<Longrightarrow>
      I (push_queue j p (fst (lookupReq i True r)))"
    and take: "I (requeue j (p # ps) r) \<Longrightarrow> I (requeue j ps r)"
    and free_take: "I (requeue j (p # ps) r) \<Longrightarrow> j < length (loops r) \<Longrightarrow> own (q_connId p) r \<Longrightarrow> token p \<Longrightarrow>
      Free (q_connId p) (requeue j ps r)"
    and expire: "I r \<Longrightarrow> map_of (reqLoc r) i = Some loc \<Longrightarrow>
      I (r\<lparr>reqLoc := AList.update i (loc\<lparr>rl_keepAlive := False\<rparr>) (reqLoc r)\<rparr>)"
    and loop_flags: "I r \<Longrightarrow> (\<And>l. lp_conns (g l) = lp_conns l \<and> lp_queue (g l) = lp_queue l) \<Longrightarrow> I (upd_loop j g r)"
begin

lemma same: "tracked r' = tracked r \<Longrightarrow> I r' = I r"
  using frame by metis

lemma close_open: "I r \<Longrightarrow> own c r \<Longrightarrow> I (close_if_open c r)"
  by (simp add: close_if_open_def close)

lemma mark_close: "I r \<Longrightarrow> own c r \<Longrightarrow> I (close_if_open c (upd_conn c (\<lambda>k. k\<lparr>c_closing := True\<rparr>) r))"
  by (rule close_open) (auto intro: frame [of _ r])

lemma slow_reader: "I r \<Longrightarrow> own c r \<Longrightarrow> I (drop_slow_reader c r)"
  unfolding drop_slow_reader_def
  by (rule mark_close) (auto intro: frame [of _ r])

lemma writes:
  "I (begin_answer env c bs ka fin r) \<Longrightarrow> own c r \<Longrightarrow> I (writeAnswer env c bs ka fin r)"
  "I r \<Longrightarrow> own c r \<Longrightarrow> I (wsCloseConn env c code r)"
proof (induction env c bs ka fin r and env c code r rule: writeAnswer_wsCloseConn.induct)
  case (1 env c bs ka fin r)
  let ?r1 = "begin_answer env c bs ka fin r"
  have "own c ?r1" using 1(3) by simp
  note c1 = 1(1) [OF refl _ 1(2) this] and c2 = slow_reader [OF 1(2) this]
  show ?case unfolding writeAnswer.simps [of env c bs ka fin r] Let_def by (simp add: c1 c2 1(2))
next
  case (2 env c code r)
  have o: "own c (ws_mark_closing c code r)" using 2(3) by simp
  have "I (begin_answer env c (ws_close_frame code) False True (ws_mark_closing c code r))"
    by (rule wr [OF frame [OF tracked_mark 2(2)] o]) simp
  note c1 = 2(1) [OF _ this o]
  show ?case unfolding wsCloseConn.simps [of env c code r] by (simp add: c1 2(2))
qed

lemma answer_write: "I r \<Longrightarrow> own c r \<Longrightarrow> (ka \<and> fin \<Longrightarrow> Free c r) \<Longrightarrow> I (writeAnswer env c bs ka fin r)"
  by (rule writes) (auto intro: wr)

lemma refuse: "I r \<Longrightarrow> own c r \<Longrightarrow> I (refuse_with env c status r)"
  unfolding refuse_with_def by (rule answer_write) auto

end

section \<open>WebSocket\<close>

lemma own_ws [simp]:
  "own d (fst (ws_data env c h p r)) = own d r" "own d (fst (ws_frame env c r)) = own d r"
  by (simp_all add: ws_data_def ws_frame_def Let_def split: option.splits)

lemma own_wsProcess [simp]: "own d (wsProcess env c r) = own d r"
proof (induction env c r rule: wsProcess.induct)
  case (1 env c r)
  then show ?case using own_ws(2) [of d env c r]
    by (subst wsProcess.simps) (auto split: prod.splits simp del: own_ws)
qed

lemma own_refuse [simp]: "own d (refuse_with env c st r) = own d r"
  by (simp add: refuse_with_def)

lemma own_fields [simp]:
  "own d (wsConnLoop_update w r) = own d r" "own d (pending_update pe r) = own d r" "own d (reqLoc_update q r) = own d r"
  "own d (ipCounts_update ic r) = own d r" "own d (completions_update cm r) = own d r"
  by (simp_all add: own_def)

context reactor_inv
begin

lemma upd_inv: "I r \<Longrightarrow> (\<And>k. ctl (f k) = ctl k) \<Longrightarrow> I (upd_conn c f r)"
  by (rule frame [of _ r]) simp_all

lemma wsl_inv: "I r \<Longrightarrow> I (wsConnLoop_update w r)"
  by (rule frame [of _ r]) simp_all

lemma emit_inv: "I r \<Longrightarrow> I (emit e x r)" "I r \<Longrightarrow> I (emit_opt em x r)" "I r \<Longrightarrow> I (emit_payload env i em mk r)"
  "I r \<Longrightarrow> I (broadcastEvent kd i m r)"
  by (erule frame [rotated], simp)+

lemma nextEmitter_inv: "I r \<Longrightarrow> nextEmitter r = (r', em) \<Longrightarrow> I r'"
  using same [OF tracked_emits(4), of r] by simp

lemma ws_data_inv: "I r \<Longrightarrow> own c r \<Longrightarrow> I (fst (ws_data env c h p r))"
  unfolding ws_data_def Let_def by (auto simp: same [OF tracked_deliver] intro!: writes(2) upd_inv)

lemma ws_frame_inv: "I r \<Longrightarrow> own c r \<Longrightarrow> I (fst (ws_frame env c r))"
  unfolding ws_frame_def Let_def by (auto intro!: writes(2) ws_data_inv answer_write upd_inv split: option.splits)

lemma ws_process_inv: "I r \<Longrightarrow> own c r \<Longrightarrow> I (wsProcess env c r)"
proof (induction env c r rule: wsProcess.induct)
  case (1 env c r)
  show ?case
  proof (cases "ws_frame env c r")
    case (Pair r' go)
    then have "I r'" "own c r'" using ws_frame_inv [OF 1(2,3), of env] own_ws(2) [of c env c r] 1(3) by auto
    then show ?thesis using 1(1) [OF _ Pair [symmetric]] 1(2) Pair
      by (subst wsProcess.simps) auto
  qed
qed

lemma ws_open_inv: "I r \<Longrightarrow> own c r \<Longrightarrow> I (ws_open env c head route params path query key protocol r)"
  unfolding ws_open_def Let_def
  by (auto intro!: emit_inv upd_inv wsl_inv answer_write intro: nextEmitter_inv [rotated] split: prod.splits option.splits)

lemma own_nextEmitter: "nextEmitter r = (r', em) \<Longrightarrow> own c r' = own c r"
  using own_tracked [OF tracked_emits(4), of c r] by simp

lemma ws_handshake_inv: "I r \<Longrightarrow> own c r \<Longrightarrow> I (wsHandshake env c head route params path query r)"
proof -
  assume a: "I r" "own c r"
  have o: "own c (ws_open env c head route params path query key protocol r)" for key protocol
    using a(2) unfolding ws_open_def Let_def by (auto simp: own_nextEmitter split: prod.splits option.splits)
  show ?thesis using a o unfolding wsHandshake_def
    by (auto intro!: refuse answer_write ws_process_inv ws_open_inv split: option.splits)
qed

section \<open>Streamed bodies\<close>

lemma stream_bytes_inv: "I r \<Longrightarrow> I (emitStreamBytes env c r)"
  unfolding emitStreamBytes_def Let_def by (auto intro!: upd_inv emit_inv)

lemma abort_stream_inv: "I r \<Longrightarrow> own c r \<Longrightarrow> I (abortStreamTooLarge env c r)"
  unfolding abortStreamTooLarge_def Let_def by (auto intro!: refuse emit_inv drop upd_inv)

lemma stream_chunked_inv: "I r \<Longrightarrow> own c r \<Longrightarrow> I (emitStreamChunked env c r)"
proof -
  assume a: "I r" "own c r"
  obtain k out v where s: "stream_loop (conns r c) [] = (k, out, v)" by (metis prod_cases3)
  then have "ctl k = ctl (conns r c)" using ctl_stream_loop [of "conns r c" "[]"] by simp
  then have r1: "I (upd_conn c (\<lambda>_. k) r)" "own c (upd_conn c (\<lambda>_. k) r)" using a by (auto intro: frame [of _ r])
  show ?thesis unfolding emitStreamChunked_def s prod.case Let_def
    by (auto intro!: abort_stream_inv close_open upd_inv emit_inv r1 a)
qed

section \<open>Requests\<close>

lemma free_upd: "Free c r \<Longrightarrow> (\<And>k. ctl (f k) = ctl k) \<Longrightarrow> Free c (upd_conn d f r)"
  by (rule free_frame [of _ r]) simp_all

lemma send_continue_inv: "I r \<Longrightarrow> own c r \<Longrightarrow> I (send_continue env c head b r)"
  unfolding send_continue_def by (auto simp: writeRaw_def intro!: upd_inv raw)

lemma free_send_continue: "Free c r \<Longrightarrow> Free c (send_continue env c head b r)"
  unfolding send_continue_def by (auto simp: writeRaw_def intro!: free_upd free_raw)

lemma dispatch_stream_inv: "I r \<Longrightarrow> own c r \<Longrightarrow> Free c r \<Longrightarrow>
  I (dispatch_stream env c head route params path query clen chunked maxBody headEnd r)"
  unfolding dispatch_stream_def Let_def
  by (auto intro!: answer_write stream_bytes_inv stream_chunked_inv upd_inv emit_inv next_id enter free_next_id
      intro: nextEmitter_inv [rotated] simp: own_nextEmitter split: prod.splits)

lemma dispatch_handler_inv: "I r \<Longrightarrow> own c r \<Longrightarrow> Free c r \<Longrightarrow>
  I (dispatch_handler env c head route params path query body clen ka r)"
  unfolding dispatch_handler_def Let_def
  by (auto intro!: emit_inv next_id enter free_next_id intro: nextEmitter_inv [rotated] simp: own_nextEmitter
      split: prod.splits option.splits)

lemma answer_request_inv: "I r \<Longrightarrow> own c r \<Longrightarrow> Free c r \<Longrightarrow>
  I (fst (answer_request env c head m path query body clen ka r))"
  unfolding answer_request_def answer_unmatched_def answer_static_def Let_def
  by (auto intro!: answer_write refuse ws_handshake_inv dispatch_handler_inv split: option.splits)

lemma take_body_inv: "I r \<Longrightarrow> own c r \<Longrightarrow> Free c r \<Longrightarrow>
  I (fst (take_body env c head m path query clen chunked maxBody headEnd r))"
  unfolding take_body_def Let_def
  by (auto intro!: upd_inv refuse answer_request_inv free_upd split: body_read.splits)

lemma own_send_continue [simp]: "own d (send_continue env c head b r) = own d r"
  by (simp add: send_continue_def writeRaw_def)

lemma take_request_inv: "I r \<Longrightarrow> own c r \<Longrightarrow> Free c r \<Longrightarrow> I (fst (take_request env c head chunked headEnd r))"
  unfolding take_request_def Let_def
  by (auto intro!: refuse dispatch_stream_inv take_body_inv send_continue_inv free_send_continue split: prod.splits option.splits)

lemma await_head_inv: "I r \<Longrightarrow> own c r \<Longrightarrow> \<not> h_closing (conns r c) \<Longrightarrow> I (await_head env c r)"
  unfolding await_head_def Let_def by (auto intro!: close upd_inv)

lemma process_turn_inv: "I r \<Longrightarrow> own c r \<Longrightarrow> Free c r \<Longrightarrow> \<not> h_closing (conns r c) \<Longrightarrow> I (fst (process_turn env c r))"
  unfolding process_turn_def Let_def
  by (auto intro!: await_head_inv refuse take_request_inv upd_inv free_upd split: option.splits prod.splits)

lemma process_inv: "I r \<Longrightarrow> own c r \<Longrightarrow> \<not> h_closing (conns r c) \<Longrightarrow> I (processConn env c r)"
proof -
  assume a: "I r" "own c r" "\<not> h_closing (conns r c)"
  have "I (process_loop env c r)"
    using a process_turn_inv [of r c env] idle [of r c] by (simp add: process_loop_once)
  then show ?thesis using a by (simp add: processConn_def)
qed

section \<open>Callbacks of a connection\<close>

lemma close_now_inv: "I r \<Longrightarrow> own c r \<Longrightarrow> \<not> h_closing (conns r c) \<Longrightarrow> I (close_now c r)"
  unfolding close_now_def by (auto intro!: close upd_inv)

lemma log_inv: "I r \<Longrightarrow> (\<And>c. e \<noteq> UvAbort c) \<Longrightarrow> I (log_effect e r)"
  by (erule frame [rotated]) simp

lemma continue_file_inv: "I r \<Longrightarrow> own c r \<Longrightarrow> I (continueFileSend env c r)"
proof -
  assume a: "I r" "own c r"
  show ?thesis
  proof (cases "0 \<le> c_fileFd (conns r c)")
    case False
    then show ?thesis using a by (simp add: continueFileSend_def Let_def)
  next
    case fd: True
    define off where "off = upd_conn c (\<lambda>k. k\<lparr>c_fileFd := -1\<rparr>)"
    have f: "I (off s)" "Free c (off s)" if "I s" "own c s" "c_fileFd (conns s c) = c_fileFd (conns r c)" for s
      using file_end [of s c] free_file_end [of s c] that fd by (simp_all add: off_def)
    have o: "own d (off s) = own d s" for d s by (simp add: off_def)
    show ?thesis unfolding continueFileSend_def Let_def off_def [symmetric]
      by (auto intro!: close_open answer_write upd_inv emit_inv f log_inv a simp: o)
  qed
qed

lemma on_write_inv: "I r \<Longrightarrow> own c r \<Longrightarrow> (h_closing (conns r c) \<Longrightarrow> status < 0) \<Longrightarrow> I (onWrite env c status r)"
proof (cases "h_writes (conns r c)")
  case Nil
  then show "I r \<Longrightarrow> I (onWrite env c status r)" by (simp add: onWrite_def)
next
  case (Cons ctx rest)
  assume a: "I r" "own c r" "h_closing (conns r c) \<Longrightarrow> status < 0"
  define p where "p = upd_conn c (\<lambda>k. k\<lparr>h_writes := rest, c_writePending := max 0 (c_writePending k - int (length (wc_payload ctx)))\<rparr>) r"
  have p: "I p" "own c p" "wc_finish ctx \<Longrightarrow> wc_keepAlive ctx \<Longrightarrow> Free c p" "h_closing (conns p c) = h_closing (conns r c)"
    using pop [OF a(1,2) Cons] free_pop [OF a(1,2) Cons] a(2) by (simp_all add: p_def)
  define nb where "nb = upd_conn c (\<lambda>k. k\<lparr>c_busy := False\<rparr>)"
  have nb: "I (nb s)" if "I s" "own c s" "Free c s" for s using that by (simp add: nb_def unbusy)
  have nb': "own c (nb s) = own c s" "h_closing (conns (nb s) c) = h_closing (conns s c)" for s by (simp_all add: nb_def)
  show ?thesis unfolding onWrite_def Cons list.case Let_def p_def [symmetric] nb_def [symmetric]
    using a(3) by (auto intro!: close upd_inv continue_file_inv close_open process_inv free_upd p nb simp: p(4) p(2) nb')
qed

lemma over_busy_inv: "I r \<Longrightarrow> own c r \<Longrightarrow> I (fst (overBusyBuffer env c r))"
  unfolding overBusyBuffer_def Let_def by (auto intro!: refuse upd_inv emit_inv)

lemma feed_inv: "I r \<Longrightarrow> own c r \<Longrightarrow> \<not> h_closing (conns r c) \<Longrightarrow> I (feed env c data r)"
proof -
  assume a: "I r" "own c r" "\<not> h_closing (conns r c)"
  define r0 where "r0 = upd_conn c (\<lambda>k. k\<lparr>c_buf := c_buf k @ data\<rparr>) r"
  have b: "I r0" "own c r0" "\<not> h_closing (conns r0 c)" using a by (auto simp: r0_def intro!: upd_inv)
  have o: "I r1 \<and> (\<not> over \<longrightarrow> r1 = r0)" if "overBusyBuffer env c r0 = (r1, over)" for r1 over
    using over_busy_inv [OF b(1,2), of env] that by (auto simp: overBusyBuffer_def Let_def split: if_splits)
  show ?thesis unfolding feed_def r0_def [symmetric] Let_def using b
    by (auto intro!: stream_chunked_inv stream_bytes_inv ws_process_inv process_inv dest!: o split: prod.splits)
qed

lemma read_proxy_inv:
  assumes "I r" "own c r" "\<not> h_closing (conns r c)" "read_proxy env c data r = (r', res)"
  shows "I r' \<and> (res \<noteq> None \<longrightarrow> own c r' \<and> \<not> h_closing (conns r' c))"
proof -
  have m: "I s' \<and> own c s' = own c s \<and> h_closing (conns s' c) = h_closing (conns s c)"
    if "move_ip_slot c ip s = (s', over)" "I s" "own c s" "ip \<noteq> []" for s s' ip over
    using move_ip [OF that(2-4)] that(1) by (auto simp: move_ip_slot_def Let_def split: if_splits)
  show ?thesis using assms unfolding read_proxy_def Let_def
    by (auto intro!: close_now_inv upd_inv emit_inv dest!: m split: proxy_result.splits if_splits prod.splits)
qed

lemma read_inv: "I r \<Longrightarrow> own c r \<Longrightarrow> \<not> h_closing (conns r c) \<Longrightarrow> I (readCb env c data r)"
proof -
  assume a: "I r" "own c r" "\<not> h_closing (conns r c)"
  define r1 where "r1 = upd_conn c (\<lambda>k. k\<lparr>c_lastActive := e_now env, c_wsPingSent := False\<rparr>) r"
  have b: "I r1" "own c r1" "\<not> h_closing (conns r1 c)" using a by (auto simp: r1_def intro!: upd_inv)
  show ?thesis unfolding readCb_def r1_def [symmetric] Let_def using a b
    by (auto intro!: feed_inv dest!: read_proxy_inv [OF b] split: prod.splits option.splits)
qed

lemma eof_inv: "I r \<Longrightarrow> own c r \<Longrightarrow> \<not> h_closing (conns r c) \<Longrightarrow> I (read_eof env c r)"
proof -
  assume a: "I r" "own c r" "\<not> h_closing (conns r c)"
  define r1 where "r1 = upd_conn c (\<lambda>k. k\<lparr>h_reading := False\<rparr>) r"
  have b: "I r1" "own c r1" "\<not> h_closing (conns r1 c)" using a stop_reading by (auto simp: r1_def)
  then show ?thesis unfolding read_eof_def r1_def [symmetric] Let_def by (auto intro!: refuse close_now_inv)
qed

section \<open>Calls from other threads\<close>

lemma completions_inv: "I r \<Longrightarrow> I (completions_update f r)"
  by (erule frame [rotated]) simp

lemma push_completions: "push_queue j p (r\<lparr>completions := n\<rparr>) = (push_queue j p r)\<lparr>completions := n\<rparr>"
  by (simp add: push_queue_def log_effect_def upd_loop_def)

lemma answered:
  "map_of (reqLoc r) i = Some loc \<Longrightarrow> I r \<Longrightarrow> q_connId p = rl_connId loc \<Longrightarrow>
   I (push_queue j p ((fst (lookupReq i True r))\<lparr>completions := n\<rparr>))"
  by (auto simp: push_completions intro!: completions_inv answer)

lemma lookup_cases: "lookupReq i er r = (r', x) \<Longrightarrow> map_of (reqLoc r) i = x \<and> r' = fst (lookupReq i er r)"
  by (auto simp: lookupReq_def split: option.splits)

lemma lookup_peek [simp]: "fst (lookupReq i False r) = r"
  by (simp add: lookupReq_def split: option.splits)

lemma respond_inv: "I r \<Longrightarrow> I (respond env i status headers body n r)"
  unfolding respond_def pushWrite_def Let_def
  by (auto dest!: lookup_cases intro!: answered drop simp: mk_pending_def split: prod.splits option.splits)

lemma respond_file_inv: "I r \<Longrightarrow> I (respondFile env fopen fstat i status headers path offset len r)"
  unfolding respondFile_def respond_not_found_def Let_def
  by (auto dest!: lookup_cases intro!: answered respond_inv log_inv split: prod.splits option.splits)

lemma push_then_erase: "fst (lookupReq i True (push_queue j p r)) = push_queue j p (fst (lookupReq i True r))"
  by (simp add: lookupReq_def push_queue_def log_effect_def upd_loop_def split: option.splits)

lemma start_stream_inv: "I r \<Longrightarrow> I (startStream env i status headers r)"
  unfolding startStream_def pushWrite_def Let_def
  by (auto dest!: lookup_cases intro: answer push simp: push_then_erase mk_pending_def token_def split: prod.splits option.splits)

lemma send_chunk_inv: "I r \<Longrightarrow> I (sendStreamChunk i chunk isLast r)"
  unfolding sendStreamChunk_def pushWrite_def Let_def
  by (auto dest!: lookup_cases intro: answered push simp: mk_pending_def token_def split: prod.splits option.splits)

lemma ws_send_inv: "I r \<Longrightarrow> I (fst (wsSend d p bin cmp r))"
  unfolding wsSend_def Let_def by (auto intro!: push simp: mk_pending_def token_def split: option.splits)

lemma ws_close_inv: "I r \<Longrightarrow> I (wsClose d code r)"
  unfolding wsClose_def by (auto intro!: push wsl_inv simp: mk_pending_def token_def split: option.splits)

end

section \<open>The queue\<close>

lemma loop_commute:
  "upd_loop i g (upd_conn c f r) = upd_conn c f (upd_loop i g r)" "upd_loop i g (log_effect e r) = log_effect e (upd_loop i g r)"
  "upd_loop i g (emit em x r) = emit em x (upd_loop i g r)"
  "upd_loop i g (wsConnLoop_update w r) = wsConnLoop_update w (upd_loop i g r)"
  by (simp_all add: upd_loop_def upd_conn_def log_effect_def emit_def)

lemma loop_commute_broadcast: "upd_loop i g (broadcastEvent kd j m r) = broadcastEvent kd j m (upd_loop i g r)"
proof -
  have "upd_loop i g (fold (\<lambda>e. emit e x) es r) = fold (\<lambda>e. emit e x) es (upd_loop i g r)" for x es r
    by (induction es arbitrary: r) (simp_all add: loop_commute)
  then show ?thesis by (simp add: broadcastEvent_def upd_loop_def)
qed

lemma loop_commute_calls:
  "upd_loop i g (uv_close c r) = uv_close c (upd_loop i g r)" "upd_loop i g (close_if_open c r) = close_if_open c (upd_loop i g r)"
  "upd_loop i g (begin_answer env c bs ka fin r) = begin_answer env c bs ka fin (upd_loop i g r)"
  "upd_loop i g (drop_slow_reader c r) = drop_slow_reader c (upd_loop i g r)"
  "upd_loop i g (ws_mark_closing c code r) = ws_mark_closing c code (upd_loop i g r)"
  by (simp_all add: uv_close_def close_if_open_def begin_answer_def start_write_def drop_slow_reader_def ws_mark_closing_def Let_def
      loop_commute loop_commute_broadcast split: option.splits)
    (simp_all add: upd_loop_def upd_conn_def)

lemma cfg_upd_loop [simp]: "cfg (upd_loop i g r) = cfg r" "emitters (upd_loop i g r) = emitters r"
  by (simp_all add: upd_loop_def)

lemma loop_commute_write:
  "upd_loop i g (writeAnswer env c bs ka fin r) = writeAnswer env c bs ka fin (upd_loop i g r)"
  "upd_loop i g (wsCloseConn env c code r) = wsCloseConn env c code (upd_loop i g r)"
proof (induction env c bs ka fin r and env c code r rule: writeAnswer_wsCloseConn.induct)
  case (1 env c bs ka fin r)
  let ?b = "begin_answer env c bs ka fin r"
  have "ws_over_buffer c (upd_loop i g ?b) = ws_over_buffer c ?b" "stream_over_buffer c fin (upd_loop i g ?b) = stream_over_buffer c fin ?b"
    by (simp_all add: ws_over_buffer_def stream_over_buffer_def)
  then show ?case using 1 [OF refl]
    by (simp only: writeAnswer.simps [of env c bs ka fin] Let_def loop_commute_calls [symmetric] split: if_split) (simp add: loop_commute_calls)
next
  case (2 env c code r)
  then show ?case by (simp only: wsCloseConn.simps [of env c code] conns_frame loop_commute_calls [symmetric] split: if_split) simp
qed

lemma requeue_write: "requeue i ps (writeAnswer env c bs ka fin r) = writeAnswer env c bs ka fin (requeue i ps r)"
  by (simp add: requeue_def loop_commute_write)

lemma requeue_upd: "requeue i ps (upd_conn c f r) = upd_conn c f (requeue i ps r)" "requeue i ps (log_effect e r) = log_effect e (requeue i ps r)"
  by (simp_all add: requeue_def loop_commute)

lemma requeue_own [simp]: "own d (requeue i ps r) = own d r"
  by (simp add: requeue_def)

lemma loops_begin_file [simp]: "loops (begin_file env i p r) = loops r"
  by (simp add: begin_file_def Let_def)

lemma own_begin_file [simp]: "own d (begin_file env i p r) = own d r"
  by (simp add: begin_file_def Let_def)

lemma loops_drain [simp]: "loops (drain_batch env i ps r) = loops r"
  by (induction env i ps r rule: drain_batch.induct) (simp_all split: prod.splits)

lemma own_drain [simp]: "own d (drain_batch env i ps r) = own d r"
  by (induction env i ps r rule: drain_batch.induct) (simp_all split: prod.splits)

lemma tracked_upd_cong:
  assumes "\<And>k. ctl (f k) = ctl (g k)"
  shows "tracked (upd_conn c f r) = tracked (upd_conn c g r)"
proof -
  have "(\<lambda>d. ctl (conns (upd_conn c f r) d)) = (\<lambda>d. ctl (conns (upd_conn c g r) d))" using assms by auto
  then show ?thesis by (simp add: tracked_def aborted_def upd_conn_def)
qed

lemma tracked_begin_answer:
  assumes "tracked r = tracked r'"
  shows "tracked (begin_answer env c bs ka fin r) = tracked (begin_answer env c bs ka fin r')"
proof -
  let ?b = "begin_answer env c bs ka fin"
  have "ctl (conns (?b r) d) = ctl (conns (?b r') d)" for d
    using tracked_eqD(9) [OF assms, of d] ctl_eqD [OF tracked_eqD(9) [OF assms, of d]]
    by (auto simp: begin_answer_def start_write_def ctl_def)
  moreover have "aborted (?b r) = aborted (?b r')" using tracked_eqD(8) [OF assms]
    by (simp add: begin_answer_def start_write_def aborted_def log_effect_def upd_conn_def)
  ultimately show ?thesis using tracked_eqD(1-7,10) [OF assms] by (simp add: tracked_def fun_eq_iff)
qed

context reactor_inv
begin

lemma merge_inv:
  assumes "merge_run cid m ka fin ps = (m', ka', fin', rest)" "I (requeue j ps r)" "j < length (loops r)"
    "own cid r \<Longrightarrow> fin \<and> ka \<Longrightarrow> Free cid (requeue j ps r)"
  shows "I (requeue j rest r) \<and> (own cid r \<longrightarrow> fin' \<and> ka' \<longrightarrow> Free cid (requeue j rest r))"
  using assms
proof (induction cid m ka fin ps rule: merge_run.induct)
  case (2 cid merged ka fin p ps)
  show ?case
  proof (cases "\<not> fin \<and> q_connId p = cid \<and> q_fileFd p < 0")
    case True
    have "I (requeue j ps r)" by (rule take [OF 2(3)])
    moreover have "Free cid (requeue j ps r)" if "own cid r" "q_finish p \<and> q_keepAlive p"
      using free_take [OF 2(3) 2(4)] that True by (simp add: token_def)
    ultimately show ?thesis using 2(1) [OF True] 2(2) 2(4) True by simp
  next
    case False
    then show ?thesis using 2 by auto
  qed
qed auto

lemma file_inv:
  assumes "I (requeue j (p # ps) r)" "j < length (loops r)" "0 \<le> q_fileFd p" "conn_on_loop j (q_connId p) r \<Longrightarrow> own (q_connId p) r"
  shows "I (requeue j ps (begin_file env j p r))"
proof (cases "conn_on_loop j (q_connId p) r")
  case False
  then show ?thesis using take [OF assms(1)] by (simp add: begin_file_def requeue_upd log_inv)
next
  case True
  let ?c = "q_connId p"
  let ?s = "requeue j ps r" and ?fd = "\<lambda>k. k\<lparr>c_fileFd := q_fileFd p\<rparr>"
  let ?all = "\<lambda>k. k\<lparr>c_fileFd := q_fileFd p, c_fileOffset := q_fileOffset p, c_fileRemaining := q_fileRemaining p, c_fileKeepAlive := q_keepAlive p\<rparr>"
  have o: "own ?c ?s" using assms(4) [OF True] by simp
  have f: "Free ?c ?s" using free_take [OF assms(1,2) assms(4) [OF True]] assms(3) by (simp add: token_def)
  have t: "tracked (begin_answer env ?c bs ka False (upd_conn ?c ?all ?s)) = tracked (begin_answer env ?c bs ka False (upd_conn ?c ?fd ?s))" for bs ka
    by (rule tracked_begin_answer, rule tracked_upd_cong) simp
  have "I (begin_answer env ?c (q_bytes p) (q_keepAlive p) False (upd_conn ?c ?all ?s))"
    by (rule frame [OF t file_begin [OF take [OF assms(1)] o f]])
  then have "I (writeAnswer env ?c (q_bytes p) (q_keepAlive p) False (upd_conn ?c ?all ?s))"
    by (rule writes) (use o in simp)
  then show ?thesis using True by (simp add: begin_file_def Let_def requeue_write requeue_upd)
qed

lemma drain_inv:
  assumes "I (requeue j ps r)" "j < length (loops r)" "\<forall>c \<in> set (lp_conns (loops r ! j)). own c r"
  shows "I (requeue j [] (drain_batch env j ps r))"
  using assms
proof (induction env j ps r rule: drain_batch.induct)
  case (2 env j p ps r)
  have o: "own (q_connId p) r" if "conn_on_loop j (q_connId p) r" using that 2(5) by (simp add: conn_on_loop_def)
  show ?case
  proof (cases "0 \<le> q_fileFd p")
    case True
    have "I (requeue j ps (begin_file env j p r))" by (rule file_inv [OF 2(3,4) True o])
    then show ?thesis using 2(1) [OF True] 2(4,5) True by simp
  next
    case False
    obtain m ka fin rest where mr: "merge_run (q_connId p) (q_bytes p) (q_keepAlive p) (q_finish p) ps = (m, ka, fin, rest)"
      by (metis prod_cases4)
    have fr: "own (q_connId p) r \<Longrightarrow> q_finish p \<and> q_keepAlive p \<Longrightarrow> Free (q_connId p) (requeue j ps r)"
      using free_take [OF 2(3,4)] by (simp add: token_def)
    note m = merge_inv [OF mr take [OF 2(3)] 2(4) fr]
    let ?r = "if conn_on_loop j (q_connId p) r then writeAnswer env (q_connId p) m ka fin r else r"
    have "I (requeue j rest ?r)" using m o by (auto simp: requeue_write intro!: answer_write)
    then have "I (requeue j [] (drain_batch env j rest ?r))"
      using 2(2) [OF False mr [symmetric] refl refl] 2(4,5) by auto
    then show ?thesis using False mr by simp
  qed
qed simp

lemma close_loop_inv:
  assumes "I r" "\<forall>c \<in> set (lp_conns (loops r ! j)). own c r"
  shows "I (close_loop j r)"
proof -
  let ?f = "\<lambda>c r. if \<not> h_closing (conns r c) then uv_close c (upd_conn c (\<lambda>k. k\<lparr>c_closing := True\<rparr>) r) else r"
  have "I (fold ?f cs s)" if "I s" "\<forall>c \<in> set cs. own c s" for cs s using that
  proof (induction cs arbitrary: s)
    case (Cons c cs)
    have "I (?f c s)" "\<forall>d \<in> set cs. own d (?f c s)" using Cons.prems by (auto intro!: close upd_inv)
    then show ?case using Cons.IH [of "?f c s"] by simp
  qed simp
  then have "I (fold ?f (lp_conns (loops r ! j)) r)" using assms(1,2) by blast
  then show ?thesis unfolding close_loop_def Let_def by (rule loop_flags) simp
qed

lemma async_inv:
  assumes "I r" "j < length (loops r)" "\<forall>c \<in> set (lp_conns (loops r ! j)). own c r"
  shows "I (onAsync env j r)"
proof -
  let ?q = "lp_queue (loops r ! j)" and ?r1 = "requeue j [] r"
  let ?d = "drain_batch env j ?q ?r1"
  have e: "requeue j ?q ?r1 = r" using assms(2) by (simp add: requeue_def upd_loop_def)
  have l: "j < length (loops ?r1)" "\<forall>c \<in> set (lp_conns (loops ?r1 ! j)). own c ?r1" "lp_queue (loops ?r1 ! j) = []"
    using assms(2,3) by (simp_all add: requeue_def upd_loop_def own_def)
  have "requeue j [] ?d = ?d" using l by (simp add: requeue_def upd_loop_def)
  then have d: "I ?d" using drain_inv [of j ?q ?r1 env] assms(1) e l by simp
  have "I (close_loop j ?d)" by (rule close_loop_inv [OF d]) (use l in simp)
  then show ?thesis using d by (simp add: onAsync_def Let_def requeue_def)
qed

section \<open>The sweep\<close>

lemma expire_inv: "I r \<Longrightarrow> I (expire_age c r)"
proof -
  assume a: "I r"
  define r1 where "r1 = upd_conn c (\<lambda>k. k\<lparr>c_ageExpired := True\<rparr>) r"
  have "I r1" unfolding r1_def by (rule upd_inv [OF a]) simp
  then show ?thesis unfolding expire_age_def Let_def r1_def [symmetric] by (auto intro: expire split: option.splits)
qed

lemma sweep_ws_inv: "I r \<Longrightarrow> own c r \<Longrightarrow> I (sweep_ws env c r)"
  unfolding sweep_ws_def Let_def by (auto intro!: writes(2) emit_inv upd_inv answer_write)

lemma sweep_conn_inv:
  assumes "I (sw_state s)" "own c (sw_state s)"
  shows "I (sw_state (sweep_conn env c s))"
proof -
  have b: "sw_state (sweep_busy env c s1) = sw_state s1" for s1 by (simp add: sweep_busy_def Let_def)
  have i: "I (sw_state (sweep_idle env c s1))" if "I (sw_state s1)" for s1
    using that by (simp add: sweep_idle_def Let_def emit_inv)
  have o: "own c (expire_age c r) = own c r" for r by (simp add: expire_age_def Let_def split: option.splits)
  show ?thesis using assms unfolding sweep_conn_def Let_def
    by (auto simp: b o intro!: i mark_close close_open emit_inv upd_inv writes(2) expire_inv sweep_ws_inv)
qed

end

lemma own_expire [simp]: "own d (expire_age c r) = own d r"
  by (simp add: expire_age_def Let_def split: option.splits)

lemma own_sweep_parts [simp]:
  "own d (sweep_ws env c r) = own d r" "sw_state (sweep_busy env c s) = sw_state s"
  "own d (sw_state (sweep_idle env c s)) = own d (sw_state s)"
  by (simp_all add: sweep_ws_def sweep_busy_def sweep_idle_def Let_def)

lemma own_sweep_conn [simp]: "own d (sw_state (sweep_conn env c s)) = own d (sw_state s)"
  by (simp add: sweep_conn_def Let_def)

definition sweep_lists :: "Sweep \<Rightarrow> int set" where
  "sweep_lists s = set (sw_idle s) \<union> set (sw_stalled s) \<union> set (sw_streamIdle s) \<union> fst ` set (sw_timedOut s)"

lemma sweep_lists_state [simp]: "sweep_lists (sw_state_update f s) = sweep_lists s"
  by (simp add: sweep_lists_def)

lemma sweep_lists_add [simp]:
  "sweep_lists (s\<lparr>sw_idle := sw_idle s @ [c]\<rparr>) = insert c (sweep_lists s)"
  "sweep_lists (s\<lparr>sw_stalled := sw_stalled s @ [c]\<rparr>) = insert c (sweep_lists s)"
  "sweep_lists (s\<lparr>sw_streamIdle := sw_streamIdle s @ [c]\<rparr>) = insert c (sweep_lists s)"
  "sweep_lists (s\<lparr>sw_timedOut := sw_timedOut s @ [(c, kd, why)]\<rparr>) = insert c (sweep_lists s)"
  "sweep_lists (s\<lparr>sw_state := r, sw_idle := sw_idle s @ [c]\<rparr>) = insert c (sweep_lists s)"
  by (auto simp: sweep_lists_def)

lemma sweep_part_lists:
  "sweep_lists (sweep_busy env c s) \<subseteq> insert c (sweep_lists s)" "sweep_lists (sweep_idle env c s) \<subseteq> insert c (sweep_lists s)"
  unfolding sweep_busy_def sweep_idle_def Let_def by (simp_all add: subset_insertI)

lemma sweep_conn_lists: "sweep_lists (sweep_conn env c s) \<subseteq> insert c (sweep_lists s)"
  unfolding sweep_conn_def Let_def
  using sweep_part_lists [of env c s] sweep_part_lists [of env c "s\<lparr>sw_state := expire_age c (sw_state s)\<rparr>"]
  by (simp add: subset_insertI)

context reactor_inv
begin

lemma sweep_fold_inv:
  assumes "I (sw_state s)" "\<forall>c \<in> set cs. own c (sw_state s)" "\<forall>c \<in> sweep_lists s. own c (sw_state s)"
  shows "I (sw_state (fold (sweep_conn env) cs s)) \<and>
    (\<forall>c \<in> sweep_lists (fold (sweep_conn env) cs s). own c (sw_state (fold (sweep_conn env) cs s)))"
  using assms
proof (induction cs arbitrary: s)
  case (Cons c cs)
  have "\<forall>d \<in> sweep_lists (sweep_conn env c s). own d (sw_state (sweep_conn env c s))"
    using sweep_conn_lists [of env c s] Cons.prems by auto
  then show ?case using Cons sweep_conn_inv [of s c env] by simp
qed simp

lemma fold_own:
  assumes "I r" "\<forall>c \<in> set (map key xs). own c r"
    and step: "\<And>x s. x \<in> set xs \<Longrightarrow> I s \<Longrightarrow> own (key x) s \<Longrightarrow> I (f x s)" and o: "\<And>x s d. own d (f x s) = own d s"
  shows "I (fold f xs r) \<and> (\<forall>d. own d (fold f xs r) = own d r)"
  using assms by (induction xs arbitrary: r) auto

lemma sweep_inv:
  assumes "I r" "\<forall>c \<in> set (lp_conns (loops r ! j)). own c r"
  shows "I (onSweep env faster j r)"
proof -
  define r0 where "r0 = (if j = 0 then runDispatchController faster r else r)"
  have t: "tracked r0 = tracked r" by (simp add: r0_def runDispatchController_def Let_def split: prod.splits)
  define s0 where "s0 = \<lparr>sw_state = r0, sw_idle = [], sw_stalled = [], sw_streamIdle = [], sw_timedOut = []\<rparr>"
  define s where "s = fold (sweep_conn env) (lp_conns (loops r0 ! j)) s0"
  have "I (sw_state s0)" "\<forall>c \<in> set (lp_conns (loops r0 ! j)). own c (sw_state s0)" "\<forall>c \<in> sweep_lists s0. own c (sw_state s0)"
    using frame [OF t assms(1)] assms(2) by (simp_all add: s0_def sweep_lists_def own_tracked [OF t] tracked_eqD(6) [OF t])
  then have s: "I (sw_state s)" "\<forall>c \<in> sweep_lists s. own c (sw_state s)" using sweep_fold_inv [of s0] by (auto simp: s_def)
  define r1 where "r1 = fold close_idle (sw_idle s) (sw_state s)"
  define r2 where "r2 = fold (answer_stalled env) (sw_stalled s) r1"
  define r3 where "r3 = fold close_stream_idle (sw_streamIdle s) r2"
  have 1: "I r1 \<and> (\<forall>d. own d r1 = own d (sw_state s))" unfolding r1_def
    by (rule fold_own [where key = id]) (use s in \<open>auto simp: sweep_lists_def close_idle_def intro!: mark_close\<close>)
  have 2: "I r2 \<and> (\<forall>d. own d r2 = own d r1)" unfolding r2_def
    by (rule fold_own [where key = id]) (use s 1 in \<open>auto simp: sweep_lists_def answer_stalled_def intro!: refuse emit_inv\<close>)
  have 3: "I r3 \<and> (\<forall>d. own d r3 = own d r2)" unfolding r3_def
    by (rule fold_own [where key = id])
      (use s 1 2 in \<open>auto simp: sweep_lists_def close_stream_idle_def Let_def intro!: close_open upd_inv emit_inv drop\<close>)
  have "I (fold (time_out_request env j) (sw_timedOut s) r3) \<and> (\<forall>d. own d (fold (time_out_request env j) (sw_timedOut s) r3) = own d r3)"
  proof (rule fold_own [where key = fst])
    show "\<forall>c \<in> set (map fst (sw_timedOut s)). own c r3" using s 1 2 3 by (auto simp: sweep_lists_def)
    show "own d (time_out_request env j x u) = own d u" for x u d
      by (cases x) (auto simp: time_out_request_def Let_def dest!: lookup_cases split: prod.splits option.splits)
    show "I (time_out_request env j x u)" if "I u" "own (fst x) u" for x u
      using that by (cases x) (auto simp: time_out_request_def Let_def dest!: lookup_cases intro!: emit_inv refuse upd_inv drop split: prod.splits option.splits)
  qed (use 3 in simp)
  then show ?thesis unfolding onSweep_def Let_def r0_def [symmetric] s0_def [symmetric] s_def [symmetric] r1_def [symmetric]
      r2_def [symmetric] r3_def [symmetric] by simp
qed

end

end
