(* ===== verification/ReactorSafety.thy ===== *)
theory ReactorSafety
  imports ReactorInv
begin

text \<open>
  Four invariants of the reactor as interpretations of the contract of \<open>ReactorInv\<close>: the structure of
  the tables, the accounting of unsent bytes, the single close of a handle, and the admission counters
  with their caps. Each interpretation proves that every callback and every call keeps its invariant.
\<close>

section \<open>Frames\<close>

lemma push_frame [simp]:
  "alive (push_queue j p r) = alive r" "nextId (push_queue j p r) = nextId r" "drainWrites (push_queue j p r) = drainWrites r"
  "liveConns (push_queue j p r) = liveConns r" "ipCounts (push_queue j p r) = ipCounts r" "reqLoc (push_queue j p r) = reqLoc r"
  "aborted (push_queue j p r) = aborted r" "cfg (push_queue j p r) = cfg r"
  by (simp_all add: push_queue_def upd_loop_def) (simp add: aborted_def log_effect_def)

lemma loop_frame [simp]:
  "alive (upd_loop j g r) = alive r" "nextId (upd_loop j g r) = nextId r" "drainWrites (upd_loop j g r) = drainWrites r"
  "liveConns (upd_loop j g r) = liveConns r" "ipCounts (upd_loop j g r) = ipCounts r" "reqLoc (upd_loop j g r) = reqLoc r"
  "aborted (upd_loop j g r) = aborted r"
  by (simp_all add: upd_loop_def aborted_def)

lemma lookup_frame [simp]:
  "alive (fst (lookupReq i er r)) = alive r" "nextId (fst (lookupReq i er r)) = nextId r"
  "drainWrites (fst (lookupReq i er r)) = drainWrites r" "loops (fst (lookupReq i er r)) = loops r"
  "conns (fst (lookupReq i er r)) = conns r" "liveConns (fst (lookupReq i er r)) = liveConns r"
  "ipCounts (fst (lookupReq i er r)) = ipCounts r" "aborted (fst (lookupReq i er r)) = aborted r"
  "cfg (fst (lookupReq i er r)) = cfg r"
  by (simp_all add: lookupReq_def aborted_def split: option.splits)

lemma enter_frame [simp]:
  "alive (enter_request env c i h t ka r) = alive r" "nextId (enter_request env c i h t ka r) = nextId r"
  "drainWrites (enter_request env c i h t ka r) = drainWrites r" "loops (enter_request env c i h t ka r) = loops r"
  "liveConns (enter_request env c i h t ka r) = liveConns r" "ipCounts (enter_request env c i h t ka r) = ipCounts r"
  "aborted (enter_request env c i h t ka r) = aborted r" "cfg (enter_request env c i h t ka r) = cfg r"
  by (simp_all add: enter_request_def Let_def upd_conn_def aborted_def)

lemma move_frame [simp]:
  "alive (fst (move_ip_slot c ip r)) = alive r" "nextId (fst (move_ip_slot c ip r)) = nextId r"
  "drainWrites (fst (move_ip_slot c ip r)) = drainWrites r" "loops (fst (move_ip_slot c ip r)) = loops r"
  "liveConns (fst (move_ip_slot c ip r)) = liveConns r" "reqLoc (fst (move_ip_slot c ip r)) = reqLoc r"
  "aborted (fst (move_ip_slot c ip r)) = aborted r" "cfg (fst (move_ip_slot c ip r)) = cfg r"
  by (simp_all add: move_ip_slot_def Let_def upd_conn_def aborted_def)

lemma upd_frame [simp]:
  "aborted (upd_conn c f r) = aborted r" "aborted (r\<lparr>nextId := n\<rparr>) = aborted r" "aborted (reqLoc_update q r) = aborted r"
  "aborted (begin_answer env c bs ka fin r) = aborted r" "aborted (start_write env c bs ka fin r) = aborted r"
  by (simp_all add: aborted_def upd_conn_def begin_answer_def start_write_def log_effect_def)

section \<open>Structure\<close>

text \<open>
  Ids are fresh and unique, refused connections still writing their 503 exist, and every connection a
  loop lists exists, is not a refused one, and names that loop.
\<close>

definition struct_ok :: "Reactor \<Rightarrow> bool" where
  "struct_ok r \<longleftrightarrow> distinct (alive r) \<and> (\<forall>c \<in> set (alive r). c < nextId r) \<and>
     set (drainWrites r) \<subseteq> set (alive r) \<and> distinct (drainWrites r) \<and>
     (\<forall>j < length (loops r). \<forall>c \<in> set (lp_conns (loops r ! j)). own c r \<and> c_lp (conns r c) = j)"

lemma conns_of_loops: "(\<And>l. lp_conns (g l) = lp_conns l) \<Longrightarrow> lp_conns (loops (upd_loop j g r) ! i) = lp_conns (loops r ! i)"
  by (cases "i = j"; cases "j < length (loops r)") (simp_all add: upd_loop_def list_update_beyond)

lemma conns_of_push [simp]: "lp_conns (loops (push_queue j p r) ! i) = lp_conns (loops r ! i)"
  by (simp add: push_queue_def conns_of_loops)

lemma length_loops [simp]: "length (loops (upd_loop j g r)) = length (loops r)" "length (loops (push_queue j p r)) = length (loops r)"
  by (simp_all add: upd_loop_def push_queue_def)

lemma lp_frame [simp]:
  "c_lp (conns (begin_answer env c bs ka fin r) d) = c_lp (conns r d)" "c_lp (conns (start_write env c bs ka fin r) d) = c_lp (conns r d)"
  "c_lp (conns (uv_close c r) d) = c_lp (conns r d)" "c_lp (conns (enter_request env c i h t ka r) d) = c_lp (conns r d)"
  "c_lp (conns (fst (move_ip_slot c ip r)) d) = c_lp (conns r d)"
  by (simp_all add: begin_answer_def start_write_def uv_close_def enter_request_def move_ip_slot_def Let_def)

lemma struct_cong:
  assumes "struct_ok r" "alive r' = alive r" "nextId r \<le> nextId r'" "drainWrites r' = drainWrites r"
    "length (loops r') = length (loops r)" "\<And>j. lp_conns (loops r' ! j) = lp_conns (loops r ! j)" "\<And>c. c_lp (conns r' c) = c_lp (conns r c)"
  shows "struct_ok r'"
  using assms unfolding struct_ok_def own_def by fastforce

interpretation str: reactor_inv struct_ok "\<lambda>_ _. True"
proof
  fix r r' :: Reactor
  assume t: "tracked r' = tracked r" and s: "struct_ok r"
  show "struct_ok r'" by (rule struct_cong [OF s]) (simp_all add: tracked_eqD [OF t] ctl_eqD [OF tracked_eqD(9) [OF t]])
next
  fix j p ps r
  assume "struct_ok (requeue j (p # ps) r)"
  then show "struct_ok (requeue j ps r)" by (rule struct_cong) (simp_all add: requeue_def conns_of_loops)
next
  fix r :: Reactor and g :: "Loop \<Rightarrow> Loop" and j
  assume "struct_ok r" "\<And>l. lp_conns (g l) = lp_conns l \<and> lp_queue (g l) = lp_queue l"
  then show "struct_ok (upd_loop j g r)" by (intro struct_cong [OF \<open>struct_ok r\<close>]) (simp_all add: conns_of_loops)
qed (rule TrueI | (erule struct_cong; simp))+

lemma struct_own: "struct_ok r \<Longrightarrow> j < length (loops r) \<Longrightarrow> \<forall>c \<in> set (lp_conns (loops r ! j)). own c r"
  by (simp add: struct_ok_def)

section \<open>Pending writes\<close>

text \<open>\<open>writePending\<close> is the number of bytes handed to the socket and not yet landed.\<close>

definition unsent :: "Conn \<Rightarrow> int" where
  "unsent k = int (sum_list (map (\<lambda>w. length (wc_payload w)) (h_writes k)))"

definition writes_ok :: "Reactor \<Rightarrow> bool" where
  "writes_ok r \<longleftrightarrow> (\<forall>c. c_writePending (conns r c) = unsent (conns r c))"

lemma writes_cong:
  assumes "writes_ok r" "\<And>c. c_writePending (conns r' c) = c_writePending (conns r c)" "\<And>c. h_writes (conns r' c) = h_writes (conns r c)"
  shows "writes_ok r'"
  using assms by (simp add: writes_ok_def unsent_def)

lemma write_fields [simp]:
  "h_writes (conns (uv_close c r) d) = h_writes (conns r d)" "c_writePending (conns (uv_close c r) d) = c_writePending (conns r d)"
  "h_writes (conns (enter_request env c i h t ka r) d) = h_writes (conns r d)"
  "c_writePending (conns (enter_request env c i h t ka r) d) = c_writePending (conns r d)"
  "h_writes (conns (fst (move_ip_slot c ip r)) d) = h_writes (conns r d)"
  "c_writePending (conns (fst (move_ip_slot c ip r)) d) = c_writePending (conns r d)"
  "h_writes (conns (requeue j ps r) d) = h_writes (conns r d)" "c_writePending (conns (requeue j ps r) d) = c_writePending (conns r d)"
  by (simp_all add: uv_close_def enter_request_def move_ip_slot_def Let_def requeue_def)

lemma writes_start: "writes_ok r \<Longrightarrow> writes_ok (start_write env c bs ka fin r)"
  by (simp add: writes_ok_def unsent_def start_write_def)

interpretation wrt: reactor_inv writes_ok "\<lambda>_ _. True"
proof
  fix r r' :: Reactor
  assume t: "tracked r' = tracked r" and s: "writes_ok r"
  show "writes_ok r'" by (rule writes_cong [OF s]) (simp_all add: ctl_eqD [OF tracked_eqD(9) [OF t]])
next
  fix r env c bs ka fin assume "writes_ok r"
  then show "writes_ok (begin_answer env c bs ka fin r)" unfolding begin_answer_def by (intro writes_start) (erule writes_cong; simp)
next
  fix r env c bs ka fd assume "writes_ok r"
  then show "writes_ok (begin_answer env c bs ka False (upd_conn c (\<lambda>k. k\<lparr>c_fileFd := fd\<rparr>) r))"
    unfolding begin_answer_def by (intro writes_start) (erule writes_cong; simp)
next
  fix r c ctx rest assume "writes_ok r" "h_writes (conns r c) = ctx # rest"
  then show "writes_ok (upd_conn c (\<lambda>k. k\<lparr>h_writes := rest, c_writePending := max 0 (c_writePending k - int (length (wc_payload ctx)))\<rparr>) r)"
    by (simp add: writes_ok_def unsent_def)
qed (rule TrueI | (erule writes_start) | (erule writes_cong; simp))+


section \<open>Handles are closed once\<close>

text \<open>
  \<open>uv_close\<close> on a closing handle aborts the process. A handle libuv still reads is open, and a refused
  connection whose 503 is being written is open, not read, and has no other write.
\<close>

definition close_ok :: "Reactor \<Rightarrow> bool" where
  "close_ok r \<longleftrightarrow> \<not> aborted r \<and> (\<forall>c. h_reading (conns r c) \<longrightarrow> \<not> h_closing (conns r c)) \<and>
     (\<forall>c \<in> set (drainWrites r). \<not> h_closing (conns r c) \<and> \<not> h_reading (conns r c) \<and> h_writes (conns r c) = [])"

lemma close_cong:
  assumes "close_ok r" "aborted r' = aborted r" "drainWrites r' = drainWrites r"
    "\<And>c. h_reading (conns r' c) = h_reading (conns r c)" "\<And>c. h_closing (conns r' c) = h_closing (conns r c)"
    "\<And>c. c \<in> set (drainWrites r) \<Longrightarrow> h_writes (conns r' c) = h_writes (conns r c)"
  shows "close_ok r'"
  using assms by (simp add: close_ok_def)

lemma close_cong_own:
  assumes "close_ok r" "own c r" "aborted r' = aborted r" "drainWrites r' = drainWrites r"
    "\<And>c. h_reading (conns r' c) = h_reading (conns r c)" "\<And>c. h_closing (conns r' c) = h_closing (conns r c)"
    "\<And>d. d \<noteq> c \<Longrightarrow> h_writes (conns r' d) = h_writes (conns r d)"
  shows "close_ok r'"
proof (rule close_cong [OF assms(1) assms(3-6)])
  fix d assume "d \<in> set (drainWrites r)"
  then have "d \<noteq> c" using assms(2) by (auto simp: own_def)
  then show "h_writes (conns r' d) = h_writes (conns r d)" by (rule assms(7))
qed

lemma handle_fields [simp]:
  "h_reading (conns (begin_answer env c bs ka fin r) d) = h_reading (conns r d)" "h_closing (conns (begin_answer env c bs ka fin r) d) = h_closing (conns r d)"
  "h_reading (conns (start_write env c bs ka fin r) d) = h_reading (conns r d)" "h_closing (conns (start_write env c bs ka fin r) d) = h_closing (conns r d)"
  "h_reading (conns (enter_request env c i h t ka r) d) = h_reading (conns r d)" "h_closing (conns (enter_request env c i h t ka r) d) = h_closing (conns r d)"
  "h_reading (conns (fst (move_ip_slot c ip r)) d) = h_reading (conns r d)" "h_closing (conns (fst (move_ip_slot c ip r)) d) = h_closing (conns r d)"
  "h_reading (conns (requeue j ps r) d) = h_reading (conns r d)" "h_closing (conns (requeue j ps r) d) = h_closing (conns r d)"
  by (simp_all add: begin_answer_def start_write_def enter_request_def move_ip_slot_def Let_def requeue_def)

lemma writes_other [simp]:
  "d \<noteq> c \<Longrightarrow> h_writes (conns (begin_answer env c bs ka fin r) d) = h_writes (conns r d)"
  "d \<noteq> c \<Longrightarrow> h_writes (conns (start_write env c bs ka fin r) d) = h_writes (conns r d)"
  by (simp_all add: begin_answer_def start_write_def)

lemma requeue_frame [simp]:
  "alive (requeue j ps r) = alive r" "nextId (requeue j ps r) = nextId r" "drainWrites (requeue j ps r) = drainWrites r"
  "liveConns (requeue j ps r) = liveConns r" "ipCounts (requeue j ps r) = ipCounts r" "reqLoc (requeue j ps r) = reqLoc r"
  "aborted (requeue j ps r) = aborted r" "cfg (requeue j ps r) = cfg r"
  by (simp_all add: requeue_def)

lemma aborted_close [simp]: "aborted (uv_close c r) \<longleftrightarrow> aborted r \<or> h_closing (conns r c)"
  by (auto simp: uv_close_def aborted_def log_effect_def upd_conn_def)

lemma uv_close_handle:
  "h_closing (conns (uv_close c r) d) \<longleftrightarrow> d = c \<or> h_closing (conns r d)"
  "\<not> h_closing (conns r c) \<Longrightarrow> h_reading (conns (uv_close c r) d) \<longleftrightarrow> d \<noteq> c \<and> h_reading (conns r d)"
  by (auto simp: uv_close_def)

interpretation cls: reactor_inv close_ok "\<lambda>_ _. True"
proof
  fix r r' :: Reactor
  assume t: "tracked r' = tracked r" and s: "close_ok r"
  show "close_ok r'" by (rule close_cong [OF s]) (simp_all add: tracked_eqD [OF t] ctl_eqD [OF tracked_eqD(9) [OF t]])
next
  fix r c assume "close_ok r" "own c r" "\<not> h_closing (conns r c)"
  then show "close_ok (uv_close c r)" by (auto simp: close_ok_def own_def uv_close_handle)
next
  fix r c assume "close_ok r" "own c r"
  then show "close_ok (upd_conn c (\<lambda>k. k\<lparr>h_reading := False\<rparr>) r)" by (auto simp: close_ok_def own_def)
qed (rule TrueI | (erule close_cong_own, assumption; simp) | (erule close_cong; simp))+

section \<open>Admission\<close>

text \<open>
  The counters are the numbers of live connections they stand for, and the configured caps, where set,
  bound them.
\<close>

definition counted_conns :: "Reactor \<Rightarrow> int list" where
  "counted_conns r = filter (\<lambda>c. c_counted (conns r c)) (alive r)"

definition conns_from :: "string \<Rightarrow> Reactor \<Rightarrow> int list" where
  "conns_from ip r = filter (\<lambda>c. c_peerIp (conns r c) = ip) (alive r)"

definition admission_ok :: "Reactor \<Rightarrow> bool" where
  "admission_ok r \<longleftrightarrow> distinct (alive r) \<and> liveConns r = int (length (counted_conns r)) \<and>
     (\<forall>ip. ip \<noteq> [] \<longrightarrow> ip_count ip (ipCounts r) = int (length (conns_from ip r))) \<and>
     (maxConnections (cfg r) > 0 \<longrightarrow> liveConns r \<le> maxConnections (cfg r)) \<and>
     (\<forall>ip. ip \<noteq> [] \<and> maxConnectionsPerIp (cfg r) > 0 \<longrightarrow> ip_count ip (ipCounts r) \<le> maxConnectionsPerIp (cfg r))"

lemma admission_cong:
  assumes "admission_ok r" "alive r' = alive r" "liveConns r' = liveConns r" "ipCounts r' = ipCounts r" "cfg r' = cfg r"
    "\<And>c. c_counted (conns r' c) = c_counted (conns r c)" "\<And>c. c_peerIp (conns r' c) = c_peerIp (conns r c)"
  shows "admission_ok r'"
proof -
  have "counted_conns r' = counted_conns r" "\<And>ip. conns_from ip r' = conns_from ip r"
    using assms by (simp_all add: counted_conns_def conns_from_def)
  then show ?thesis using assms(1-5) by (auto simp: admission_ok_def)
qed

lemma admission_fields [simp]:
  "c_counted (conns (begin_answer env c bs ka fin r) d) = c_counted (conns r d)" "c_peerIp (conns (begin_answer env c bs ka fin r) d) = c_peerIp (conns r d)"
  "c_counted (conns (start_write env c bs ka fin r) d) = c_counted (conns r d)" "c_peerIp (conns (start_write env c bs ka fin r) d) = c_peerIp (conns r d)"
  "c_counted (conns (enter_request env c i h t ka r) d) = c_counted (conns r d)" "c_peerIp (conns (enter_request env c i h t ka r) d) = c_peerIp (conns r d)"
  "c_counted (conns (uv_close c r) d) = c_counted (conns r d)" "c_peerIp (conns (uv_close c r) d) = c_peerIp (conns r d)"
  "c_counted (conns (fst (move_ip_slot c ip r)) d) = c_counted (conns r d)"
  "c_counted (conns (requeue j ps r) d) = c_counted (conns r d)" "c_peerIp (conns (requeue j ps r) d) = c_peerIp (conns r d)"
  by (simp_all add: begin_answer_def start_write_def enter_request_def uv_close_def move_ip_slot_def Let_def requeue_def)

lemma ip_count_update: "ip_count ip (AList.update k v m) = (if ip = k then v else ip_count ip m)"
  by (simp add: ip_count_def update_conv')

lemma ip_count_delete: "ip_count ip (AList.delete k m) = (if ip = k then 0 else ip_count ip m)"
  by (simp add: ip_count_def delete_conv')

lemma ip_count_release: "0 \<le> ip_count k m \<Longrightarrow> ip_count ip (ip_release k m) = (if ip = k then max 0 (ip_count k m - 1) else ip_count ip m)"
  by (auto simp: ip_release_def ip_count_update ip_count_delete split: option.splits) (auto simp: ip_count_def)


text \<open>Changing one connection's flag in a list without duplicates moves the count by one.\<close>

lemma filter_upd:
  assumes "distinct cs" "c \<in> set cs" "\<And>d. d \<noteq> c \<Longrightarrow> Q d = P d"
  shows "int (length (filter Q cs)) = int (length (filter P cs)) - of_bool (P c) + of_bool (Q c)"
  using assms(1,2)
proof (induction cs)
  case (Cons d cs)
  have "filter Q cs = filter P cs" if "c \<notin> set cs" using that assms(3) by (metis filter_cong)
  then show ?case using Cons assms(3) [of d] by (cases "d = c") auto
qed simp

lemma conns_from_upd:
  assumes "distinct (alive r)" "c \<in> set (alive r)"
  shows "int (length (conns_from ip (upd_conn c (\<lambda>k. k\<lparr>c_peerIp := new\<rparr>) r))) =
    int (length (conns_from ip r)) - (if c_peerIp (conns r c) = ip then 1 else 0) + (if new = ip then 1 else 0)"
  using filter_upd [OF assms, of "\<lambda>d. c_peerIp (conns (upd_conn c (\<lambda>k. k\<lparr>c_peerIp := new\<rparr>) r) d) = ip" "\<lambda>d. c_peerIp (conns r d) = ip"]
  by (simp add: conns_from_def)

definition give_up_slot :: "int \<Rightarrow> Reactor \<Rightarrow> Reactor" where
  "give_up_slot c r = upd_conn c (\<lambda>k. k\<lparr>c_peerIp := []\<rparr>)
     (r\<lparr>ipCounts := (if c_peerIp (conns r c) \<noteq> [] then ip_release (c_peerIp (conns r c)) (ipCounts r) else ipCounts r)\<rparr>)"

lemma from_fields [simp]: "conns_from ip (ipCounts_update f r) = conns_from ip r" "counted_conns (ipCounts_update f r) = counted_conns r"
  "counted_conns (upd_conn c (\<lambda>k. k\<lparr>c_peerIp := new\<rparr>) r) = counted_conns r"
  by (auto simp: conns_from_def counted_conns_def intro: filter_cong)

lemma slot_of_peer:
  assumes "admission_ok r" "c \<in> set (alive r)" "c_peerIp (conns r c) \<noteq> []"
  shows "ip_count (c_peerIp (conns r c)) (ipCounts r) \<ge> 1"
proof -
  have "c \<in> set (conns_from (c_peerIp (conns r c)) r)" using assms(2) by (simp add: conns_from_def)
  then have "length (conns_from (c_peerIp (conns r c)) r) \<ge> 1" by (cases "conns_from (c_peerIp (conns r c)) r") auto
  then show ?thesis using assms(1,3) by (simp add: admission_ok_def)
qed

lemma give_up_ok:
  assumes "admission_ok r" "c \<in> set (alive r)"
  shows "admission_ok (give_up_slot c r)"
proof -
  let ?p = "c_peerIp (conns r c)"
  have d: "distinct (alive r)" using assms(1) by (simp add: admission_ok_def)
  have n: "ip_count ip (ipCounts (give_up_slot c r)) = ip_count ip (ipCounts r) - (if ?p = ip then 1 else 0)" if "ip \<noteq> []" for ip
    using slot_of_peer [OF assms] that by (auto simp: give_up_slot_def ip_count_release)
  have "int (length (conns_from ip (give_up_slot c r))) = int (length (conns_from ip r)) - (if ?p = ip then 1 else 0)" if "ip \<noteq> []" for ip
    using conns_from_upd [of "r\<lparr>ipCounts := m\<rparr>" c ip "[]" for m] d assms(2) that by (auto simp: give_up_slot_def)
  moreover have "counted_conns (give_up_slot c r) = counted_conns r" "alive (give_up_slot c r) = alive r"
    "liveConns (give_up_slot c r) = liveConns r" "cfg (give_up_slot c r) = cfg r" by (simp_all add: give_up_slot_def)
  ultimately show ?thesis using assms(1) n unfolding admission_ok_def by fastforce
qed

text \<open>Taking a slot for an address under its cap, by a connection that holds none.\<close>

lemma take_slot_ok:
  assumes "admission_ok r" "c \<in> set (alive r)" "c_peerIp (conns r c) = []" "ip \<noteq> []"
    "maxConnectionsPerIp (cfg r) > 0 \<Longrightarrow> ip_count ip (ipCounts r) < maxConnectionsPerIp (cfg r)"
  shows "admission_ok (upd_conn c (\<lambda>k. k\<lparr>c_peerIp := ip\<rparr>) (r\<lparr>ipCounts := AList.update ip (ip_count ip (ipCounts r) + 1) (ipCounts r)\<rparr>))"
    (is "admission_ok ?r")
proof -
  have d: "distinct (alive r)" using assms(1) by (simp add: admission_ok_def)
  have n: "ip_count q (ipCounts ?r) = ip_count q (ipCounts r) + (if ip = q then 1 else 0)" for q
    by (simp add: upd_conn_def ip_count_update)
  have "int (length (conns_from q ?r)) = int (length (conns_from q r)) + (if ip = q then 1 else 0)" if "q \<noteq> []" for q
    using conns_from_upd [of "r\<lparr>ipCounts := m\<rparr>" c q ip for m] d assms(2,3) that by auto
  moreover have "counted_conns ?r = counted_conns r" "alive ?r = alive r" "liveConns ?r = liveConns r" "cfg ?r = cfg r" by simp_all
  ultimately show ?thesis using assms(1,5) n unfolding admission_ok_def by fastforce
qed

lemma move_slot_ok:
  assumes "admission_ok r" "c \<in> set (alive r)" "ip \<noteq> []"
  shows "admission_ok (fst (move_ip_slot c ip r))"
proof -
  let ?g = "give_up_slot c r"
  have g: "admission_ok ?g" "c \<in> set (alive ?g)" "c_peerIp (conns ?g c) = []" "cfg ?g = cfg r"
    using give_up_ok [OF assms(1,2)] assms(2) by (simp_all add: give_up_slot_def)
  have e: "move_ip_slot c ip r =
    (if ip_count ip (ipCounts ?g) \<ge> maxConnectionsPerIp (cfg r)
     then (?g\<lparr>ipCounts := (if ip_count ip (ipCounts ?g) = 0 then AList.delete ip (ipCounts ?g) else ipCounts ?g)\<rparr>, True)
     else (upd_conn c (\<lambda>k. k\<lparr>c_peerIp := ip\<rparr>) (?g\<lparr>ipCounts := AList.update ip (ip_count ip (ipCounts ?g) + 1) (ipCounts ?g)\<rparr>), False))"
    by (simp add: move_ip_slot_def give_up_slot_def Let_def upd_conn_def)
  have "ip_count q (AList.delete ip (ipCounts ?g)) = ip_count q (ipCounts ?g)" if "ip_count ip (ipCounts ?g) = 0" for q
    using that by (simp add: ip_count_delete)
  then have "admission_ok (?g\<lparr>ipCounts := (if ip_count ip (ipCounts ?g) = 0 then AList.delete ip (ipCounts ?g) else ipCounts ?g)\<rparr>)"
    using g(1) by (auto simp: admission_ok_def)
  then show ?thesis unfolding e using take_slot_ok [OF g(1-3) assms(3)] g(4) by auto
qed

interpretation adm: reactor_inv admission_ok "\<lambda>_ _. True"
proof
  fix r r' :: Reactor
  assume t: "tracked r' = tracked r" and s: "admission_ok r"
  show "admission_ok r'" by (rule admission_cong [OF s]) (simp_all add: tracked_eqD [OF t] ctl_eqD [OF tracked_eqD(9) [OF t]])
next
  fix r c and ip :: string
  assume "admission_ok r" "own c r" "ip \<noteq> []"
  then show "admission_ok (fst (move_ip_slot c ip r))" by (intro move_slot_ok) (simp_all add: own_def)
qed (rule TrueI | (erule admission_cong; simp))+

end
