(* ===== verification/ReactorTurns.thy ===== *)
theory ReactorTurns
  imports ReactorSafety
begin

text \<open>
  One answer at a time. A connection answers its requests in the order they arrive because the next one
  is taken off the buffer only when no answer is outstanding. What is outstanding for a connection is
  counted over all the places an answer passes through: the request table, the queues of the loops, the
  writes in flight and the file being sent. At most one is, and the connection is busy while it is.
\<close>

definition req_count :: "int \<Rightarrow> (int \<times> ReqLoc) list \<Rightarrow> nat" where
  "req_count c m = length (filter (\<lambda>(i, loc). rl_connId loc = c) m)"

definition queued :: "int \<Rightarrow> Pending list \<Rightarrow> nat" where
  "queued c ps = length (filter (\<lambda>p. token p \<and> q_connId p = c) ps)"

definition landing :: "Conn \<Rightarrow> nat" where
  "landing k = length (filter (\<lambda>w. wc_finish w \<and> wc_keepAlive w) (h_writes k)) + of_bool (0 \<le> c_fileFd k)"

definition in_queues :: "int \<Rightarrow> Reactor \<Rightarrow> nat" where
  "in_queues c r = sum_list (map (\<lambda>l. queued c (lp_queue l)) (loops r))"

definition outstanding :: "int \<Rightarrow> Reactor \<Rightarrow> nat" where
  "outstanding c r = req_count c (reqLoc r) + in_queues c r + landing (conns r c)"

definition known_ids :: "Reactor \<Rightarrow> int set" where
  "known_ids r = rl_connId ` snd ` set (reqLoc r) \<union> q_connId ` {p \<in> (\<Union>l \<in> set (loops r). set (lp_queue l)). token p}"

definition turns_ok :: "Reactor \<Rightarrow> bool" where
  "turns_ok r \<longleftrightarrow> (\<forall>c \<in> set (alive r). outstanding c r \<le> 1 \<and> (outstanding c r = 1 \<longrightarrow> c_busy (conns r c))) \<and>
     (\<forall>c \<in> set (alive r) \<union> known_ids r. c < nextId r)"

definition free_turn :: "int \<Rightarrow> Reactor \<Rightarrow> bool" where
  "free_turn c r \<longleftrightarrow> outstanding c r = 0"

section \<open>Counting\<close>

lemma req_count_delete:
  "req_count c (AList.delete i m) \<le> req_count c m"
  "map_of m i = Some loc \<Longrightarrow> req_count (rl_connId loc) (AList.delete i m) < req_count (rl_connId loc) m"
proof -
  show le: "req_count c (AList.delete i m) \<le> req_count c m" for c m
    by (induction m) (auto simp: req_count_def)
  show "map_of m i = Some loc \<Longrightarrow> req_count (rl_connId loc) (AList.delete i m) < req_count (rl_connId loc) m"
  proof (induction m)
    case (Cons x m)
    then show ?case using le [of "rl_connId loc" m] by (auto simp: req_count_def split: if_splits)
  qed simp
qed

lemma req_count_update: "req_count c (AList.update i loc m) \<le> req_count c m + of_bool (rl_connId loc = c)"
  by (induction m) (auto simp: req_count_def)

lemma req_count_same: "map_of m i = Some loc \<Longrightarrow> rl_connId loc' = rl_connId loc \<Longrightarrow> req_count c (AList.update i loc' m) = req_count c m"
  by (induction m) (auto simp: req_count_def split: if_splits)

lemma queued_append: "queued c (ps @ [p]) = queued c ps + of_bool (token p \<and> q_connId p = c)"
  by (simp add: queued_def)

lemma queued_Cons: "queued c (p # ps) = queued c ps + of_bool (token p \<and> q_connId p = c)"
  by (simp add: queued_def)

lemma sum_list_upd: "j < length xs \<Longrightarrow> sum_list (xs[j := y]) + xs ! j = sum_list xs + (y :: nat)"
  by (induction xs arbitrary: j) (auto split: nat.splits)

lemma in_queues_upd:
  "in_queues c (upd_loop j g r) + (if j < length (loops r) then queued c (lp_queue (loops r ! j)) else 0) =
   in_queues c r + (if j < length (loops r) then queued c (lp_queue (g (loops r ! j))) else 0)"
  using sum_list_upd [of j "map (\<lambda>l. queued c (lp_queue l)) (loops r)" "queued c (lp_queue (g (loops r ! j)))"]
  by (auto simp: in_queues_def upd_loop_def map_update list_update_beyond)

lemma in_queues_loop: "(\<And>l. lp_queue (g l) = lp_queue l) \<Longrightarrow> in_queues c (upd_loop j g r) = in_queues c r"
  using in_queues_upd [of c j g r] by (simp split: if_splits)

lemma in_queues_push: "in_queues c (push_queue j p r) \<le> in_queues c r + of_bool (token p \<and> q_connId p = c)"
  using in_queues_upd [of c j "\<lambda>l. l\<lparr>lp_queue := lp_queue l @ [p]\<rparr>" r]
  by (auto simp: push_queue_def queued_append log_effect_def in_queues_def split: if_splits)


lemma in_queues_frame [simp]:
  "in_queues d (start_write env c bs ka fin r) = in_queues d r" "in_queues d (begin_answer env c bs ka fin r) = in_queues d r"
  "in_queues d (uv_close c r) = in_queues d r" "in_queues d (upd_conn c f r) = in_queues d r" "in_queues d (nextId_update n r) = in_queues d r"
  "in_queues d (fst (lookupReq i er r)) = in_queues d r" "in_queues d (enter_request env c i h t ka r) = in_queues d r"
  "in_queues d (fst (move_ip_slot c ip r)) = in_queues d r" "in_queues d (reqLoc_update q r) = in_queues d r"
  by (simp_all add: in_queues_def)

lemma landing_frame [simp]:
  "landing (conns (start_write env c bs True False r) d) = landing (conns r d)"
  "landing (conns (begin_answer env c bs ka fin r) d) = landing (conns r d) + of_bool (d = c \<and> ka \<and> fin)"
  "landing (conns (uv_close c r) d) = landing (conns r d)" "landing (conns (enter_request env c i h t ka r) d) = landing (conns r d)"
  "landing (conns (fst (move_ip_slot c ip r)) d) = landing (conns r d)" "landing (conns (requeue j ps r) d) = landing (conns r d)"
  by (auto simp: landing_def start_write_def begin_answer_def uv_close_def enter_request_def move_ip_slot_def Let_def requeue_def)

lemma busy_frame [simp]:
  "c_busy (conns (start_write env c bs ka fin r) d) = c_busy (conns r d)"
  "c_busy (conns (begin_answer env c bs ka fin r) d) \<longleftrightarrow> d = c \<or> c_busy (conns r d)"
  "c_busy (conns (enter_request env c i h t ka r) d) \<longleftrightarrow> d = c \<or> c_busy (conns r d)"
  "c_busy (conns (fst (move_ip_slot c ip r)) d) = c_busy (conns r d)" "c_busy (conns (requeue j ps r) d) = c_busy (conns r d)"
  by (simp_all add: start_write_def begin_answer_def enter_request_def move_ip_slot_def Let_def requeue_def)

lemma known_frame [simp]:
  "known_ids (start_write env c bs ka fin r) = known_ids r" "known_ids (begin_answer env c bs ka fin r) = known_ids r"
  "known_ids (uv_close c r) = known_ids r" "known_ids (upd_conn c f r) = known_ids r" "known_ids (nextId_update n r) = known_ids r"
  "known_ids (fst (move_ip_slot c ip r)) = known_ids r"
  by (simp_all add: known_ids_def start_write_def begin_answer_def uv_close_def log_effect_def upd_conn_def)

lemma known_delete: "known_ids (fst (lookupReq i True r)) \<subseteq> known_ids r"
  by (auto simp: known_ids_def lookupReq_def AList.delete_eq split: option.splits)

lemma known_update: "known_ids (reqLoc_update (\<lambda>_. AList.update i loc m) r) \<subseteq> known_ids (r\<lparr>reqLoc := m\<rparr>) \<union> {rl_connId loc}"
proof -
  have "set (AList.update i loc m) \<subseteq> insert (i, loc) (set m)" by (induction m) auto
  then have "rl_connId ` snd ` set (AList.update i loc m) \<subseteq> insert (rl_connId loc) (rl_connId ` snd ` set m)" by fastforce
  then show ?thesis unfolding known_ids_def by simp blast
qed

lemma loops_upd_cases:
  assumes "l \<in> set (loops (upd_loop j g r))"
  obtains "l \<in> set (loops r)" | "loops r ! j \<in> set (loops r)" "l = g (loops r ! j)"
proof (cases "j < length (loops r)")
  case True
  then show ?thesis using assms that set_update_subset_insert [of "loops r" j] by (auto simp: upd_loop_def)
qed (use assms that in \<open>auto simp: upd_loop_def list_update_beyond\<close>)

lemma known_upd_loop:
  assumes "\<And>l. set (lp_queue (g l)) \<subseteq> set (lp_queue l) \<union> {p. token p \<longrightarrow> q_connId p \<in> A}"
  shows "known_ids (upd_loop j g r) \<subseteq> known_ids r \<union> A"
proof -
  have "(\<exists>l' \<in> set (loops r). p \<in> set (lp_queue l')) \<or> q_connId p \<in> A"
    if "l \<in> set (loops (upd_loop j g r))" "p \<in> set (lp_queue l)" "token p" for l p
    using that(1) by (rule loops_upd_cases) (use that(2,3) assms [of "loops r ! j"] in auto)
  then have "q_connId ` {p \<in> (\<Union>l \<in> set (loops (upd_loop j g r)). set (lp_queue l)). token p} \<subseteq>
      q_connId ` {p \<in> (\<Union>l \<in> set (loops r). set (lp_queue l)). token p} \<union> A" by fastforce
  then show ?thesis unfolding known_ids_def by simp blast
qed

lemma known_push: "known_ids (push_queue j p r) \<subseteq> known_ids r \<union> {c. token p \<and> c = q_connId p}"
proof -
  have "known_ids (push_queue j p r) = known_ids (upd_loop j (\<lambda>l. l\<lparr>lp_queue := lp_queue l @ [p]\<rparr>) r)"
    by (simp add: push_queue_def known_ids_def log_effect_def)
  then show ?thesis using known_upd_loop [of "\<lambda>l. l\<lparr>lp_queue := lp_queue l @ [p]\<rparr>" "{c. token p \<and> c = q_connId p}"] by auto
qed

section \<open>The invariant\<close>

lemma turns_okD: "turns_ok r \<Longrightarrow> c \<in> set (alive r) \<Longrightarrow> outstanding c r \<le> 1 \<and> (outstanding c r = 1 \<longrightarrow> c_busy (conns r c))"
  by (simp add: turns_ok_def)

lemma turns_idD: "turns_ok r \<Longrightarrow> c \<in> set (alive r) \<union> known_ids r \<Longrightarrow> c < nextId r"
  by (simp only: turns_ok_def)

lemma turns_mono:
  assumes "turns_ok r" "alive r' = alive r" "nextId r \<le> nextId r'" "known_ids r' \<subseteq> known_ids r"
    "\<And>c. outstanding c r' \<le> outstanding c r" "\<And>c. c_busy (conns r c) \<Longrightarrow> c_busy (conns r' c)"
  shows "turns_ok r'"
proof -
  have "outstanding c r' \<le> 1 \<and> (outstanding c r' = 1 \<longrightarrow> c_busy (conns r' c))" if "c \<in> set (alive r)" for c
    using turns_okD [OF assms(1) that] assms(5) [of c] assms(6) [of c] by (cases "outstanding c r = 1") auto
  moreover have "\<forall>c \<in> set (alive r') \<union> known_ids r'. c < nextId r'" using turns_idD [OF assms(1)] assms(2-4) by fastforce
  ultimately show ?thesis using assms(2) by (simp add: turns_ok_def)
qed

text \<open>The connection with no answer outstanding takes its turn.\<close>

lemma turns_begin:
  assumes "turns_ok r" "own c r" "free_turn c r" "alive r' = alive r" "nextId r' = nextId r" "known_ids r' \<subseteq> insert c (known_ids r)"
    "\<And>d. outstanding d r' \<le> outstanding d r + of_bool (d = c)" "\<And>d. d = c \<or> c_busy (conns r d) \<Longrightarrow> c_busy (conns r' d)"
  shows "turns_ok r'"
proof -
  have "outstanding d r' \<le> 1 \<and> (outstanding d r' = 1 \<longrightarrow> c_busy (conns r' d))" if "d \<in> set (alive r)" for d
    using turns_okD [OF assms(1) that] assms(3) assms(7) [of d] assms(8) [of d]
    by (cases "d = c"; cases "outstanding d r = 1") (auto simp: free_turn_def)
  moreover have "\<forall>c \<in> set (alive r') \<union> known_ids r'. c < nextId r'" using turns_idD [OF assms(1)] assms(2,4-6) by (fastforce simp: own_def)
  ultimately show ?thesis using assms(4) by (simp add: turns_ok_def)
qed

lemma turns_free:
  "turns_ok r \<Longrightarrow> own c r \<Longrightarrow> outstanding c r' < outstanding c r \<Longrightarrow> free_turn c r'"
  using turns_okD [of r c] by (simp add: own_def free_turn_def)


lemma outstanding_cong:
  assumes "tracked r' = tracked r"
  shows "outstanding c r' = outstanding c r" "known_ids r' = known_ids r"
  using tracked_eqD(5,6) [OF assms] ctl_eqD [OF tracked_eqD(9) [OF assms, of c]]
  by (simp_all add: outstanding_def in_queues_def landing_def known_ids_def)

lemma lookup_reqs: "reqLoc (fst (lookupReq i True r)) = AList.delete i (reqLoc r)"
  by (force simp: lookupReq_def AList.delete_eq map_of_eq_None_iff intro!: filter_True [symmetric] split: option.splits)

lemma enter_reqs:
  "req_count d (reqLoc (enter_request env c i h t ka r)) \<le> req_count d (reqLoc r) + of_bool (d = c)"
  "known_ids (enter_request env c i h t ka r) \<subseteq> insert c (known_ids r)"
proof -
  obtain loc where l: "reqLoc (enter_request env c i h t ka r) = AList.update i loc (reqLoc r)" "rl_connId loc = c"
    "known_ids (enter_request env c i h t ka r) = known_ids (r\<lparr>reqLoc := AList.update i loc (reqLoc r)\<rparr>)"
    by (simp add: enter_request_def Let_def)
  show "req_count d (reqLoc (enter_request env c i h t ka r)) \<le> req_count d (reqLoc r) + of_bool (d = c)"
    using req_count_update [of d i loc "reqLoc r"] l by (auto split: if_splits)
  show "known_ids (enter_request env c i h t ka r) \<subseteq> insert c (known_ids r)"
    using known_update [of i loc "reqLoc r" r] l by auto
qed

lemma in_queues_requeue: "in_queues c (requeue j ps r) + of_bool (j < length (loops r) \<and> token p \<and> q_connId p = c) = in_queues c (requeue j (p # ps) r)"
  using in_queues_upd [of c j "\<lambda>l. l\<lparr>lp_queue := ps\<rparr>" r] in_queues_upd [of c j "\<lambda>l. l\<lparr>lp_queue := p # ps\<rparr>" r]
  by (auto simp: requeue_def queued_Cons split: if_splits)

lemma known_requeue: "known_ids (requeue j ps r) \<subseteq> known_ids (requeue j (p # ps) r)"
proof -
  let ?g = "\<lambda>l. if lp_queue l = p # ps then l\<lparr>lp_queue := ps\<rparr> else l"
  have "requeue j ps r = upd_loop j ?g (requeue j (p # ps) r)"
    by (cases "j < length (loops r)") (simp_all add: requeue_def upd_loop_def list_update_beyond)
  also have "known_ids (upd_loop j ?g (requeue j (p # ps) r)) \<subseteq> known_ids (requeue j (p # ps) r) \<union> {}"
    by (rule known_upd_loop) auto
  finally show ?thesis by simp
qed

lemma landing_pop:
  "h_writes k = w # ws \<Longrightarrow> landing (k\<lparr>h_writes := ws, c_writePending := n\<rparr>) + of_bool (wc_finish w \<and> wc_keepAlive w) = landing k"
  by (simp add: landing_def)

lemma landing_reading [simp]: "landing (k\<lparr>h_reading := b\<rparr>) = landing k"
  by (simp add: landing_def)

lemma landing_file: "0 \<le> c_fileFd k \<Longrightarrow> landing (k\<lparr>c_fileFd := -1\<rparr>) + 1 = landing k"
  by (simp add: landing_def)


interpretation trn: reactor_inv turns_ok free_turn
proof
  fix r r' :: Reactor and c
  assume t: "tracked r' = tracked r"
  show "turns_ok r \<Longrightarrow> turns_ok r'"
    using outstanding_cong [OF t] by (simp add: turns_ok_def tracked_eqD [OF t] ctl_eqD(5) [OF tracked_eqD(9) [OF t]])
  show "free_turn c r \<Longrightarrow> free_turn c r'" using outstanding_cong [OF t] by (simp add: free_turn_def)
next
  fix r c ka fin env bs assume a: "turns_ok r" "own c r" "ka \<and> fin \<Longrightarrow> free_turn c r"
  show "turns_ok (begin_answer env c bs ka fin r)"
  proof (cases "ka \<and> fin")
    case True
    then show ?thesis by (intro turns_begin [OF a]) (auto simp: outstanding_def)
  next
    case False
    then show ?thesis by (intro turns_mono [OF a(1)]) (auto simp: outstanding_def)
  qed
next
  fix r c env i head route ka assume a: "turns_ok r" "own c r" "free_turn c r"
  show "turns_ok (enter_request env c i head route ka r)"
    using enter_reqs(1) [of _ env c i head route ka r] enter_reqs(2) [of env c i head route ka r] by (intro turns_begin [OF a]) (auto simp: outstanding_def)
next
  fix r c env bs ka fd assume a: "turns_ok r" "own c r" "free_turn c r"
  have "landing (if d = c then (conns r c)\<lparr>c_fileFd := fd\<rparr> else conns r d) \<le> landing (conns r d) + of_bool (d = c)" for d
    by (simp add: landing_def)
  then show "turns_ok (begin_answer env c bs ka False (upd_conn c (\<lambda>k. k\<lparr>c_fileFd := fd\<rparr>) r))"
    by (intro turns_begin [OF a]) (auto simp: outstanding_def)
next
  fix r c assume a: "turns_ok r" "own c r" "0 \<le> c_fileFd (conns r c)"
  let ?r = "upd_conn c (\<lambda>k. k\<lparr>c_fileFd := -1\<rparr>) r"
  have o: "outstanding d ?r + of_bool (d = c) = outstanding d r" for d using landing_file [OF a(3)] by (simp add: outstanding_def)
  show "free_turn c ?r" by (rule turns_free [OF a(1,2)]) (use o [of c] in simp)
  show "turns_ok ?r" by (rule turns_mono [OF a(1)]) (use o in \<open>auto simp: le_add1 simp flip: o\<close>)
next
  fix r c ctx rest assume a: "turns_ok r" "own c r" "h_writes (conns r c) = ctx # rest"
  let ?r = "upd_conn c (\<lambda>k. k\<lparr>h_writes := rest, c_writePending := max 0 (c_writePending k - int (length (wc_payload ctx)))\<rparr>) r"
  have o: "outstanding d ?r + of_bool (d = c \<and> wc_finish ctx \<and> wc_keepAlive ctx) = outstanding d r" for d
    using landing_pop [OF a(3)] by (simp add: outstanding_def)
  show "turns_ok ?r" by (rule turns_mono [OF a(1)]) (use o in \<open>auto simp: le_add1 simp flip: o\<close>)
  assume "wc_finish ctx" "wc_keepAlive ctx"
  then show "free_turn c ?r" by (intro turns_free [OF a(1,2)]) (use o [of c] in simp)
next
  fix r c assume a: "turns_ok r" "own c r" "free_turn c r"
  have "outstanding d (upd_conn c (\<lambda>k. k\<lparr>c_busy := False\<rparr>) r) = outstanding d r" for d by (simp add: outstanding_def landing_def)
  then show "turns_ok (upd_conn c (\<lambda>k. k\<lparr>c_busy := False\<rparr>) r)" using a by (auto simp: turns_ok_def free_turn_def)
next
  fix r i and loc :: ReqLoc and p :: Pending and j assume a: "turns_ok r" "map_of (reqLoc r) i = Some loc" "q_connId p = rl_connId loc"
  let ?r = "fst (lookupReq i True r)"
  have "rl_connId loc \<in> known_ids r" using map_of_SomeD [OF a(2)] by (force simp: known_ids_def)
  then have k: "known_ids (push_queue j p ?r) \<subseteq> known_ids r" using known_push [of j p ?r] known_delete [of i r] a(3) by auto
  have o: "outstanding c (push_queue j p ?r) \<le> outstanding c r" for c
    using in_queues_push [of c j p ?r] req_count_delete(1) [of c i "reqLoc r"] req_count_delete(2) [OF a(2)] a(3)
    by (cases "rl_connId loc = c"; cases "token p") (auto simp: outstanding_def lookup_reqs)
  show "turns_ok (push_queue j p ?r)" by (rule turns_mono [OF a(1)]) (use k o in auto)
next
  fix r and p :: Pending and j assume a: "turns_ok r" "\<not> token p"
  show "turns_ok (push_queue j p r)"
    using known_push [of j p r] in_queues_push [of _ j p r] a(2) by (intro turns_mono [OF a(1)]) (auto simp: outstanding_def)
next
  fix r i assume a: "turns_ok r"
  show "turns_ok (fst (lookupReq i True r))"
    using known_delete req_count_delete(1) by (intro turns_mono [OF a]) (auto simp: outstanding_def lookup_reqs)
next
  fix j and p :: Pending and ps r assume a: "turns_ok (requeue j (p # ps) r)"
  show "turns_ok (requeue j ps r)"
    using known_requeue [of j ps r p] in_queues_requeue [of _ j ps r p] by (intro turns_mono [OF a]) (auto simp: outstanding_def le_add1 simp flip: in_queues_requeue)
next
  fix r i and loc :: ReqLoc assume a: "turns_ok r" "map_of (reqLoc r) i = Some loc"
  let ?loc = "loc\<lparr>rl_keepAlive := False\<rparr>"
  have "rl_connId loc \<in> known_ids r" using map_of_SomeD [OF a(2)] by (force simp: known_ids_def)
  then show "turns_ok (r\<lparr>reqLoc := AList.update i ?loc (reqLoc r)\<rparr>)"
    using known_update [of i ?loc "reqLoc r" r] req_count_same [OF a(2), of ?loc]
    by (intro turns_mono [OF a(1)]) (auto simp: outstanding_def)
next
  fix r :: Reactor and g :: "Loop \<Rightarrow> Loop" and j assume a: "turns_ok r" "\<And>l. lp_conns (g l) = lp_conns l \<and> lp_queue (g l) = lp_queue l"
  have q: "lp_queue (g l) = lp_queue l" for l using a(2) by simp
  show "turns_ok (upd_loop j g r)"
    using known_upd_loop [of g "{}" j r] in_queues_loop [of g, OF q] q by (intro turns_mono [OF a(1)]) (auto simp: outstanding_def)
next
  fix j and p :: Pending and ps r assume a: "turns_ok (requeue j (p # ps) r)" "j < length (loops r)" "own (q_connId p) r" "token p"
  show "free_turn (q_connId p) (requeue j ps r)"
    using in_queues_requeue [of "q_connId p" j ps r p] a by (intro turns_free [OF a(1)]) (auto simp: outstanding_def)
next
  fix r c assume "turns_ok r" "own c r" "\<not> c_busy (conns r c)"
  then show "free_turn c r" using turns_okD [of r c] by (fastforce simp: own_def free_turn_def)
qed ((erule turns_mono; auto simp: outstanding_def) | (simp add: free_turn_def outstanding_def))+

end
