(* ===== verification/ReactorReach.thy ===== *)
theory ReactorReach
  imports ReactorTurns
begin

text \<open>
  The reactor as a transition system: a step per callback libuv makes and per call from the handlers'
  threads, in any order, with what libuv documents about each callback as its guard. The invariants of
  \<open>ReactorSafety\<close> and \<open>ReactorTurns\<close> hold in every reachable state.
\<close>

section \<open>Steps\<close>

inductive reactor_step :: "Reactor \<Rightarrow> Reactor \<Rightarrow> bool" where
  accept: "i < length (loops r) \<Longrightarrow> \<not> lp_serverClosing (loops r ! i) \<Longrightarrow>
    reactor_step r (onConnection env i acceptOk peer writeOk r)"
| reads: "c \<in> set (alive r) \<Longrightarrow> h_reading (conns r c) \<Longrightarrow> reactor_step r (readCb env c data r)"
| eof: "c \<in> set (alive r) \<Longrightarrow> h_reading (conns r c) \<Longrightarrow> reactor_step r (read_eof env c r)"
| written: "c \<in> set (alive r) \<Longrightarrow> h_writes (conns r c) \<noteq> [] \<Longrightarrow> (h_closing (conns r c) \<longrightarrow> status < 0) \<Longrightarrow>
    reactor_step r (onWrite env c status r)"
| drained: "c \<in> set (drainWrites r) \<Longrightarrow> reactor_step r (onDrainWrite c r)"
| closed: "c \<in> set (alive r) \<Longrightarrow> h_closing (conns r c) \<Longrightarrow> h_writes (conns r c) = [] \<Longrightarrow> reactor_step r (onCloseConn c r)"
| woken: "i < length (loops r) \<Longrightarrow> reactor_step r (onAsync env i r)"
| swept: "i < length (loops r) \<Longrightarrow> reactor_step r (onSweep env faster i r)"
| responds: "reactor_step r (respond env q status headers body n r)"
| responds_file: "reactor_step r (respondFile env fopen fstat q status headers path offset len r)"
| streams: "reactor_step r (startStream env q status headers r)"
| sends_chunk: "reactor_step r (sendStreamChunk q chunk isLast r)"
| ws_sends: "reactor_step r (fst (wsSend c payload bin cmp r))"
| ws_closes: "reactor_step r (wsClose c code r)"
| acks: "reactor_step r (ackBody q n r)"
| drains: "reactor_step r (beginDrain r)"
| adds_sink: "reactor_step r (addEmitter e r)"
| removes_sink: "reactor_step r (fst (removeEmitter e r))"
| registers: "reactor_step r (fst (registerRouteEntry entry r))"
| unregisters: "reactor_step r (fst (unregisterRoute m custom pattern r))"
| configures: "\<not> running r \<Longrightarrow> alive r = [] \<Longrightarrow> reactor_step r (configure cf r)"
| starts: "reactor_step r (fst (start nloops cores dw pton sock (r, h)))"
| stops: "reactor_step r (stop_request r)"
| stopped: "alive r = [] \<Longrightarrow> reactor_step r (fst (stop_finish (r, h)))"

inductive reachable :: "Reactor \<Rightarrow> bool" where
  initial: "reachable new_reactor"
| step: "reachable r \<Longrightarrow> reactor_step r r' \<Longrightarrow> reachable r'"

section \<open>Accepting\<close>

text \<open>A connection accepted and not yet admitted, and the three ways it goes on.\<close>

definition new_entry :: "nat \<Rightarrow> Reactor \<Rightarrow> Reactor" where
  "new_entry i r = r\<lparr>nextId := nextId r + 1, conns := (conns r)(nextId r := new_conn\<lparr>c_lp := i\<rparr>), alive := nextId r # alive r\<rparr>"

definition admitted :: "Env \<Rightarrow> nat \<Rightarrow> int \<Rightarrow> Reactor \<Rightarrow> Reactor" where
  "admitted env i c r = upd_loop i (\<lambda>l. l\<lparr>lp_conns := c # lp_conns l\<rparr>)
     (upd_conn c (\<lambda>k. k\<lparr>c_counted := True, c_lastActive := e_now env, c_openedAt := e_now env, h_reading := True\<rparr>)
       (r\<lparr>liveConns := liveConns r + 1\<rparr>))"

lemma onConnection_cases:
  fixes peer r i
  defines "c \<equiv> nextId r" and "ip \<equiv> (case peer of None \<Rightarrow> [] | Some p \<Rightarrow> norm_peer p)"
  defines "r1 \<equiv> upd_conn c (\<lambda>k. k\<lparr>c_clientIp := ip\<rparr>) (new_entry i r)"
  obtains "onConnection env i acceptOk peer writeOk r = uv_close c (new_entry i r)"
  | "onConnection env i acceptOk peer writeOk r = refuse_conn c writeOk r1"
  | r3 where "onConnection env i acceptOk peer writeOk r = admitted env i c r3"
      "maxConnections (cfg r) > 0 \<Longrightarrow> liveConns r < maxConnections (cfg r)"
      "r3 = r1 \<or> ip \<noteq> [] \<and> ip_count ip (ipCounts r) < maxConnectionsPerIp (cfg r) \<and>
         r3 = upd_conn c (\<lambda>k. k\<lparr>c_peerIp := ip\<rparr>) (r1\<lparr>ipCounts := AList.update ip (ip_count ip (ipCounts r1) + 1) (ipCounts r1)\<rparr>)"
proof -
  define over where "over = (draining r1 \<or> (maxConnections (cfg r1) > 0 \<and> liveConns r1 \<ge> maxConnections (cfg r1)))"
  obtain r3 ref where a: "admit_ip c ip over r1 = (r3, ref)" by fastforce
  have f: "cfg r1 = cfg r" "liveConns r1 = liveConns r" "ipCounts r1 = ipCounts r" by (simp_all add: r1_def new_entry_def)
  have e: "onConnection env i acceptOk peer writeOk r =
    (if \<not> acceptOk then uv_close c (new_entry i r) else if ref then refuse_conn c writeOk r3 else admitted env i c r3)"
    using a by (simp add: onConnection_def Let_def admitted_def over_def r1_def new_entry_def c_def ip_def)
  have "ref \<Longrightarrow> r3 = r1" "\<not> ref \<Longrightarrow> \<not> over"
    "r3 = r1 \<or> ip \<noteq> [] \<and> ip_count ip (ipCounts r) < maxConnectionsPerIp (cfg r) \<and>
       r3 = upd_conn c (\<lambda>k. k\<lparr>c_peerIp := ip\<rparr>) (r1\<lparr>ipCounts := AList.update ip (ip_count ip (ipCounts r1) + 1) (ipCounts r1)\<rparr>)"
    using a f by (auto simp: admit_ip_def split: if_splits)
  then show ?thesis using that e f by (cases acceptOk; cases ref) (auto simp: over_def)
qed


text \<open>Each invariant, for a fresh entry, an admitted one and a refused one.\<close>

lemma own_fresh: "own c (new_entry i r) \<longleftrightarrow> c \<notin> set (drainWrites r) \<and> (c = nextId r \<or> c \<in> set (alive r))"
  by (auto simp: own_def new_entry_def)

lemma new_entry_fields [simp]:
  "alive (new_entry i r) = nextId r # alive r" "nextId (new_entry i r) = nextId r + 1" "loops (new_entry i r) = loops r"
  "drainWrites (new_entry i r) = drainWrites r" "conns (new_entry i r) = (conns r)(nextId r := new_conn\<lparr>c_lp := i\<rparr>)"
  "reqLoc (new_entry i r) = reqLoc r" "cfg (new_entry i r) = cfg r" "liveConns (new_entry i r) = liveConns r"
  "ipCounts (new_entry i r) = ipCounts r" "aborted (new_entry i r) = aborted r"
  by (simp_all add: new_entry_def aborted_def)

lemma new_conn_fields [simp]:
  "\<not> h_closing new_conn" "\<not> h_reading new_conn" "h_writes new_conn = []" "c_writePending new_conn = 0" "\<not> c_counted new_conn"
  "c_peerIp new_conn = []" "c_fileFd new_conn = -1"
  by (simp_all add: new_conn_def)

lemma aborted_fields [simp]:
  "aborted (ipCounts_update f1 r) = aborted r" "aborted (liveConns_update f2 r) = aborted r" "aborted (drainWrites_update f3 r) = aborted r"
  "aborted (alive_update f4 r) = aborted r" "aborted (loops_update f5 r) = aborted r" "aborted (pending_update f6 r) = aborted r"
  "aborted (wsConnLoop_update f7 r) = aborted r"
  by (simp_all add: aborted_def)

lemma struct_fresh:
  assumes "struct_ok r"
  shows "struct_ok (new_entry i r)" "nextId r \<notin> set (drainWrites r)" "nextId r \<notin> set (alive r)"
    "j < length (loops r) \<Longrightarrow> nextId r \<notin> set (lp_conns (loops r ! j))"
proof -
  show f: "nextId r \<notin> set (alive r)" using assms by (auto simp: struct_ok_def)
  then show d: "nextId r \<notin> set (drainWrites r)" using assms by (auto simp: struct_ok_def)
  have l: "own c r" "c_lp (conns r c) = j" if "j < length (loops r)" "c \<in> set (lp_conns (loops r ! j))" for j c
    using assms that by (auto simp: struct_ok_def)
  then show n: "nextId r \<notin> set (lp_conns (loops r ! j))" if "j < length (loops r)" for j using that f unfolding own_def by blast
  have "own c (new_entry i r) \<and> c_lp (conns (new_entry i r) c) = j" if "j < length (loops r)" "c \<in> set (lp_conns (loops r ! j))" for j c
    using l [OF that] n [OF that(1)] that(2) by (auto simp: own_def)
  moreover have "\<forall>c \<in> set (nextId r # alive r). c < nextId r + 1" "set (drainWrites r) \<subseteq> set (alive r)" "distinct (alive r)" "distinct (drainWrites r)"
    using assms by (auto simp: struct_ok_def)
  ultimately show "struct_ok (new_entry i r)" using f by (auto simp: struct_ok_def)
qed

lemma struct_admitted:
  assumes "struct_ok r" "own c r" "c_lp (conns r c) = i"
  shows "struct_ok (admitted env i c r)"
proof -
  let ?r = "admitted env i c r"
  have s: "alive ?r = alive r" "nextId ?r = nextId r" "drainWrites ?r = drainWrites r" "length (loops ?r) = length (loops r)"
    "c_lp (conns ?r d) = c_lp (conns r d)" "own d ?r = own d r" for d
    by (simp_all add: admitted_def own_def)
  have "set (lp_conns (loops ?r ! j)) \<subseteq> (if j = i then {c} else {}) \<union> set (lp_conns (loops r ! j))" if "j < length (loops r)" for j
    using that by (auto simp: admitted_def upd_loop_def nth_list_update)
  then have "own d ?r \<and> c_lp (conns ?r d) = j" if "j < length (loops r)" "d \<in> set (lp_conns (loops ?r ! j))" for j d
    using that assms s by (fastforce simp: struct_ok_def split: if_splits)
  then show ?thesis using assms(1) s by (simp add: struct_ok_def)
qed


lemma writes_fresh: "writes_ok r \<Longrightarrow> writes_ok (new_entry i r)"
  by (simp add: writes_ok_def unsent_def)

lemma close_fresh: "close_ok r \<Longrightarrow> nextId r \<notin> set (drainWrites r) \<Longrightarrow> close_ok (new_entry i r)"
  by (auto simp: close_ok_def)

lemma admission_fresh:
  assumes "admission_ok r" "nextId r \<notin> set (alive r)"
  shows "admission_ok (new_entry i r)"
proof -
  have "counted_conns (new_entry i r) = counted_conns r" using assms(2) by (auto simp: counted_conns_def intro!: filter_cong)
  moreover have "conns_from ip (new_entry i r) = conns_from ip r" if "ip \<noteq> []" for ip
    using assms(2) that by (auto simp: conns_from_def intro!: filter_cong)
  ultimately show ?thesis using assms by (auto simp: admission_ok_def)
qed

lemma outstanding_unknown:
  assumes "c \<notin> known_ids r"
  shows "outstanding c r = landing (conns r c)"
proof -
  have "req_count c (reqLoc r) = 0" using assms by (force simp: known_ids_def req_count_def filter_empty_conv)
  moreover have "queued c (lp_queue l) = 0" if "l \<in> set (loops r)" for l
    using assms that by (auto simp: known_ids_def queued_def filter_empty_conv)
  ultimately show ?thesis by (simp add: outstanding_def in_queues_def)
qed

lemma turns_fresh:
  assumes "turns_ok r"
  shows "turns_ok (new_entry i r)"
proof -
  have k: "known_ids (new_entry i r) = known_ids r" by (simp add: known_ids_def)
  have n: "nextId r \<notin> known_ids r" "nextId r \<notin> set (alive r)" using turns_idD [OF assms, of "nextId r"] by auto
  have "outstanding (nextId r) (new_entry i r) = 0" using outstanding_unknown [of "nextId r" "new_entry i r"] n k by (simp add: landing_def)
  moreover have "outstanding c (new_entry i r) = outstanding c r" if "c \<noteq> nextId r" for c
    using that by (simp add: outstanding_def in_queues_def)
  ultimately have "outstanding c (new_entry i r) \<le> 1 \<and> (outstanding c (new_entry i r) = 1 \<longrightarrow> c_busy (conns (new_entry i r) c))"
    if "c \<in> set (alive (new_entry i r))" for c
    using turns_okD [OF assms, of c] that by (cases "c = nextId r") auto
  moreover have "\<forall>c \<in> set (alive (new_entry i r)) \<union> known_ids (new_entry i r). c < nextId r + 1"
    using turns_idD [OF assms] k by fastforce
  ultimately show ?thesis by (simp add: turns_ok_def)
qed

definition reactor_ok :: "Reactor \<Rightarrow> bool" where
  "reactor_ok r \<longleftrightarrow> struct_ok r \<and> writes_ok r \<and> close_ok r \<and> admission_ok r \<and> turns_ok r"

lemma reactor_ok_frame: "tracked r' = tracked r \<Longrightarrow> reactor_ok r \<Longrightarrow> reactor_ok r'"
  unfolding reactor_ok_def using str.frame wrt.frame cls.frame adm.frame trn.frame by blast

lemma reactor_ok_fresh: "reactor_ok r \<Longrightarrow> reactor_ok (new_entry i r)"
  using struct_fresh [of r] unfolding reactor_ok_def
  by (blast intro: writes_fresh close_fresh admission_fresh turns_fresh)

lemma reactor_ok_close: "reactor_ok r \<Longrightarrow> own c r \<Longrightarrow> \<not> h_closing (conns r c) \<Longrightarrow> reactor_ok (uv_close c r)"
  unfolding reactor_ok_def using str.close wrt.close cls.close adm.close trn.close by blast

lemma turns_same: "turns_ok r \<Longrightarrow> alive r' = alive r \<Longrightarrow> nextId r' = nextId r \<Longrightarrow> known_ids r' = known_ids r \<Longrightarrow>
  (\<And>c. outstanding c r' = outstanding c r) \<Longrightarrow> (\<And>c. c_busy (conns r' c) = c_busy (conns r c)) \<Longrightarrow> turns_ok r'"
  by (rule turns_mono) auto

text \<open>A refused connection is closed now, or answered 503 and closed when that is written.\<close>

lemma reactor_ok_refuse:
  assumes "reactor_ok r" "own c r" "\<not> h_closing (conns r c)" "\<not> h_reading (conns r c)" "h_writes (conns r c) = []"
    "\<And>j. j < length (loops r) \<Longrightarrow> c \<notin> set (lp_conns (loops r ! j))"
  shows "reactor_ok (refuse_conn c writeOk r)"
proof -
  define r1 where "r1 = upd_conn c (\<lambda>k. k\<lparr>c_closing := True\<rparr>) r"
  have t: "tracked r1 = tracked r" by (simp add: r1_def)
  have o: "reactor_ok r1" "own c r1" "\<not> h_closing (conns r1 c)" "\<not> h_reading (conns r1 c)" "h_writes (conns r1 c) = []" "loops r1 = loops r"
    using assms reactor_ok_frame [OF t] by (simp_all add: r1_def)
  let ?d = "r1\<lparr>drainWrites := c # drainWrites r1\<rparr>"
  have "struct_ok ?d" using o(1,2,6) assms(6) by (auto simp: reactor_ok_def struct_ok_def own_def)
  moreover have "writes_ok ?d" "close_ok ?d" "admission_ok ?d"
    using o by (auto simp: reactor_ok_def aborted_def close_ok_def intro: writes_cong [of r1] admission_cong [of r1])
  moreover have "turns_ok ?d" using o(1) by (auto simp: reactor_ok_def outstanding_def in_queues_def known_ids_def intro: turns_same [of r1])
  ultimately have "reactor_ok ?d" by (simp add: reactor_ok_def)
  then have "reactor_ok (log_effect (UvWrite c k503) ?d)" by (rule reactor_ok_frame [rotated]) simp
  then show ?thesis unfolding refuse_conn_def r1_def [symmetric] Let_def using reactor_ok_close [OF o(1-3)] by simp
qed


lemma reactor_ok_slot:
  assumes "reactor_ok r" "own c r" "c_peerIp (conns r c) = []" "ip \<noteq> []" "ip_count ip (ipCounts r) < maxConnectionsPerIp (cfg r)"
  shows "reactor_ok (upd_conn c (\<lambda>k. k\<lparr>c_peerIp := ip\<rparr>) (r\<lparr>ipCounts := AList.update ip (ip_count ip (ipCounts r) + 1) (ipCounts r)\<rparr>))"
    (is "reactor_ok ?r")
proof -
  have "admission_ok ?r" using assms by (intro take_slot_ok) (simp_all add: reactor_ok_def own_def)
  moreover have "struct_ok ?r" by (rule struct_cong [of r]) (use assms(1) in \<open>simp_all add: reactor_ok_def\<close>)
  moreover have "writes_ok ?r" by (rule writes_cong [of r]) (use assms(1) in \<open>simp_all add: reactor_ok_def\<close>)
  moreover have "close_ok ?r" by (rule close_cong [of r]) (use assms(1) in \<open>simp_all add: reactor_ok_def\<close>)
  moreover have "turns_ok ?r"
    by (rule turns_same [of r]) (use assms(1) in \<open>simp_all add: reactor_ok_def outstanding_def in_queues_def known_ids_def landing_def\<close>)
  ultimately show ?thesis by (simp add: reactor_ok_def)
qed

lemma admission_admitted:
  assumes "admission_ok r" "c \<in> set (alive r)" "\<not> c_counted (conns r c)" "maxConnections (cfg r) > 0 \<Longrightarrow> liveConns r < maxConnections (cfg r)"
  shows "admission_ok (admitted env i c r)"
proof -
  let ?r = "admitted env i c r"
  have f: "alive ?r = alive r" "cfg ?r = cfg r" "ipCounts ?r = ipCounts r" "liveConns ?r = liveConns r + 1"
    "c_counted (conns ?r d) = (d = c \<or> c_counted (conns r d))" "c_peerIp (conns ?r d) = c_peerIp (conns r d)" for d
    by (simp_all add: admitted_def)
  have "int (length (counted_conns ?r)) = int (length (counted_conns r)) + 1"
    using filter_upd [OF _ assms(2), of "\<lambda>d. c_counted (conns ?r d)" "\<lambda>d. c_counted (conns r d)"] assms(1,3) f
    by (simp add: counted_conns_def admission_ok_def)
  then show ?thesis using assms(1,4) f by (auto simp: admission_ok_def conns_from_def)
qed

lemma reactor_ok_admitted:
  assumes "reactor_ok r" "own c r" "c_lp (conns r c) = i" "\<not> h_closing (conns r c)" "\<not> c_counted (conns r c)"
    "maxConnections (cfg r) > 0 \<Longrightarrow> liveConns r < maxConnections (cfg r)"
  shows "reactor_ok (admitted env i c r)"
proof -
  let ?r = "admitted env i c r"
  have "struct_ok ?r" using assms by (simp add: reactor_ok_def struct_admitted)
  moreover have "admission_ok ?r" using assms by (auto simp: reactor_ok_def own_def intro: admission_admitted)
  moreover have "writes_ok ?r" using assms(1) unfolding reactor_ok_def by (auto simp: admitted_def intro!: writes_cong [of r])
  moreover have "close_ok ?r" using assms(1,2,4) by (auto simp: reactor_ok_def close_ok_def own_def admitted_def)
  ultimately have rest: "struct_ok ?r \<and> admission_ok ?r \<and> writes_ok ?r \<and> close_ok ?r" by blast
  have q: "in_queues d ?r = in_queues d r" for d
    by (simp add: admitted_def in_queues_loop) (simp add: in_queues_def)
  moreover have "known_ids ?r \<subseteq> known_ids r" unfolding admitted_def
    by (rule subset_trans [OF known_upd_loop [where A = "{}"]]) (auto simp: known_ids_def)
  moreover have "outstanding d ?r = outstanding d r" for d using q [of d] by (simp add: outstanding_def) (simp add: admitted_def landing_def)
  moreover have "alive ?r = alive r" "nextId ?r = nextId r" "c_busy (conns ?r d) = c_busy (conns r d)" for d by (simp_all add: admitted_def)
  ultimately have "turns_ok ?r" using assms(1) by (intro turns_mono [of r ?r]) (simp_all add: reactor_ok_def)
  then show ?thesis using rest by (simp add: reactor_ok_def)
qed

lemma accept_ok:
  assumes "reactor_ok r" "i < length (loops r)"
  shows "reactor_ok (onConnection env i acceptOk peer writeOk r)"
proof -
  let ?c = "nextId r" and ?ip = "case peer of None \<Rightarrow> [] | Some p \<Rightarrow> norm_peer p"
  define r1 where "r1 = upd_conn ?c (\<lambda>k. k\<lparr>c_clientIp := ?ip\<rparr>) (new_entry i r)"
  have s: "struct_ok r" using assms(1) by (simp add: reactor_ok_def)
  note fr = struct_fresh [OF s]
  have n: "reactor_ok (new_entry i r)" "own ?c (new_entry i r)" "\<not> h_closing (conns (new_entry i r) ?c)"
    using reactor_ok_fresh [OF assms(1)] fr by (simp_all add: own_fresh)
  have r1: "reactor_ok r1" by (rule reactor_ok_frame [OF _ n(1)]) (simp add: r1_def)
  have f: "own ?c r1" "c_lp (conns r1 ?c) = i" "\<not> h_closing (conns r1 ?c)" "\<not> h_reading (conns r1 ?c)" "h_writes (conns r1 ?c) = []"
    "\<not> c_counted (conns r1 ?c)" "c_peerIp (conns r1 ?c) = []" "cfg r1 = cfg r" "liveConns r1 = liveConns r" "ipCounts r1 = ipCounts r" "loops r1 = loops r"
    using n(2) by (simp_all add: r1_def)
  show ?thesis
  proof (rule onConnection_cases [of env i acceptOk peer writeOk r])
    assume "onConnection env i acceptOk peer writeOk r = uv_close ?c (new_entry i r)"
    then show ?thesis using reactor_ok_close [OF n] by simp
  next
    assume "onConnection env i acceptOk peer writeOk r = refuse_conn ?c writeOk (upd_conn ?c (\<lambda>k. k\<lparr>c_clientIp := ?ip\<rparr>) (new_entry i r))"
    then show ?thesis using reactor_ok_refuse [OF r1 f(1,3,4,5), of writeOk] fr(4) f(11) by (simp add: r1_def)
  next
    fix r3
    assume e: "onConnection env i acceptOk peer writeOk r = admitted env i ?c r3"
      and cap: "maxConnections (cfg r) > 0 \<Longrightarrow> liveConns r < maxConnections (cfg r)"
      and r3: "r3 = upd_conn ?c (\<lambda>k. k\<lparr>c_clientIp := ?ip\<rparr>) (new_entry i r) \<or> ?ip \<noteq> [] \<and> ip_count ?ip (ipCounts r) < maxConnectionsPerIp (cfg r) \<and>
         r3 = upd_conn ?c (\<lambda>k. k\<lparr>c_peerIp := ?ip\<rparr>) ((upd_conn ?c (\<lambda>k. k\<lparr>c_clientIp := ?ip\<rparr>) (new_entry i r))\<lparr>ipCounts :=
           AList.update ?ip (ip_count ?ip (ipCounts (upd_conn ?c (\<lambda>k. k\<lparr>c_clientIp := ?ip\<rparr>) (new_entry i r))) + 1)
             (ipCounts (upd_conn ?c (\<lambda>k. k\<lparr>c_clientIp := ?ip\<rparr>) (new_entry i r)))\<rparr>)"
    have "reactor_ok r3" using r3 r1 reactor_ok_slot [OF r1 f(1,7), of ?ip] f(8,10) unfolding r1_def [symmetric] by auto
    moreover have "own ?c r3" "c_lp (conns r3 ?c) = i" "\<not> h_closing (conns r3 ?c)" "\<not> c_counted (conns r3 ?c)" "cfg r3 = cfg r" "liveConns r3 = liveConns r"
      using r3 f unfolding r1_def [symmetric] by (auto simp: own_def)
    ultimately show ?thesis using reactor_ok_admitted [of r3 ?c i env] cap e by simp
  qed
qed


section \<open>Closing\<close>

text \<open>What the close callback of a connection leaves of the state.\<close>

lemma drop_requests_tracked: "tracked (drop_requests c r) = tracked (r\<lparr>reqLoc := filter (\<lambda>(i, loc). rl_connId loc \<noteq> c) (reqLoc r)\<rparr>)"
proof -
  have "tracked (fold (\<lambda>i. broadcastEvent kd i m) is s) = tracked s" for "is" kd m s by (induction "is" arbitrary: s) simp_all
  then show ?thesis by (simp add: drop_requests_def Let_def) (simp add: tracked_def aborted_def)
qed

lemma release_fields:
  defines "R \<equiv> releaseAdmission"
  shows "alive (R c r) = alive r" "nextId (R c r) = nextId r" "loops (R c r) = loops r" "reqLoc (R c r) = reqLoc r" "cfg (R c r) = cfg r"
    "drainWrites (R c r) = drainWrites r" "aborted (R c r) = aborted r" "d \<noteq> c \<Longrightarrow> conns (R c r) d = conns r d"
    "liveConns (R c r) = liveConns r - of_bool (c_counted (conns r c))"
    "ipCounts (R c r) = (if c_peerIp (conns r c) \<noteq> [] then ip_release (c_peerIp (conns r c)) (ipCounts r) else ipCounts r)"
  unfolding R_def releaseAdmission_def by (simp_all add: Let_def)

lemma closed_fields:
  defines "R \<equiv> onCloseConn"
  shows "alive (R c r) = removeAll c (alive r)" "nextId (R c r) = nextId r" "cfg (R c r) = cfg r" "drainWrites (R c r) = drainWrites r"
    "aborted (R c r) = aborted r" "liveConns (R c r) = liveConns r - of_bool (c_counted (conns r c))"
    "ipCounts (R c r) = (if c_peerIp (conns r c) \<noteq> [] then ip_release (c_peerIp (conns r c)) (ipCounts r) else ipCounts r)"
    "loops (R c r) = loops (upd_loop (c_lp (conns r c)) (\<lambda>l. l\<lparr>lp_conns := removeAll c (lp_conns l)\<rparr>) r)"
    "reqLoc (R c r) = reqLoc r \<or> reqLoc (R c r) = filter (\<lambda>(i, loc). rl_connId loc \<noteq> c) (reqLoc r)"
    "d \<noteq> c \<Longrightarrow> ctl (conns (R c r) d) = ctl (conns r d)"
    "h_writes (conns (R c r) e) = h_writes (conns r e)" "c_writePending (conns (R c r) e) = c_writePending (conns r e)"
    "h_reading (conns (R c r) e) = h_reading (conns r e)" "h_closing (conns (R c r) e) = h_closing (conns r e)"
proof -
  define r1 where "r1 = (if 0 \<le> c_fileFd (conns r c) then upd_conn c (\<lambda>k. k\<lparr>c_fileFd := -1\<rparr>) (log_effect (FsClose (c_fileFd (conns r c))) r) else r)"
  define r2 where "r2 = upd_loop (c_lp (conns r1 c)) (\<lambda>l. l\<lparr>lp_conns := removeAll c (lp_conns l)\<rparr>) r1"
  define r3 where "r3 = releaseAdmission c r2"
  have u: "R c r = (if c_ws (conns r3 c) then r3\<lparr>wsConnLoop := AList.delete c (wsConnLoop r3), pending := dropPayloads c (pending r3)\<rparr>
      else drop_requests c r3)\<lparr>alive := removeAll c (alive (if c_ws (conns r3 c) then r3\<lparr>wsConnLoop := AList.delete c (wsConnLoop r3), pending := dropPayloads c (pending r3)\<rparr> else drop_requests c r3))\<rparr>"
    unfolding R_def onCloseConn_def Let_def r1_def [symmetric] r2_def [symmetric] r3_def [symmetric] by simp
  have a: "alive r1 = alive r" "nextId r1 = nextId r" "loops r1 = loops r" "reqLoc r1 = reqLoc r" "cfg r1 = cfg r" "drainWrites r1 = drainWrites r"
    "aborted r1 = aborted r" "liveConns r1 = liveConns r" "ipCounts r1 = ipCounts r" "c_counted (conns r1 c) = c_counted (conns r c)"
    "c_peerIp (conns r1 c) = c_peerIp (conns r c)" "c_lp (conns r1 c) = c_lp (conns r c)" "d \<noteq> c \<Longrightarrow> conns r1 d = conns r d" for d
    by (simp_all add: r1_def) (simp_all add: log_effect_def aborted_def)
  note t = tracked_eqD [OF drop_requests_tracked [of c r3]]
  note rf = release_fields [where c = c and r = r2, folded r3_def]
  show "alive (R c r) = removeAll c (alive r)" "nextId (R c r) = nextId r" "cfg (R c r) = cfg r" "drainWrites (R c r) = drainWrites r"
    "aborted (R c r) = aborted r" "liveConns (R c r) = liveConns r - of_bool (c_counted (conns r c))"
    "ipCounts (R c r) = (if c_peerIp (conns r c) \<noteq> [] then ip_release (c_peerIp (conns r c)) (ipCounts r) else ipCounts r)"
    "reqLoc (R c r) = reqLoc r \<or> reqLoc (R c r) = filter (\<lambda>(i, loc). rl_connId loc \<noteq> c) (reqLoc r)"
    unfolding u by (simp_all add: t rf r2_def a)
  show "loops (R c r) = loops (upd_loop (c_lp (conns r c)) (\<lambda>l. l\<lparr>lp_conns := removeAll c (lp_conns l)\<rparr>) r)"
    unfolding u by (simp add: t rf) (simp add: r2_def upd_loop_def a)
  show "ctl (conns (R c r) d) = ctl (conns r d)" if "d \<noteq> c"
    unfolding u using that by (simp add: t rf) (simp add: r2_def a)
  have h: "h_writes (conns r3 e) = h_writes (conns r e)" "c_writePending (conns r3 e) = c_writePending (conns r e)"
    "h_reading (conns r3 e) = h_reading (conns r e)" "h_closing (conns r3 e) = h_closing (conns r e)"
    by (simp_all add: r3_def r2_def r1_def releaseAdmission_def Let_def)
  note k = ctl_eqD [OF t(9) [of e]]
  show "h_writes (conns (R c r) e) = h_writes (conns r e)" "c_writePending (conns (R c r) e) = c_writePending (conns r e)"
    "h_reading (conns (R c r) e) = h_reading (conns r e)" "h_closing (conns (R c r) e) = h_closing (conns r e)"
    unfolding u by (simp_all add: k h)
qed


lemma struct_closed:
  assumes "struct_ok r" "c \<notin> set (drainWrites r)"
  shows "struct_ok (onCloseConn c r)"
proof -
  let ?r = "onCloseConn c r"
  have o: "own d ?r" "c_lp (conns ?r d) = c_lp (conns r d)" if "own d r" "d \<noteq> c" for d
    using that ctl_eqD(8) [OF closed_fields(10)] by (simp_all add: own_def closed_fields)
  have "own d ?r \<and> c_lp (conns ?r d) = j" if "j < length (loops r)" "d \<in> set (lp_conns (loops ?r ! j))" for j d
  proof -
    have "d \<in> set (lp_conns (loops r ! j))" "j = c_lp (conns r c) \<Longrightarrow> d \<noteq> c"
      using that by (cases "c_lp (conns r c) = j"; auto simp: closed_fields upd_loop_def)+
    moreover then have "own d r" "c_lp (conns r d) = j" using assms(1) that(1) by (auto simp: struct_ok_def)
    ultimately show ?thesis using o by auto
  qed
  then show ?thesis using assms by (auto simp: struct_ok_def closed_fields distinct_removeAll)
qed

lemma counts_closed:
  assumes "distinct (alive r)" "c \<in> set (alive r)" "\<And>d. d \<noteq> c \<Longrightarrow> P d = Q d"
  shows "int (length (filter Q (removeAll c (alive r)))) = int (length (filter P (alive r))) - of_bool (P c)"
proof -
  have "filter Q (removeAll c (alive r)) = filter (\<lambda>d. d \<noteq> c \<and> P d) (alive r)"
    using assms(3) unfolding removeAll_filter_not_eq filter_filter by (auto intro!: filter_cong)
  then show ?thesis using filter_upd [OF assms(1,2), of "\<lambda>d. d \<noteq> c \<and> P d" P] by simp
qed

lemma admission_closed:
  assumes "admission_ok r" "c \<in> set (alive r)"
  shows "admission_ok (onCloseConn c r)"
proof -
  let ?r = "onCloseConn c r" and ?p = "c_peerIp (conns r c)"
  have d: "distinct (alive r)" using assms(1) by (simp add: admission_ok_def)
  note k = ctl_eqD [OF closed_fields(10)]
  have "int (length (counted_conns ?r)) = int (length (counted_conns r)) - of_bool (c_counted (conns r c))"
    using counts_closed [OF d assms(2), of "\<lambda>d. c_counted (conns r d)" "\<lambda>d. c_counted (conns ?r d)"] k(6) by (simp add: counted_conns_def closed_fields)
  then have live: "liveConns ?r = int (length (counted_conns ?r))" "0 < maxConnections (cfg r) \<longrightarrow> liveConns ?r \<le> maxConnections (cfg r)"
    using assms(1) by (auto simp: admission_ok_def closed_fields)
  have per: "ip_count ip (ipCounts ?r) = int (length (conns_from ip ?r)) \<and>
      (0 < maxConnectionsPerIp (cfg r) \<longrightarrow> ip_count ip (ipCounts ?r) \<le> maxConnectionsPerIp (cfg r))" if "ip \<noteq> []" for ip
  proof -
    have "int (length (conns_from ip ?r)) = int (length (conns_from ip r)) - of_bool (?p = ip)"
      using counts_closed [OF d assms(2), of "\<lambda>d. c_peerIp (conns r d) = ip" "\<lambda>d. c_peerIp (conns ?r d) = ip"] k(7) by (simp add: conns_from_def closed_fields)
    moreover have "ip_count ip (ipCounts ?r) = ip_count ip (ipCounts r) - of_bool (?p = ip)"
      using slot_of_peer [OF assms] that by (auto simp: closed_fields ip_count_release)
    moreover have "ip_count ip (ipCounts r) = int (length (conns_from ip r))"
      "0 < maxConnectionsPerIp (cfg r) \<longrightarrow> ip_count ip (ipCounts r) \<le> maxConnectionsPerIp (cfg r)" using assms(1) that by (auto simp: admission_ok_def)
    ultimately show ?thesis by auto
  qed
  have "distinct (alive ?r)" "cfg ?r = cfg r" using d by (simp_all add: closed_fields distinct_removeAll)
  then show ?thesis using live per unfolding admission_ok_def \<open>cfg ?r = cfg r\<close> by blast
qed

lemma req_count_others: "d \<noteq> c \<Longrightarrow> req_count d (filter (\<lambda>(i, loc). rl_connId loc \<noteq> c) m) = req_count d m"
  by (induction m) (auto simp: req_count_def)

lemma turns_closed:
  assumes "turns_ok r"
  shows "turns_ok (onCloseConn c r)"
proof -
  let ?r = "onCloseConn c r" and ?g = "\<lambda>l. l\<lparr>lp_conns := removeAll c (lp_conns l)\<rparr>"
  have q: "in_queues d ?r = in_queues d r" for d
    using in_queues_loop [of ?g d "c_lp (conns r c)" r] by (simp add: in_queues_def closed_fields)
  have rc: "req_count d (reqLoc ?r) = req_count d (reqLoc r)" if "d \<noteq> c" for d
    using closed_fields(9) [of c r] req_count_others [OF that] by auto
  have o: "outstanding d ?r = outstanding d r" if "d \<noteq> c" for d
    using q [of d] rc [OF that] ctl_eqD [OF closed_fields(10) [OF that]] by (simp add: outstanding_def landing_def)
  have "known_ids ?r \<subseteq> known_ids (upd_loop (c_lp (conns r c)) ?g r)"
  proof -
    have "set (reqLoc ?r) \<subseteq> set (reqLoc r)" using closed_fields(9) [of c r] by auto
    then have "rl_connId ` snd ` set (reqLoc ?r) \<subseteq> rl_connId ` snd ` set (reqLoc r)" by (intro image_mono)
    then show ?thesis unfolding known_ids_def by (simp add: closed_fields) blast
  qed
  then have "known_ids ?r \<subseteq> known_ids r" using known_upd_loop [of ?g "{}" "c_lp (conns r c)" r] by auto
  then show ?thesis using turns_okD [OF assms] turns_idD [OF assms] o ctl_eqD(5) [OF closed_fields(10)]
    unfolding turns_ok_def by (auto simp: closed_fields)
qed

lemma closed_ok:
  assumes "reactor_ok r" "c \<in> set (alive r)" "h_closing (conns r c)"
  shows "reactor_ok (onCloseConn c r)"
proof -
  have r: "struct_ok r" "writes_ok r" "close_ok r" "admission_ok r" "turns_ok r" using assms(1) by (simp_all add: reactor_ok_def)
  have d: "c \<notin> set (drainWrites r)" using r(3) assms(3) by (auto simp: close_ok_def)
  have "writes_ok (onCloseConn c r)" by (rule writes_cong [OF r(2)]) (simp_all add: closed_fields)
  moreover have "close_ok (onCloseConn c r)" by (rule close_cong [OF r(3)]) (simp_all add: closed_fields)
  ultimately show ?thesis using struct_closed [OF r(1) d] admission_closed [OF r(4) assms(2)] turns_closed [OF r(5)] by (simp add: reactor_ok_def)
qed


lemma drained_ok:
  assumes "reactor_ok r" "c \<in> set (drainWrites r)"
  shows "reactor_ok (onDrainWrite c r)"
proof -
  let ?r = "r\<lparr>drainWrites := remove1 c (drainWrites r)\<rparr>"
  have r: "struct_ok r" "writes_ok r" "close_ok r" "admission_ok r" "turns_ok r" using assms(1) by (simp_all add: reactor_ok_def)
  have d: "distinct (drainWrites r)" "c \<in> set (alive r)" "set (remove1 c (drainWrites r)) = set (drainWrites r) - {c}"
    using r(1) assms(2) by (auto simp: struct_ok_def)
  have "struct_ok ?r" using r(1) d by (auto simp: struct_ok_def own_def distinct_remove1)
  moreover have "close_ok ?r" using r(3) d by (auto simp: close_ok_def)
  moreover have "writes_ok ?r" by (rule writes_cong [OF r(2)]) simp_all
  moreover have "admission_ok ?r" by (rule admission_cong [OF r(4)]) simp_all
  moreover have "turns_ok ?r" by (rule turns_same [OF r(5)]) (simp_all add: outstanding_def in_queues_def known_ids_def)
  ultimately have "reactor_ok ?r" by (simp add: reactor_ok_def)
  then show ?thesis unfolding onDrainWrite_def
    by (rule reactor_ok_close) (use d r(3) assms(2) in \<open>auto simp: own_def close_ok_def\<close>)
qed

section \<open>Starting and stopping\<close>

text \<open>What the lifecycle calls leave alone.\<close>

definition lifecycle :: "Reactor \<Rightarrow> Reactor" where
  "lifecycle r = r\<lparr>running := False, bound_port := 0, reservedPort := 0, dispatchWidth := 0, ctlEnabled := False, cfg := (cfg r)\<lparr>port := 0\<rparr>\<rparr>"

lemma lifecycle_ok: "lifecycle r' = lifecycle r \<Longrightarrow> reactor_ok r \<Longrightarrow> reactor_ok r'"
proof -
  assume e: "lifecycle r' = lifecycle r" and r: "reactor_ok r"
  have c: "maxConnections (cfg (lifecycle x)) = maxConnections (cfg x)" "maxConnectionsPerIp (cfg (lifecycle x)) = maxConnectionsPerIp (cfg x)" for x
    by (simp_all add: lifecycle_def)
  have f: "alive (lifecycle x) = alive x" "nextId (lifecycle x) = nextId x" "loops (lifecycle x) = loops x" "reqLoc (lifecycle x) = reqLoc x"
    "drainWrites (lifecycle x) = drainWrites x" "conns (lifecycle x) = conns x" "aborted (lifecycle x) = aborted x"
    "liveConns (lifecycle x) = liveConns x" "ipCounts (lifecycle x) = ipCounts x" for x by (simp_all add: lifecycle_def aborted_def)
  have s: "struct_ok (lifecycle x) = struct_ok x" "writes_ok (lifecycle x) = writes_ok x" "close_ok (lifecycle x) = close_ok x"
    "admission_ok (lifecycle x) = admission_ok x" "turns_ok (lifecycle x) = turns_ok x" for x
    unfolding struct_ok_def writes_ok_def close_ok_def admission_ok_def turns_ok_def own_def outstanding_def in_queues_def known_ids_def
      counted_conns_def conns_from_def c f by (rule refl)+
  from r have "reactor_ok (lifecycle r)" by (simp add: reactor_ok_def s)
  then have "reactor_ok (lifecycle r')" by (simp add: e)
  then show ?thesis by (simp add: reactor_ok_def s)
qed

lemma release_port_frame: "lifecycle (fst (release_port x)) = lifecycle (fst x)"
  by (auto simp: release_port_def lifecycle_def split: prod.splits)

lemma pin_port_frame: "lifecycle (fst (pin_port bp x)) = lifecycle (fst x)"
  by (auto simp: pin_port_def lifecycle_def Let_def split: prod.splits)

lemma fail_frame: "lifecycle (fst (releaseAndFail fds m x)) = lifecycle (fst x)"
  using release_port_frame [of x] by (auto simp: releaseAndFail_def lifecycle_def split: prod.splits)

lemma bind_frame:
  "case bind_sockets pton sock i n fds x of Inl y \<Rightarrow> lifecycle (fst y) = lifecycle (fst x) | Inr y \<Rightarrow> lifecycle (fst y) = lifecycle (fst x)"
proof (induction pton sock i n fds x rule: bind_sockets.induct)
  case (2 pton sock i n fds x)
  have p: "lifecycle (fst (if i = 0 then pin_port bp x else x)) = lifecycle (fst x)" for bp by (simp add: pin_port_frame)
  show ?case
  proof (cases "uvBuildAddr pton (host (cfg (fst x))) (port (cfg (fst x)))")
    case (Some a)
    show ?thesis
    proof (cases "sock i")
      case (Listening bp)
      obtain r h where e: "(if i = 0 then pin_port bp x else x) = (r, h)" by fastforce
      then show ?thesis using 2 [OF Some Listening e [symmetric]] p [of bp] Some Listening
        by (auto split: sum.splits)
    qed (use Some p in \<open>simp_all add: fail_frame\<close>)
  qed (simp add: fail_frame)
qed simp


lemma grow_ok:
  assumes "reactor_ok r"
  shows "reactor_ok (r\<lparr>loops := loops r @ replicate n new_loop\<rparr>)" (is "reactor_ok ?r")
proof -
  have r: "struct_ok r" "writes_ok r" "close_ok r" "admission_ok r" "turns_ok r" using assms by (simp_all add: reactor_ok_def)
  have "struct_ok ?r" using r(1) by (auto simp: struct_ok_def own_def nth_append new_loop_def)
  moreover have "writes_ok ?r" by (rule writes_cong [OF r(2)]) simp_all
  moreover have "close_ok ?r" by (rule close_cong [OF r(3)]) simp_all
  moreover have "admission_ok ?r" by (rule admission_cong [OF r(4)]) simp_all
  moreover have "turns_ok ?r"
    by (rule turns_same [OF r(5)])
      (auto simp: outstanding_def in_queues_def known_ids_def sum_list_replicate queued_def new_loop_def)
  ultimately show ?thesis by (simp add: reactor_ok_def)
qed

lemma start_ok:
  assumes "reactor_ok r"
  shows "reactor_ok (fst (start nloops cores dw pton sock (r, h)))"
proof (cases "running r")
  case False
  define n p where "n = nat (loop_count nloops cores (cfg r))" and "p = port (cfg r)"
  define r1 where "r1 = (start_dispatch dw (r\<lparr>running := True\<rparr>))\<lparr>bound_port := p\<rparr>"
  have r1: "lifecycle r1 = lifecycle r" by (simp add: r1_def start_dispatch_def lifecycle_def split: option.splits)
  have off: "lifecycle (r1\<lparr>running := False\<rparr>) = lifecycle r1" by (simp add: lifecycle_def)
  define y where "y = (if p \<noteq> 0 then (r1\<lparr>reservedPort := p\<rparr>, h\<lparr>boundPorts := List.insert p (boundPorts h)\<rparr>) else (r1, h))"
  have y: "lifecycle (fst y) = lifecycle r" using r1 by (simp add: y_def) (simp add: lifecycle_def)
  have b: "case bind_sockets pton sock 0 n [] y of Inl z \<Rightarrow> lifecycle (fst z) = lifecycle r | Inr z \<Rightarrow> lifecycle (fst z) = lifecycle r"
    using bind_frame [where x = y and i = 0 and n = n and fds = "[]" and pton = pton and sock = sock] unfolding y .
  have u: "start nloops cores dw pton sock (r, h) =
    (if p \<noteq> 0 \<and> p \<in> set (boundPorts h) then (r1\<lparr>running := False\<rparr>, h, \<lparr>kind = BindFailed, message = ''port already in use'', boundPort = 0\<rparr>)
     else case bind_sockets pton sock 0 n [] y of Inl failure \<Rightarrow> failure
       | Inr (r2, h2) \<Rightarrow> (r2\<lparr>loops := loops r2 @ replicate n new_loop\<rparr>, h2, status_ok\<lparr>boundPort := bound_port r2\<rparr>))"
    using False unfolding start_def prod.case Let_def n_def [symmetric] p_def [symmetric] r1_def [symmetric] y_def [symmetric] by simp
  show ?thesis
  proof (cases "p \<noteq> 0 \<and> p \<in> set (boundPorts h)")
    case True
    then show ?thesis using u off r1 lifecycle_ok [OF _ assms] by simp
  next
    case False
    show ?thesis
    proof (cases "bind_sockets pton sock 0 n [] y")
      case (Inl z)
      then show ?thesis unfolding u using False b lifecycle_ok [OF _ assms] by auto
    next
      case (Inr z)
      then have "reactor_ok (fst z)" using b lifecycle_ok [OF _ assms] by simp
      then show ?thesis unfolding u using False Inr grow_ok [of "fst z" n] by (auto split: prod.splits)
    qed
  qed
qed (use assms in \<open>simp add: start_def\<close>)

lemma stop_request_ok: "reactor_ok r \<Longrightarrow> reactor_ok (stop_request r)"
proof -
  assume r: "reactor_ok r"
  let ?f = "\<lambda>i r. log_effect (UvAsyncSend i) (upd_loop i (\<lambda>l. l\<lparr>lp_stopping := True\<rparr>) r)"
  have one: "reactor_ok (?f i s)" if "reactor_ok s" for i s
    using that str.loop_flags [of s] wrt.loop_flags [of s] cls.loop_flags [of s] adm.loop_flags [of s] trn.loop_flags [of s]
    by (intro reactor_ok_frame [of "?f i s" "upd_loop i (\<lambda>l. l\<lparr>lp_stopping := True\<rparr>) s"]) (simp_all add: reactor_ok_def)
  have many: "reactor_ok (fold ?f is s)" if "reactor_ok s" for "is" s
    using that by (induction "is" arbitrary: s) (use one in auto)
  have "reactor_ok (r\<lparr>running := False\<rparr>)" by (rule reactor_ok_frame [OF _ r]) simp
  then show ?thesis using r many by (simp add: stop_request_def)
qed

lemma stop_finish_ok:
  assumes "reactor_ok r" "alive r = []"
  shows "reactor_ok (fst (stop_finish (r, h)))"
proof -
  obtain r1 h1 where e: "release_port (r, h) = (r1, h1)" by fastforce
  then have l: "lifecycle r1 = lifecycle r" using release_port_frame [of "(r, h)"] by simp
  have r1: "reactor_ok r1" by (rule lifecycle_ok [OF l assms(1)])
  have a: "alive r1 = []" using arg_cong [OF l, of alive] assms(2) by (simp add: lifecycle_def)
  let ?r = "r1\<lparr>loops := [], pending := abortAll (pending r1)\<rparr>"
  have r: "struct_ok r1" "writes_ok r1" "close_ok r1" "admission_ok r1" "turns_ok r1" using r1 by (simp_all add: reactor_ok_def)
  have "struct_ok ?r" using r(1) a by (simp add: struct_ok_def)
  moreover have "writes_ok ?r" by (rule writes_cong [OF r(2)]) simp_all
  moreover have "close_ok ?r" by (rule close_cong [OF r(3)]) simp_all
  moreover have "admission_ok ?r" by (rule admission_cong [OF r(4)]) simp_all
  moreover have "turns_ok ?r" using r(5) a by (auto simp: turns_ok_def known_ids_def)
  ultimately show ?thesis using e by (simp add: stop_finish_def reactor_ok_def)
qed

lemma configure_ok:
  assumes "reactor_ok r" "alive r = []"
  shows "reactor_ok (configure cf r)"
proof -
  have r: "struct_ok r" "writes_ok r" "close_ok r" "admission_ok r" "turns_ok r" using assms(1) by (simp_all add: reactor_ok_def)
  have "admission_ok (configure cf r)" using r(4) assms(2) by (auto simp: admission_ok_def configure_def counted_conns_def conns_from_def)
  moreover have "struct_ok (configure cf r)" by (rule struct_cong [OF r(1)]) (simp_all add: configure_def)
  moreover have "writes_ok (configure cf r)" by (rule writes_cong [OF r(2)]) (simp_all add: configure_def)
  moreover have "close_ok (configure cf r)" by (rule close_cong [OF r(3)]) (simp_all add: configure_def aborted_def)
  moreover have "turns_ok (configure cf r)" by (rule turns_same [OF r(5)]) (simp_all add: configure_def outstanding_def in_queues_def known_ids_def)
  ultimately show ?thesis by (simp add: reactor_ok_def)
qed


section \<open>Every step keeps the invariants\<close>

lemma step_ok:
  assumes "reactor_step r r'" "reactor_ok r"
  shows "reactor_ok r'"
proof -
  have r: "struct_ok r" "writes_ok r" "close_ok r" "admission_ok r" "turns_ok r" using assms(2) by (simp_all add: reactor_ok_def)
  have own: "own c r" if "c \<in> set (alive r)" "h_reading (conns r c) \<or> h_writes (conns r c) \<noteq> []" for c
    using that r(3) by (auto simp: own_def close_ok_def)
  have nc: "\<not> h_closing (conns r c)" if "h_reading (conns r c)" for c using that r(3) by (simp add: close_ok_def)
  note lo = struct_own [OF r(1)]
  show ?thesis using assms(1)
  proof (cases rule: reactor_step.cases)
    case (accept i env acceptOk peer writeOk)
    then show ?thesis using accept_ok [OF assms(2)] by simp
  next
    case (reads c env data)
    then have o: "own c r" "\<not> h_closing (conns r c)" using own nc by auto
    show ?thesis unfolding reads(1) reactor_ok_def
      by (intro conjI str.read_inv wrt.read_inv cls.read_inv adm.read_inv trn.read_inv r o)
  next
    case (eof c env)
    then have o: "own c r" "\<not> h_closing (conns r c)" using own nc by auto
    show ?thesis unfolding eof(1) reactor_ok_def by (intro conjI str.eof_inv wrt.eof_inv cls.eof_inv adm.eof_inv trn.eof_inv r o)
  next
    case (written c status env)
    then have o: "own c r" "h_closing (conns r c) \<Longrightarrow> status < 0" using own by auto
    show ?thesis unfolding written(1) reactor_ok_def
      by (intro conjI str.on_write_inv wrt.on_write_inv cls.on_write_inv adm.on_write_inv trn.on_write_inv r o)
  next
    case (drained c)
    then show ?thesis using drained_ok [OF assms(2)] by simp
  next
    case (closed c)
    then show ?thesis using closed_ok [OF assms(2)] by simp
  next
    case (woken i env)
    show ?thesis unfolding woken(1) reactor_ok_def
      by (intro conjI str.async_inv wrt.async_inv cls.async_inv adm.async_inv trn.async_inv r woken(2) lo [OF woken(2)])
  next
    case (swept i env faster)
    show ?thesis unfolding swept(1) reactor_ok_def
      by (intro conjI str.sweep_inv wrt.sweep_inv cls.sweep_inv adm.sweep_inv trn.sweep_inv r lo [OF swept(2)])
  next
    case (responds env q status headers body n)
    show ?thesis unfolding responds reactor_ok_def
      by (intro conjI str.respond_inv wrt.respond_inv cls.respond_inv adm.respond_inv trn.respond_inv r)
  next
    case (responds_file env fopen fstat q status headers path offset len)
    show ?thesis unfolding responds_file reactor_ok_def
      by (intro conjI str.respond_file_inv wrt.respond_file_inv cls.respond_file_inv adm.respond_file_inv trn.respond_file_inv r)
  next
    case (streams env q status headers)
    show ?thesis unfolding streams reactor_ok_def
      by (intro conjI str.start_stream_inv wrt.start_stream_inv cls.start_stream_inv adm.start_stream_inv trn.start_stream_inv r)
  next
    case (sends_chunk q chunk isLast)
    show ?thesis unfolding sends_chunk reactor_ok_def
      by (intro conjI str.send_chunk_inv wrt.send_chunk_inv cls.send_chunk_inv adm.send_chunk_inv trn.send_chunk_inv r)
  next
    case (ws_sends c payload bin cmp)
    show ?thesis unfolding ws_sends reactor_ok_def
      by (intro conjI str.ws_send_inv wrt.ws_send_inv cls.ws_send_inv adm.ws_send_inv trn.ws_send_inv r)
  next
    case (ws_closes c code)
    show ?thesis unfolding ws_closes reactor_ok_def
      by (intro conjI str.ws_close_inv wrt.ws_close_inv cls.ws_close_inv adm.ws_close_inv trn.ws_close_inv r)
  next
    case (configures cf)
    then show ?thesis using configure_ok [OF assms(2)] by simp
  next
    case (starts nloops cores dw pton sock h)
    then show ?thesis using start_ok [OF assms(2)] by simp
  next
    case stops
    then show ?thesis using stop_request_ok [OF assms(2)] by simp
  next
    case (stopped h)
    then show ?thesis using stop_finish_ok [OF assms(2)] by simp
  qed (rule reactor_ok_frame [OF _ assms(2)]; simp add: ackBody_def beginDrain_def addEmitter_def removeEmitter_def Let_def
      registerRouteEntry_def unregisterRoute_def split: prod.splits)+
qed

lemma initial_ok: "reactor_ok new_reactor"
  by (simp add: reactor_ok_def struct_ok_def writes_ok_def unsent_def close_ok_def admission_ok_def turns_ok_def
      counted_conns_def conns_from_def known_ids_def ip_count_def aborted_def new_reactor_def default_config_def)

lemma reachable_ok: "reachable r \<Longrightarrow> reactor_ok r"
  by (induction rule: reachable.induct) (auto intro: initial_ok step_ok)


section \<open>A run\<close>

text \<open>
  A server with one loop, one handler route and caps on connections accepts a client, which sends two
  pipelined requests in one packet; the first is dispatched and answered by its handler.
\<close>

definition demo_env :: Env where
  "demo_env = \<lparr>e_now = 0, e_time = 0, e_malloc = (\<lambda>_. True), e_pton = (\<lambda>_ _. True), e_ntop = (\<lambda>_ _. None), e_read = (\<lambda>_ _ _. None)\<rparr>"

definition demo_routed :: Reactor where
  "demo_routed = fst (registerRouteEntry (default_route\<lparr>re_method := Get, re_pattern := ''/''\<rparr>)
     (configure (default_config\<lparr>maxConnections := 2, maxConnectionsPerIp := 1\<rparr>) new_reactor))"

definition demo_up :: Reactor where
  "demo_up = fst (start 1 1 None (\<lambda>_ _. True) (\<lambda>_. Listening 8080) (demo_routed, \<lparr>boundPorts = [], openSocks = []\<rparr>))"

definition demo_client :: Reactor where
  "demo_client = onConnection demo_env 0 True (Some ''10.0.0.1'') True demo_up"

definition demo_get :: string where
  "demo_get = ''GET / HTTP/1.1'' @ crlf @ ''Host: a'' @ crlf @ crlf"

definition demo_pipelined :: Reactor where
  "demo_pipelined = readCb demo_env 1 (demo_get @ demo_get) demo_client"

lemma demo_up_reachable: "reachable demo_up"
proof -
  have "reachable demo_routed" unfolding demo_routed_def
    by (rule reachable.step [OF reachable.step [OF reachable.initial configures] registers]) (simp_all add: new_reactor_def)
  then show ?thesis unfolding demo_up_def by (rule reachable.step [OF _ starts])
qed

lemma demo_client_reachable: "reachable demo_client"
proof -
  have "0 < length (loops demo_up) \<and> \<not> lp_serverClosing (loops demo_up ! 0)" by code_simp
  then show ?thesis unfolding demo_client_def by (auto intro: reachable.step [OF demo_up_reachable accept])
qed

lemma demo_pipelined_reachable: "reachable demo_pipelined"
proof -
  have "1 \<in> set (alive demo_client) \<and> h_reading (conns demo_client 1)" by code_simp
  then show ?thesis unfolding demo_pipelined_def by (auto intro: reachable.step [OF demo_client_reachable reads])
qed

lemma demo_eval: "outstanding 1 demo_pipelined = 1 \<and> alive demo_pipelined = [1] \<and> c_buf (conns demo_pipelined 1) = demo_get \<and> liveConns demo_pipelined = 1"
  by code_simp


section \<open>Properties\<close>



text \<open>
  C8: no reachable state has closed a handle twice: the call that makes libuv abort the process never
  happens, whatever the order of reads, landed writes, wake-ups, sweeps, drains and answers.
\<close>

theorem handles_closed_once:
  assumes "reachable r"
  shows "UvAbort c \<notin> set (effects r)"
  using reachable_ok [OF assms] by (auto simp: reactor_ok_def close_ok_def aborted_def list_ex_iff)

theorem handles_closed_once_witness: "UvAbort 1 \<notin> set (effects demo_pipelined)"
  by (rule handles_closed_once [OF demo_pipelined_reachable])

text \<open>
  C11: \<open>writePending\<close>, which the write timeout and the buffer limits rest on, is always the exact number
  of bytes handed to the socket whose write has not completed; it never goes negative.
\<close>

theorem write_pending_exact:
  assumes "reachable r"
  shows "c_writePending (conns r c) = int (sum_list (map (\<lambda>w. length (wc_payload w)) (h_writes (conns r c))))"
  using reachable_ok [OF assms] by (simp add: reactor_ok_def writes_ok_def unsent_def)

theorem write_pending_exact_witness:
  "c_writePending (conns demo_pipelined 1) = int (sum_list (map (\<lambda>w. length (wc_payload w)) (h_writes (conns demo_pipelined 1))))"
  by (rule write_pending_exact [OF demo_pipelined_reachable])



end
