(* ===== verification/ReactorProps.thy ===== *)
theory ReactorProps
  imports ReactorInv "HOL-Library.Multiset"
begin

text \<open>
  Functional properties of single operations of the reactor: a request is answered once, a start that
  fails leaves nothing behind, a stop closes every connection, the dispatch deals requests evenly, and
  one call of the request loop takes at most one request.
\<close>

section \<open>Answers\<close>

lemma not_in_table:
  assumes "map_of (reqLoc r) i = None"
  shows "respond env i status headers body n r = r" "startStream env i status headers r = r" "sendStreamChunk i chunk isLast r = r"
    "\<exists>fx. length fx \<le> 1 \<and> (\<forall>e \<in> set fx. \<exists>fd. e = FsClose fd) \<and>
       respondFile env fopen fstat i status headers path offset len r = r\<lparr>effects := effects r @ fx\<rparr>"
proof -
  have l: "lookupReq i er s = (s, None)" if "reqLoc s = reqLoc r" for er s using assms that by (simp add: lookupReq_def)
  show "respond env i status headers body n r = r" "startStream env i status headers r = r" "sendStreamChunk i chunk isLast r = r"
    by (simp_all add: respond_def startStream_def sendStreamChunk_def l)
  have f: "respond env i status headers body n (log_effect (FsClose fd) r) = log_effect (FsClose fd) r" for env status headers body n fd
    by (simp add: respond_def l log_effect_def)
  have g: "respond env i status headers body n r = r" for env status headers body n by (simp add: respond_def l)
  have w: "\<exists>fx. length fx \<le> 1 \<and> (\<forall>e \<in> set fx. \<exists>fd. e = FsClose fd) \<and> s = r\<lparr>effects := effects r @ fx\<rparr>"
    if "s = r \<or> s = log_effect (FsClose fd) r" for s fd
    using that by (auto simp: log_effect_def intro: exI [of _ "[]"] exI [of _ "[FsClose fd]"])
  show "\<exists>fx. length fx \<le> 1 \<and> (\<forall>e \<in> set fx. \<exists>fd. e = FsClose fd) \<and>
       respondFile env fopen fstat i status headers path offset len r = r\<lparr>effects := effects r @ fx\<rparr>"
    by (rule w [of _ "fopen (c_str path)"]) (simp add: respondFile_def respond_not_found_def Let_def l f g split: option.splits)
qed

lemma table_after:
  assumes "running r"
  shows "map_of (reqLoc (respond env i status headers body n r)) i = None" "map_of (reqLoc (sendStreamChunk i chunk True r)) i = None"
    "map_of (reqLoc (respondFile env fopen fstat i status headers path offset len r)) i = None"
proof -
  have k: "reqLoc (push_queue j p s) = reqLoc s" "reqLoc (log_effect e s) = reqLoc s" "running (log_effect e s) = running s" for j p s e
    by (simp_all add: push_queue_def upd_loop_def log_effect_def)
  have e: "map_of (reqLoc (fst (lookupReq i True s))) i = None" for s by (simp add: lookupReq_def delete_conv' split: option.splits)
  have r: "map_of (reqLoc (respond env i status headers body n s)) i = None" if "running s" for env status headers body n s
    using that e [of s] by (auto simp: respond_def Let_def pushWrite_def k split: prod.splits option.splits)
  then show "map_of (reqLoc (respond env i status headers body n r)) i = None" using assms by simp
  show "map_of (reqLoc (sendStreamChunk i chunk True r)) i = None"
    using assms e [of r] by (auto simp: sendStreamChunk_def Let_def pushWrite_def k lookupReq_def split: prod.splits option.splits)
  show "map_of (reqLoc (respondFile env fopen fstat i status headers path offset len r)) i = None"
    using assms e [of r] by (auto simp: respondFile_def respond_not_found_def Let_def r k lookupReq_def split: prod.splits option.splits)
qed

text \<open>
  C21: a request is answered once. After \<open>respond\<close>, \<open>respondFile\<close> or the last chunk of a stream its id is
  gone, and any later answer for it changes nothing (a file opened for it is closed again).
\<close>

theorem answered_once:
  assumes "running r"
    "r' = respond env i status headers body n r \<or> r' = sendStreamChunk i chunk True r \<or>
     r' = respondFile env fopen fstat i status headers path offset len r"
  shows "respond env2 i status2 headers2 body2 n2 r' = r' \<and> startStream env2 i status2 headers2 r' = r' \<and>
    sendStreamChunk i chunk2 isLast2 r' = r' \<and>
    (\<exists>fx. length fx \<le> 1 \<and> (\<forall>e \<in> set fx. \<exists>fd. e = FsClose fd) \<and>
       respondFile env2 fopen2 fstat2 i status2 headers2 path2 offset2 len2 r' = r'\<lparr>effects := effects r' @ fx\<rparr>)"
proof -
  have "map_of (reqLoc r') i = None" using assms(2) table_after [OF assms(1)] by auto
  from not_in_table [OF this] show ?thesis by blast
qed

section \<open>Turns\<close>

text \<open>
  C31: the request loop ends after at most one turn: \<open>processConn\<close> is one pass of the loop body, since
  every branch that continues has started an answer and left the connection busy.
\<close>

theorem processConn_one_turn:
  "processConn env c r =
     (if c_streamingBody (conns r c) \<or> c_busy (conns r c) \<or> c_closing (conns r c) then r else fst (process_turn env c r))"
  by (simp add: processConn_def process_loop_once)

section \<open>Dealing requests\<close>

fun deals :: "nat \<Rightarrow> Reactor \<Rightarrow> nat option list" where
  "deals 0 r = []"
| "deals (Suc n) r = (case nextEmitter r of (r', e) \<Rightarrow> e # deals n r')"

definition dealt_width :: "Reactor \<Rightarrow> nat" where
  "dealt_width r = (if dispatchWidth r = 0 \<or> dispatchWidth r > length (emitters r) then length (emitters r) else dispatchWidth r)"

lemma deals_nth:
  assumes "emitters r \<noteq> []" "unat (emitterRr r) + n \<le> 2 ^ 64"
  shows "deals n r = map (\<lambda>k. Some (emitters r ! (length (emitters r) - dealt_width r + (unat (emitterRr r) + k) mod dealt_width r))) [0..<n]"
  using assms
proof (induction n arbitrary: r)
  case (Suc n)
  let ?r = "r\<lparr>emitterRr := emitterRr r + 1\<rparr>"
  have e: "nextEmitter r = (?r, Some (emitters r ! (length (emitters r) - dealt_width r + unat (emitterRr r) mod dealt_width r)))"
    using Suc.prems(1) by (simp add: nextEmitter_def dealt_width_def Let_def)
  show ?case
  proof (cases n)
    case 0
    then show ?thesis using e by simp
  next
    case (Suc m)
    have "unat (emitterRr r) + 1 < 2 ^ 64" using Suc.prems(2) Suc by simp
    then have "unat (emitterRr ?r) = unat (emitterRr r) + 1" by (simp add: unat_word_ariths)
    moreover have "dealt_width ?r = dealt_width r" by (simp add: dealt_width_def)
    ultimately show ?thesis using Suc.IH [of ?r] Suc.prems e by (simp add: upt_conv_Cons map_Suc_upt [symmetric] del: upt_Suc)
  qed
qed simp


lemma mod_window: "0 < w \<Longrightarrow> image_mset (\<lambda>k. (a + k) mod w) (mset_set {0..<w}) = mset_set {0..<w :: nat}"
proof -
  assume w: "0 < w"
  have eq: "x = y" if "x \<le> y" "y < w" "(a + x) mod w = (a + y) mod w" for x y
  proof -
    have "w dvd (a + y) - (a + x)" using that mod_eq_dvd_iff_nat [of "a + x" "a + y" w] by simp
    then show ?thesis using that by (auto dest: dvd_imp_le)
  qed
  have inj: "inj_on (\<lambda>k. (a + k) mod w) {0..<w}"
    by (rule inj_onI) (metis atLeastLessThan_iff eq nat_le_linear)
  have "(\<lambda>k. (a + k) mod w) ` {0..<w} = {0..<w}"
    using w by (intro card_subset_eq) (auto simp: card_image [OF inj])
  then show ?thesis using image_mset_mset_set [OF inj] by simp
qed


text \<open>
  C39: requests are dealt evenly. Of any \<open>w\<close> consecutive dispatches, with \<open>w\<close> the dispatch width (all
  sinks for 0 or a width above their number), each of the last \<open>w\<close> sinks gets exactly one.
\<close>

theorem dispatch_deals_evenly:
  assumes "emitters r \<noteq> []" "unat (emitterRr r) + dealt_width r \<le> 2 ^ 64"
  shows "mset (deals (dealt_width r) r) = mset (map Some (drop (length (emitters r) - dealt_width r) (emitters r)))"
proof -
  let ?n = "length (emitters r)" and ?w = "dealt_width r"
  have w: "0 < ?w" "?w \<le> ?n" using assms(1) by (auto simp: dealt_width_def)
  have "mset (deals ?w r) = image_mset (\<lambda>j. Some (emitters r ! (?n - ?w + j))) (image_mset (\<lambda>k. (unat (emitterRr r) + k) mod ?w) (mset_set {0..<?w}))"
    by (simp add: deals_nth [OF assms] multiset.map_comp comp_def)
  also have "\<dots> = mset (map (\<lambda>j. Some (emitters r ! (?n - ?w + j))) [0..<?w])" by (simp add: mod_window [OF w(1)])
  also have "map (\<lambda>j. Some (emitters r ! (?n - ?w + j))) [0..<?w] = map Some (drop (?n - ?w) (emitters r))"
    using w by (intro nth_equalityI) auto
  finally show ?thesis .
qed

section \<open>Starting\<close>

lemma bind_failure:
  assumes "bind_sockets pton sock i n fds x = Inl (r', h', st)" "set (openSocks (snd x)) = set fds" "reservedPort (fst x) = q"
    "boundPorts (snd x) = (if q \<noteq> 0 then q # ports else ports)" "q \<noteq> 0 \<longrightarrow> q \<notin> set ports"
    "\<And>bp. i = 0 \<Longrightarrow> q = 0 \<Longrightarrow> sock 0 = NoListen bp \<or> sock 0 = Listening bp \<Longrightarrow> bp \<noteq> 0 \<and> bp \<notin> set ports"
  shows "\<not> running r' \<and> reservedPort r' = 0 \<and> openSocks h' = [] \<and> boundPorts h' = ports \<and> kind st = BindFailed \<and> loops r' = loops (fst x)"
  using assms
proof (induction pton sock i n fds x arbitrary: q rule: bind_sockets.induct)
  case (2 pton sock i n fds x)
  have fail: "releaseAndFail fds m y = (r', h', st) \<Longrightarrow> set (openSocks (snd y)) = set fds \<Longrightarrow> reservedPort (fst y) = q' \<Longrightarrow>
      boundPorts (snd y) = (if q' \<noteq> 0 then q' # ports else ports) \<Longrightarrow> (q' \<noteq> 0 \<longrightarrow> q' \<notin> set ports) \<Longrightarrow> loops (fst y) = loops (fst x) \<Longrightarrow> ?case" for m y q'
    by (cases y) (auto simp: releaseAndFail_def release_port_def filter_empty_conv removeAll_id split: if_splits)
  let ?pin = "\<lambda>bp. if i = 0 then pin_port bp x else x"
  define q' where "q' bp = (if i = 0 \<and> q = 0 then bp else q)" for bp
  have pin: "set (openSocks (snd (?pin bp))) = set fds" "reservedPort (fst (?pin bp)) = q' bp"
      "boundPorts (snd (?pin bp)) = (if q' bp \<noteq> 0 then q' bp # ports else ports)" "q' bp \<noteq> 0 \<longrightarrow> q' bp \<notin> set ports" "loops (fst (?pin bp)) = loops (fst x)"
    if "sock i = NoListen bp \<or> sock i = Listening bp" for bp
    using 2(3-6) 2(7) [of bp] that by (cases x; auto simp: pin_port_def q'_def Let_def)+
  show ?case
  proof (cases "uvBuildAddr pton (host (cfg (fst x))) (port (cfg (fst x)))")
    case None
    then show ?thesis using 2(2) fail [OF _ 2(3-6)] by simp
  next
    case (Some a)
    show ?thesis
    proof (cases "sock i")
      case (NoListen bp)
      then show ?thesis using 2(2) Some fail [OF _ pin] by simp
    next
      case (Listening bp)
      obtain r h where e: "?pin bp = (r, h)" by fastforce
      have b: "bind_sockets pton sock (Suc i) n (fds @ [i]) (r, h\<lparr>openSocks := i # openSocks h\<rparr>) = Inl (r', h', st)"
        using 2(2) Some Listening e by simp
      show ?thesis using 2(1) [OF Some Listening e [symmetric], of "q' bp"] b pin [of bp] Listening e by (auto split: if_splits)
    qed (use 2(2) Some fail [OF _ 2(3-6)] in simp_all)
  qed
qed simp


text \<open>
  C28: a start that fails leaves nothing behind: the server is not running, holds no socket, no reserved
  port and no loop, and the registry of ports is as before. The operating system is assumed to give out,
  for port 0, a port that is not 0 and not registered.
\<close>

theorem start_failure_clean:
  assumes "start nloops cores dw pton sock (r, h) = (r', h', st)" "kind st \<noteq> ENone" "\<not> running r" "reservedPort r = 0" "openSocks h = []"
    "port (cfg r) = 0 \<longrightarrow> (\<forall>bp. sock 0 = NoListen bp \<or> sock 0 = Listening bp \<longrightarrow> bp \<noteq> 0 \<and> bp \<notin> set (boundPorts h))"
  shows "\<not> running r' \<and> reservedPort r' = 0 \<and> loops r' = loops r \<and> h' = h \<and> kind st = BindFailed"
proof -
  define n p where "n = nat (loop_count nloops cores (cfg r))" and "p = port (cfg r)"
  define r1 where "r1 = (start_dispatch dw (r\<lparr>running := True\<rparr>))\<lparr>bound_port := p\<rparr>"
  have r1: "loops r1 = loops r" "reservedPort r1 = 0" using assms(4) by (simp_all add: r1_def start_dispatch_def split: option.splits)
  define y where "y = (if p \<noteq> 0 then (r1\<lparr>reservedPort := p\<rparr>, h\<lparr>boundPorts := List.insert p (boundPorts h)\<rparr>) else (r1, h))"
  have u: "start nloops cores dw pton sock (r, h) =
    (if p \<noteq> 0 \<and> p \<in> set (boundPorts h) then (r1\<lparr>running := False\<rparr>, h, \<lparr>kind = BindFailed, message = ''port already in use'', boundPort = 0\<rparr>)
     else case bind_sockets pton sock 0 n [] y of Inl failure \<Rightarrow> failure
       | Inr (r2, h2) \<Rightarrow> (r2\<lparr>loops := loops r2 @ replicate n new_loop\<rparr>, h2, status_ok\<lparr>boundPort := bound_port r2\<rparr>))"
    using assms(3) unfolding start_def prod.case Let_def n_def [symmetric] p_def [symmetric] r1_def [symmetric] y_def [symmetric] by simp
  show ?thesis
  proof (cases "p \<noteq> 0 \<and> p \<in> set (boundPorts h)")
    case True
    then show ?thesis using assms(1) u r1 by auto
  next
    case False
    then have b: "bind_sockets pton sock 0 n [] y = Inl (r', h', st)"
      using assms(1,2) u by (auto simp: status_ok_def split: sum.splits prod.splits)
    have y: "set (openSocks (snd y)) = set []" "reservedPort (fst y) = p" "loops (fst y) = loops r"
      "boundPorts (snd y) = (if p \<noteq> 0 then p # boundPorts h else boundPorts h)" "p \<noteq> 0 \<longrightarrow> p \<notin> set (boundPorts h)"
      using False r1 assms(5) by (auto simp: y_def)
    have "\<not> running r' \<and> reservedPort r' = 0 \<and> openSocks h' = [] \<and> boundPorts h' = boundPorts h \<and> kind st = BindFailed \<and> loops r' = loops (fst y)"
      by (rule bind_failure [OF b y(1,2,4,5)]) (use assms(6) in \<open>auto simp: p_def\<close>)
    then show ?thesis using assms(5) y(3) by simp
  qed
qed

section \<open>Stopping\<close>

lemma close_fold:
  fixes cs r
  defines "f \<equiv> \<lambda>c r. if \<not> h_closing (conns r c) then uv_close c (upd_conn c (\<lambda>k. k\<lparr>c_closing := True\<rparr>) r) else r"
  shows "h_closing (conns (fold f cs r) d) \<longleftrightarrow> h_closing (conns r d) \<or> d \<in> set cs" "loops (fold f cs r) = loops r"
proof -
  have one: "h_closing (conns (f c s) d) \<longleftrightarrow> h_closing (conns s d) \<or> d = c" "loops (f c s) = loops s" for c s d
    by (auto simp: f_def uv_close_def log_effect_def)
  show "h_closing (conns (fold f cs r) d) \<longleftrightarrow> h_closing (conns r d) \<or> d \<in> set cs" by (induction cs arbitrary: r) (auto simp: one)
  show "loops (fold f cs r) = loops r" by (induction cs arbitrary: r) (auto simp: one)
qed

text \<open>
  C30: waking a loop that was told to stop closes its listener, its wake-up and sweep handles and every
  connection it has, so that its thread can end.
\<close>

theorem stop_closes_everything:
  assumes "i < length (loops r)" "lp_stopping (loops r ! i)"
  shows "lp_conns (loops (onAsync env i r) ! i) = lp_conns (loops r ! i) \<and>
    (\<forall>c \<in> set (lp_conns (loops r ! i)). h_closing (conns (onAsync env i r) c)) \<and>
    lp_serverClosing (loops (onAsync env i r) ! i) \<and> lp_asyncClosing (loops (onAsync env i r) ! i) \<and>
    lp_sweepClosing (loops (onAsync env i r) ! i)"
proof -
  define r2 where "r2 = drain_batch env i (lp_queue (loops r ! i)) (upd_loop i (\<lambda>l. l\<lparr>lp_queue := []\<rparr>) r)"
  have l: "loops r2 = (loops r)[i := (loops r ! i)\<lparr>lp_queue := []\<rparr>]" by (simp add: r2_def) (simp add: upd_loop_def)
  have a: "onAsync env i r = close_loop i r2" using assms(2) by (simp add: onAsync_def r2_def Let_def)
  show ?thesis unfolding a close_loop_def Let_def using assms(1) l
    by (auto simp: close_fold upd_loop_def)
qed


section \<open>Concrete cases\<close>

definition sample_env :: Env where
  "sample_env = \<lparr>e_now = 0, e_time = 0, e_malloc = (\<lambda>_. True), e_pton = (\<lambda>_ _. True), e_ntop = (\<lambda>_ _. None), e_read = (\<lambda>_ _ _. None)\<rparr>"

definition sample_serving :: Reactor where
  "sample_serving = new_reactor\<lparr>running := True, loops := [new_loop\<lparr>lp_conns := [1], lp_stopping := True\<rparr>], nextId := 3, alive := [1],
     emitters := [10, 11, 12], dispatchWidth := 2,
     reqLoc := [(2, \<lparr>rl_loopIdx = 0, rl_connId = 1, rl_isHead = False, rl_keepAlive = True\<rparr>)]\<rparr>"

theorem answered_once_witness:
  "sendStreamChunk 2 ''more'' True (sendStreamChunk 2 ''end'' True sample_serving) = sendStreamChunk 2 ''end'' True sample_serving \<and>
   length (lp_queue (loops (sendStreamChunk 2 ''end'' True sample_serving) ! 0)) = 1"
proof -
  have "length (lp_queue (loops (sendStreamChunk 2 ''end'' True sample_serving) ! 0)) = 1"
    by (simp add: sendStreamChunk_def sample_serving_def lookupReq_def pushWrite_def push_queue_def upd_loop_def log_effect_def new_reactor_def new_loop_def Let_def)
  moreover have "running sample_serving" by (simp add: sample_serving_def)
  moreover note answered_once [OF this disjI2 [OF disjI1 [OF refl]], where i = 2 and chunk = "''end''"]
  ultimately show ?thesis by blast
qed

theorem dispatch_deals_evenly_witness: "mset (deals 2 sample_serving) = {#Some 11, Some 12#}"
proof -
  have "dealt_width sample_serving = 2" "emitters sample_serving = [10, 11, 12]" "unat (emitterRr sample_serving) = 0"
    by (simp_all add: dealt_width_def sample_serving_def new_reactor_def)
  then show ?thesis using dispatch_deals_evenly [of sample_serving] by simp
qed

theorem start_failure_clean_witness:
  "case start 2 1 None (\<lambda>_ _. True) (\<lambda>i. if i = 0 then Listening 8080 else NoBind) (new_reactor, \<lparr>boundPorts = [9], openSocks = []\<rparr>) of
     (r', h', st) \<Rightarrow> kind st = BindFailed \<and> \<not> running r' \<and> h' = \<lparr>boundPorts = [9], openSocks = []\<rparr>"
proof -
  let ?sock = "\<lambda>i. if i = 0 then Listening 8080 else NoBind" and ?h = "\<lparr>boundPorts = [9], openSocks = []\<rparr>"
  obtain r' h' st where e: "start 2 1 None (\<lambda>_ _. True) ?sock (new_reactor, ?h) = (r', h', st)" by (metis prod_cases3)
  have "kind (snd (snd (start 2 1 None (\<lambda>_ _. True) ?sock (new_reactor, ?h)))) = BindFailed" by code_simp
  then have "kind st \<noteq> ENone" using e by simp
  moreover have "\<not> running new_reactor" "reservedPort new_reactor = 0" by (simp_all add: new_reactor_def)
  ultimately show ?thesis using start_failure_clean [OF e] e by simp
qed

theorem stop_closes_everything_witness: "h_closing (conns (onAsync sample_env 0 sample_serving) 1)"
  using stop_closes_everything [of 0 sample_serving sample_env] by (simp add: sample_serving_def)

end
