(* ===== verification/ReactorQueue.thy ===== *)
theory ReactorQueue
  imports ReactorInv
begin

text \<open>
  The cross-thread queue of a loop. \<open>onAsync\<close> takes a whole batch and merges neighbouring entries of one
  connection into one write; the bytes a connection is sent, their order and the ends of its answers are
  those of the queue.
\<close>

section \<open>Runs\<close>

lemma merge_run_spec:
  assumes "merge_run cid m ka fin ps = (m', ka', fin', rest)"
  shows "\<exists>run. ps = run @ rest \<and> (\<forall>p \<in> set run. q_connId p = cid \<and> q_fileFd p < 0) \<and> m' = m @ concat (map q_bytes run) \<and>
    (if fin' then [ka'] else []) = (if fin then [ka] else []) @ map q_keepAlive (filter q_finish run)"
  using assms
proof (induction cid m ka fin ps rule: merge_run.induct)
  case (2 cid m ka fin p ps)
  show ?case
  proof (cases "\<not> fin \<and> q_connId p = cid \<and> q_fileFd p < 0")
    case True
    then obtain run where "ps = run @ rest" "\<forall>p \<in> set run. q_connId p = cid \<and> q_fileFd p < 0" "m' = (m @ q_bytes p) @ concat (map q_bytes run)"
      "(if fin' then [ka'] else []) = (if q_finish p then [q_keepAlive p] else []) @ map q_keepAlive (filter q_finish run)"
      using 2 by auto
    then show ?thesis using True by (intro exI [of _ "p # run"]) auto
  next
    case False
    then show ?thesis using 2(2) by (intro exI [of _ "[]"]) (simp split: if_splits)
  qed
qed simp

section \<open>Batches\<close>

text \<open>What a batch holds for a connection: its bytes, and for each answer that ends, whether it keeps the connection.\<close>

definition batch_bytes :: "int \<Rightarrow> Pending list \<Rightarrow> string" where
  "batch_bytes c ps = concat (map q_bytes (filter (\<lambda>p. q_connId p = c) ps))"

definition batch_ends :: "int \<Rightarrow> Pending list \<Rightarrow> bool list" where
  "batch_ends c ps = map q_keepAlive (filter (\<lambda>p. q_connId p = c \<and> q_fileFd p < 0 \<and> q_finish p) ps)"

definition write_ends :: "WriteCtx list \<Rightarrow> bool list" where
  "write_ends ws = map wc_keepAlive (filter wc_finish ws)"

definition no_limits :: "Reactor \<Rightarrow> bool" where
  "no_limits r \<longleftrightarrow> wsMaxBufferBytes (cfg r) \<le> 0 \<and> streamMaxBufferBytes (cfg r) \<le> 0"

lemma run_batch:
  assumes "\<forall>p \<in> set run. q_connId p = d \<and> q_fileFd p < 0"
  shows "batch_bytes c (run @ rest) = (if c = d then concat (map q_bytes run) else []) @ batch_bytes c rest"
    "batch_ends c (run @ rest) = (if c = d then map q_keepAlive (filter q_finish run) else []) @ batch_ends c rest"
proof -
  have "filter (\<lambda>p. q_connId p = c) run = (if c = d then run else [])" using assms by (auto simp: filter_id_conv filter_empty_conv)
  moreover have "filter (\<lambda>p. q_connId p = c \<and> q_fileFd p < 0 \<and> q_finish p) run = (if c = d then filter q_finish run else [])"
    using assms by (auto intro: filter_cong simp: filter_empty_conv)
  ultimately show "batch_bytes c (run @ rest) = (if c = d then concat (map q_bytes run) else []) @ batch_bytes c rest"
    "batch_ends c (run @ rest) = (if c = d then map q_keepAlive (filter q_finish run) else []) @ batch_ends c rest"
    by (auto simp: batch_bytes_def batch_ends_def)
qed

lemma write_unlimited: "no_limits r \<Longrightarrow> writeAnswer env c bs ka fin r = begin_answer env c bs ka fin r"
  by (simp add: writeAnswer.simps Let_def no_limits_def ws_over_buffer_def stream_over_buffer_def)

text \<open>The two ways an entry is handled leave the loops, the limits and which connections are open.\<close>

lemma begin_stable:
  "conn_on_loop i d (begin_answer env c bs ka fin (upd_conn c f r)) = conn_on_loop i d r"
  "no_limits (begin_answer env c bs ka fin (upd_conn c f r)) = no_limits r"
  if "\<And>k. c_closing (f k) = c_closing k"
  using that by (simp_all add: conn_on_loop_def no_limits_def begin_answer_def start_write_def)


definition handed :: "Env \<Rightarrow> nat \<Rightarrow> Pending list \<Rightarrow> Reactor \<Rightarrow> int \<Rightarrow> WriteCtx list \<Rightarrow> bool" where
  "handed env i ps r c ws \<longleftrightarrow> h_writes (conns (drain_batch env i ps r) c) = h_writes (conns r c) @ ws \<and>
     concat (map wc_payload ws) = (if conn_on_loop i c r then batch_bytes c ps else []) \<and>
     write_ends ws = (if conn_on_loop i c r then batch_ends c ps else [])"

lemma begin_writes: "h_writes (conns (begin_answer env d bs ka fin r) c) =
    h_writes (conns r c) @ (if c = d then [\<lparr>wc_payload = bs, wc_keepAlive = ka, wc_finish = fin\<rparr>] else [])"
  by (simp add: begin_answer_def start_write_def)

lemma handed_step:
  assumes "handed env i rest r' c ws" "drain_batch env i ps r = drain_batch env i rest r'" "conn_on_loop i c r' = conn_on_loop i c r"
    "h_writes (conns r' c) = h_writes (conns r c) @ ws0" "concat (map wc_payload ws0) = (if conn_on_loop i c r then b else [])"
    "write_ends ws0 = (if conn_on_loop i c r then e else [])" "batch_bytes c ps = b @ batch_bytes c rest" "batch_ends c ps = e @ batch_ends c rest"
  shows "handed env i ps r c (ws0 @ ws)"
  using assms by (simp add: handed_def write_ends_def)

lemma drain_writes:
  assumes "no_limits r"
  shows "\<exists>ws. handed env i ps r c ws"
  using assms
proof (induction env i ps r rule: drain_batch.induct)
  case (1 env i r)
  then show ?case by (auto simp: handed_def batch_bytes_def batch_ends_def write_ends_def)
next
  case (2 env i p ps r)
  let ?d = "q_connId p"
  show ?case
  proof (cases "0 \<le> q_fileFd p")
    case True
    let ?f = "\<lambda>k. k\<lparr>c_fileFd := q_fileFd p, c_fileOffset := q_fileOffset p, c_fileRemaining := q_fileRemaining p, c_fileKeepAlive := q_keepAlive p\<rparr>"
    let ?ws0 = "if c = ?d \<and> conn_on_loop i ?d r then [\<lparr>wc_payload = q_bytes p, wc_keepAlive = q_keepAlive p, wc_finish = False\<rparr>] else []"
    have n: "no_limits (upd_conn ?d ?f r)" using 2(3) by (simp add: no_limits_def)
    have f: "begin_file env i p r = (if conn_on_loop i ?d r then begin_answer env ?d (q_bytes p) (q_keepAlive p) False (upd_conn ?d ?f r)
        else log_effect (FsClose (q_fileFd p)) r)"
      using write_unlimited [OF n] by (simp add: begin_file_def Let_def)
    have st: "conn_on_loop i c (begin_file env i p r) = conn_on_loop i c r" "no_limits (begin_file env i p r)"
      using 2(3) unfolding f by (simp_all add: begin_stable) (simp_all add: conn_on_loop_def no_limits_def log_effect_def)
    have w: "h_writes (conns (begin_file env i p r) c) = h_writes (conns r c) @ ?ws0" unfolding f by (simp add: begin_writes)
    obtain ws where "handed env i ps (begin_file env i p r) c ws" using 2(1) [OF True st(2)] by blast
    then have "handed env i (p # ps) r c (?ws0 @ ws)"
      by (rule handed_step [where b = "if c = ?d then q_bytes p else []" and e = "[]"])
        (use True st w in \<open>auto simp: write_ends_def batch_bytes_def batch_ends_def\<close>)
    then show ?thesis by blast
  next
    case False
    obtain m ka fin rest where mr: "merge_run ?d (q_bytes p) (q_keepAlive p) (q_finish p) ps = (m, ka, fin, rest)" by (metis prod_cases4)
    obtain run where run: "ps = run @ rest" "\<forall>p \<in> set run. q_connId p = ?d \<and> q_fileFd p < 0" "m = q_bytes p @ concat (map q_bytes run)"
      "(if fin then [ka] else []) = (if q_finish p then [q_keepAlive p] else []) @ map q_keepAlive (filter q_finish run)"
      using merge_run_spec [OF mr] by blast
    let ?r = "if conn_on_loop i ?d r then writeAnswer env ?d m ka fin r else r"
    let ?ws0 = "if c = ?d \<and> conn_on_loop i ?d r then [\<lparr>wc_payload = m, wc_keepAlive = ka, wc_finish = fin\<rparr>] else []"
    have st: "conn_on_loop i c ?r = conn_on_loop i c r" "no_limits ?r" "h_writes (conns ?r c) = h_writes (conns r c) @ ?ws0"
      using 2(3) write_unlimited [OF 2(3)] begin_stable(1) [of id i c env ?d m ka fin r] begin_stable(2) [of id env ?d m ka fin r]
      by (auto simp: begin_writes upd_conn_def)
    have b: "batch_bytes c (p # ps) = (if c = ?d then m else []) @ batch_bytes c rest"
      "batch_ends c (p # ps) = (if c = ?d then (if fin then [ka] else []) else []) @ batch_ends c rest"
      using run_batch [of "p # run" ?d c rest] run False by auto
    obtain ws where "handed env i rest ?r c ws" using 2(2) [OF False mr [symmetric] refl refl st(2)] by blast
    then have "handed env i (p # ps) r c (?ws0 @ ws)"
      by (rule handed_step [where b = "if c = ?d then m else []" and e = "if c = ?d then (if fin then [ka] else []) else []"])
        (use False mr st b in \<open>auto simp: write_ends_def\<close>)
    then show ?thesis by blast
  qed
qed


lemma close_loop_frame:
  "h_writes (conns (close_loop i r) c) = h_writes (conns r c)" "map lp_queue (loops (close_loop i r)) = map lp_queue (loops r)"
proof -
  let ?f = "\<lambda>c r. if \<not> h_closing (conns r c) then uv_close c (upd_conn c (\<lambda>k. k\<lparr>c_closing := True\<rparr>) r) else r"
  have "h_writes (conns (fold ?f cs s) c) = h_writes (conns s c) \<and> loops (fold ?f cs s) = loops s" for cs s
    by (induction cs arbitrary: s) (auto simp: uv_close_def log_effect_def)
  then show "h_writes (conns (close_loop i r) c) = h_writes (conns r c)" "map lp_queue (loops (close_loop i r)) = map lp_queue (loops r)"
    by (simp_all add: close_loop_def Let_def upd_loop_def map_update)
      (metis list_update_id list_update_beyond map_update not_less nth_map)
qed


definition sample_queue :: Reactor where
  "sample_queue = new_reactor\<lparr>running := True, cfg := default_config\<lparr>wsMaxBufferBytes := 0, streamMaxBufferBytes := 0\<rparr>, alive := [1, 2],
     loops := [new_loop\<lparr>lp_conns := [1, 2],
       lp_queue := [mk_pending 1 ''he'' True False, mk_pending 1 ''ad'' True True, mk_pending 2 ''x'' False True, mk_pending 1 ''next'' True True]\<rparr>]\<rparr>"


end
