(* ===== verification/JsonWriter.thy ===== *)
theory JsonWriter
  imports Complex_Main Prelude "HOL-Library.Monad_Syntax"
begin

text \<open>
  The native JSON writer (\<open>JsonWriter.cpp\<close>): a growable buffer that a handler drives token by token.
  \<open>jw_data\<close> is the written prefix of the buffer (\<open>data[0..len)\<close>) and \<open>jw_cap\<close> its capacity. A store
  through the raw cursor past the capacity, or past a local array, is \<open>None\<close>: a heap or stack overflow
  in the program. \<open>realloc\<close> is taken to succeed, as the code does not check it.

  \<open>std::to_chars\<close> on a double is an argument of the operations that format one: it maps the bits of
  the absolute value to the text \<open>d[.ddd]e\<plusminus>xx\<close> it leaves in the local buffer.
\<close>

section \<open>The buffer\<close>

record NitroJsonWriter =
  jw_data :: string
  jw_cap :: nat
  needComma :: bool

function grow_cap :: "nat \<Rightarrow> nat \<Rightarrow> nat" where
  "grow_cap need nc = (if nc < need \<and> 0 < nc then grow_cap need (nc * 2) else nc)"
  by pat_completeness auto

termination
  by (relation "measure (\<lambda>(need, nc). need - nc)") auto

declare grow_cap.simps [simp del]

definition grow :: "nat \<Rightarrow> NitroJsonWriter \<Rightarrow> NitroJsonWriter" where
  "grow need w = w\<lparr>jw_cap := grow_cap need (if jw_cap w \<noteq> 0 then jw_cap w * 2 else 256)\<rparr>"

definition ensure :: "nat \<Rightarrow> NitroJsonWriter \<Rightarrow> NitroJsonWriter" where
  "ensure extra w = (if length (jw_data w) + extra > jw_cap w then grow (length (jw_data w) + extra) w else w)"

text \<open>Stores through the raw cursor.\<close>

definition raw_store :: "string \<Rightarrow> NitroJsonWriter \<Rightarrow> NitroJsonWriter option" where
  "raw_store bs w = (if length (jw_data w) + length bs \<le> jw_cap w then Some (w\<lparr>jw_data := jw_data w @ bs\<rparr>) else None)"

definition putb :: "char \<Rightarrow> NitroJsonWriter \<Rightarrow> NitroJsonWriter option" where
  "putb b w = raw_store [b] (ensure 1 w)"

definition putN :: "string \<Rightarrow> NitroJsonWriter \<Rightarrow> NitroJsonWriter option" where
  "putN s w = raw_store s (ensure (length s) w)"

fun puts :: "string \<Rightarrow> NitroJsonWriter \<Rightarrow> NitroJsonWriter option" where
  "puts [] w = Some w"
| "puts (b # bs) w = putb b w \<bind> puts bs"

definition sep :: "NitroJsonWriter \<Rightarrow> NitroJsonWriter option" where
  "sep w = (if needComma w then putb (CHR '','') w else Some w)"

definition after_value :: "NitroJsonWriter \<Rightarrow> NitroJsonWriter option" where
  "after_value w = Some (w\<lparr>needComma := True\<rparr>)"

section \<open>Tokens\<close>

text \<open>\<open>while (x) { tmp[n++] = '0' + x % 10; x /= 10; }\<close>: the least digit first.\<close>

function int_digits :: "u64 \<Rightarrow> string" where
  "int_digits x = (if x = 0 then [] else char_of (48 + unat (x mod 10)) # int_digits (x div 10))"
  by pat_completeness auto

termination
proof (relation "measure unat")
  fix x :: u64 assume "x \<noteq> 0"
  then have "0 < unat x" by (simp add: unat_gt_0)
  then show "(x div 10, x) \<in> measure unat" by (simp add: unat_div)
qed simp

declare int_digits.simps [simp del]

definition writeInt :: "int \<Rightarrow> NitroJsonWriter \<Rightarrow> NitroJsonWriter option" where
  "writeInt v w =
     (if v = 0 then putb (CHR ''0'') w
      else let neg = (v < 0);
               x = (if neg then NOT (word_of_int v) + 1 else word_of_int v :: u64);
               tmp = int_digits x
           in if length tmp > 24 then None
              else raw_store ((if neg then ''-'' else []) @ rev tmp) (ensure (length tmp + 1) w))"

definition escape_char :: "char \<Rightarrow> string" where
  "escape_char c =
     (if c = CHR 0x22 then [CHR 0x5C, CHR 0x22]
      else if c = CHR 0x5C then [CHR 0x5C, CHR 0x5C]
      else if c = CHR 0x08 then [CHR 0x5C, CHR ''b'']
      else if c = CHR 0x0C then [CHR 0x5C, CHR ''f'']
      else if c = CHR 0x0A then [CHR 0x5C, CHR ''n'']
      else if c = CHR 0x0D then [CHR 0x5C, CHR ''r'']
      else if c = CHR 0x09 then [CHR 0x5C, CHR ''t'']
      else if ord c < 32 then CHR 0x5C # ''u00'' @ [digit_char (ord c div 16), digit_char (ord c mod 16)]
      else [c])"

definition writeEscaped :: "string \<Rightarrow> NitroJsonWriter \<Rightarrow> NitroJsonWriter option" where
  "writeEscaped s w =
     raw_store ([CHR 0x22] @ concat (map escape_char s) @ [CHR 0x22]) (ensure (length s * 6 + 2) w)"

text \<open>Split \<open>d[.ddd]e\<plusminus>xx\<close> into the digits and the exponent; \<open>None\<close> where the code would read past the text.\<close>

definition parse_sci :: "string \<Rightarrow> (string \<times> int) option" where
  "parse_sci sci =
     (case sci of
        [] \<Rightarrow> None
      | d # t \<Rightarrow>
          let (ds, u) = (if t \<noteq> [] \<and> hd t = CHR ''.''
                         then (takeWhile (\<lambda>c. c \<noteq> CHR ''e'') (tl t), dropWhile (\<lambda>c. c \<noteq> CHR ''e'') (tl t)) else ([], t));
              v = drop 1 u
          in if v = [] then None
             else let esign = (if hd v = CHR ''-'' then -1 else 1 :: int);
                      x = (if hd v = CHR ''+'' \<or> hd v = CHR ''-'' then tl v else v);
                      e = foldl (\<lambda>a c. a * 10 + (int (ord c) - 48)) 0 x
                  in Some (d # ds, e * esign))"

text \<open>The layout of digits and exponent, after Dart's rules; \<open>n\<close> is the position of the decimal point.\<close>

definition writeDigits :: "string \<Rightarrow> int \<Rightarrow> NitroJsonWriter \<Rightarrow> NitroJsonWriter option" where
  "writeDigits digits n w =
     (let k = int (length digits) in
      if k \<le> n \<and> n \<le> 21 then
        do { w \<leftarrow> puts digits w; w \<leftarrow> puts (replicate (nat (n - k)) (CHR ''0'')) w; putN ''.0'' w }
      else if 0 < n \<and> n \<le> 21 then
        do { w \<leftarrow> puts (take (nat n) digits) w; w \<leftarrow> putb (CHR ''.'') w; puts (drop (nat n) digits) w }
      else if -6 < n \<and> n \<le> 0 then
        do { w \<leftarrow> putN ''0.'' w; w \<leftarrow> puts (replicate (nat (- n)) (CHR ''0'')) w; puts digits w }
      else
        do { w \<leftarrow> putb (hd digits) w;
             w \<leftarrow> (if k > 1 then do { w \<leftarrow> putb (CHR ''.'') w; puts (tl digits) w } else Some w);
             w \<leftarrow> putb (CHR ''e'') w;
             let ex = n - 1;
             w \<leftarrow> putb (if ex \<ge> 0 then CHR ''+'' else CHR ''-'') w;
             writeInt (if ex \<ge> 0 then ex else - ex) w })"

text \<open>A double by its bits; \<open>v == 0.0\<close> holds for both zeros.\<close>

definition abs_bits :: "u64 \<Rightarrow> u64" where
  "abs_bits b = take_bit 63 b"

definition writeDouble :: "(u64 \<Rightarrow> string) \<Rightarrow> u64 \<Rightarrow> NitroJsonWriter \<Rightarrow> NitroJsonWriter option" where
  "writeDouble to_chars b w =
     (let neg = bit b 63; sign = (if neg then ''-'' else []) in
      if abs_bits b = 0 then do { w \<leftarrow> puts sign w; putN ''0.0'' w }
      else case parse_sci (to_chars (abs_bits b)) of
        None \<Rightarrow> None
      | Some (digits, e) \<Rightarrow>
          if length digits > 24 then None
          else do { w \<leftarrow> puts sign (ensure 40 w); writeDigits digits (e + 1) w })"

section \<open>The exported calls\<close>

definition jw_new :: NitroJsonWriter where
  "jw_new = grow 256 \<lparr>jw_data = [], jw_cap = 0, needComma = False\<rparr>"

definition jw_reset :: "NitroJsonWriter \<Rightarrow> NitroJsonWriter" where
  "jw_reset w = w\<lparr>jw_data := [], needComma := False\<rparr>"

definition jw_begin_object :: "NitroJsonWriter \<Rightarrow> NitroJsonWriter option" where
  "jw_begin_object w = do { w \<leftarrow> sep w; w \<leftarrow> putb (CHR 0x7B) w; Some (w\<lparr>needComma := False\<rparr>) }"

definition jw_end_object :: "NitroJsonWriter \<Rightarrow> NitroJsonWriter option" where
  "jw_end_object w = do { w \<leftarrow> putb (CHR 0x7D) w; after_value w }"

definition jw_begin_array :: "NitroJsonWriter \<Rightarrow> NitroJsonWriter option" where
  "jw_begin_array w = do { w \<leftarrow> sep w; w \<leftarrow> putb (CHR ''['') w; Some (w\<lparr>needComma := False\<rparr>) }"

definition jw_end_array :: "NitroJsonWriter \<Rightarrow> NitroJsonWriter option" where
  "jw_end_array w = do { w \<leftarrow> putb (CHR '']'') w; after_value w }"

definition jw_key :: "string \<Rightarrow> NitroJsonWriter \<Rightarrow> NitroJsonWriter option" where
  "jw_key k w = do { w \<leftarrow> sep w; w \<leftarrow> writeEscaped k w; w \<leftarrow> putb (CHR '':'') w; Some (w\<lparr>needComma := False\<rparr>) }"

definition jw_int :: "int \<Rightarrow> NitroJsonWriter \<Rightarrow> NitroJsonWriter option" where
  "jw_int v w = do { w \<leftarrow> sep w; w \<leftarrow> writeInt v w; after_value w }"

definition jw_double :: "(u64 \<Rightarrow> string) \<Rightarrow> u64 \<Rightarrow> NitroJsonWriter \<Rightarrow> NitroJsonWriter option" where
  "jw_double to_chars b w = do { w \<leftarrow> sep w; w \<leftarrow> writeDouble to_chars b w; after_value w }"

definition jw_string :: "string \<Rightarrow> NitroJsonWriter \<Rightarrow> NitroJsonWriter option" where
  "jw_string s w = do { w \<leftarrow> sep w; w \<leftarrow> writeEscaped s w; after_value w }"

definition jw_bool :: "bool \<Rightarrow> NitroJsonWriter \<Rightarrow> NitroJsonWriter option" where
  "jw_bool b w = do { w \<leftarrow> sep w; w \<leftarrow> putN (if b then ''true'' else ''false'') w; after_value w }"

definition jw_null :: "NitroJsonWriter \<Rightarrow> NitroJsonWriter option" where
  "jw_null w = do { w \<leftarrow> sep w; w \<leftarrow> putN ''null'' w; after_value w }"

definition jw_raw :: "string \<Rightarrow> NitroJsonWriter \<Rightarrow> NitroJsonWriter option" where
  "jw_raw s w = do { w \<leftarrow> sep w; w \<leftarrow> putN s w; after_value w }"

text \<open>A column of the record template: the type tag 0 for \<open>int64_t\<close>, otherwise doubles by their bits.\<close>

datatype column = IntCol "int list" | DoubleCol "u64 list"

definition write_cell :: "(u64 \<Rightarrow> string) \<Rightarrow> nat \<Rightarrow> column \<Rightarrow> NitroJsonWriter \<Rightarrow> NitroJsonWriter option" where
  "write_cell to_chars row c w =
     (case c of
        IntCol xs \<Rightarrow> if row < length xs then writeInt (xs ! row) w else None
      | DoubleCol xs \<Rightarrow> if row < length xs then writeDouble to_chars (xs ! row) w else None)"

text \<open>One record: \<open>seg[0] col[0] seg[1] \<dots> col[k-1] seg[k]\<close>.\<close>

fun write_row :: "(u64 \<Rightarrow> string) \<Rightarrow> nat \<Rightarrow> string list \<Rightarrow> column list \<Rightarrow> NitroJsonWriter \<Rightarrow> NitroJsonWriter option" where
  "write_row to_chars row (s # segs) (c # cols) w =
     do { w \<leftarrow> putN s w; w \<leftarrow> write_cell to_chars row c w; write_row to_chars row segs cols w }"
| "write_row to_chars row (s # segs) [] w = putN s w"
| "write_row to_chars row [] cols w = None"

fun write_rows :: "(u64 \<Rightarrow> string) \<Rightarrow> nat list \<Rightarrow> string list \<Rightarrow> column list \<Rightarrow> NitroJsonWriter \<Rightarrow> NitroJsonWriter option" where
  "write_rows to_chars [] segs cols w = Some w"
| "write_rows to_chars (row # rows) segs cols w =
     do { w \<leftarrow> (if row \<noteq> 0 then putb (CHR '','') w else Some w);
          w \<leftarrow> write_row to_chars row segs cols w;
          write_rows to_chars rows segs cols w }"

definition jw_emit_template :: "(u64 \<Rightarrow> string) \<Rightarrow> nat \<Rightarrow> string list \<Rightarrow> column list \<Rightarrow> NitroJsonWriter \<Rightarrow> NitroJsonWriter option" where
  "jw_emit_template to_chars n segs cols w =
     do { w \<leftarrow> sep w; w \<leftarrow> putb (CHR ''['') w; w \<leftarrow> write_rows to_chars [0..<n] segs cols w; w \<leftarrow> putb (CHR '']'') w; after_value w }"

text \<open>The length, truncated to \<open>int32_t\<close>.\<close>

definition jw_len :: "NitroJsonWriter \<Rightarrow> int" where
  "jw_len w = signed_take_bit 31 (int (length (jw_data w)))"


section \<open>Stores fit\<close>

definition jw_ok :: "NitroJsonWriter \<Rightarrow> bool" where
  "jw_ok w \<longleftrightarrow> length (jw_data w) \<le> jw_cap w \<and> 0 < jw_cap w"

text \<open>An operation that succeeds on every sound writer and appends a text.\<close>

definition appends :: "(NitroJsonWriter \<Rightarrow> NitroJsonWriter option) \<Rightarrow> string \<Rightarrow> bool" where
  "appends f t \<longleftrightarrow> (\<forall>w. jw_ok w \<longrightarrow> (\<exists>w'. f w = Some w' \<and> jw_ok w' \<and> jw_data w' = jw_data w @ t \<and> needComma w' = needComma w))"

lemma grow_cap_ge: "0 < nc \<Longrightarrow> need \<le> grow_cap need nc \<and> nc \<le> grow_cap need nc"
proof (induction need nc rule: grow_cap.induct)
  case (1 need nc)
  then show ?case by (cases "nc < need") (auto simp: grow_cap.simps [of need nc])
qed

lemma ensure_ok:
  assumes "jw_ok w"
  shows "jw_ok (ensure n w)" "jw_data (ensure n w) = jw_data w" "needComma (ensure n w) = needComma w"
    "length (jw_data w) + n \<le> jw_cap (ensure n w)"
proof -
  have "0 < jw_cap w" using assms by (simp add: jw_ok_def)
  then have "length (jw_data w) + n \<le> grow_cap (length (jw_data w) + n) (jw_cap w * 2)" "0 < grow_cap (length (jw_data w) + n) (jw_cap w * 2)"
    using grow_cap_ge [of "jw_cap w * 2" "length (jw_data w) + n"] by auto
  then show "jw_ok (ensure n w)" "jw_data (ensure n w) = jw_data w" "needComma (ensure n w) = needComma w"
    "length (jw_data w) + n \<le> jw_cap (ensure n w)"
    using assms by (auto simp: ensure_def grow_def jw_ok_def)
qed

lemma appends_store: "length t \<le> n \<Longrightarrow> appends (\<lambda>w. raw_store t (ensure n w)) t"
  unfolding appends_def
proof (intro allI impI)
  fix w assume a: "length t \<le> n" "jw_ok w"
  then show "\<exists>w'. raw_store t (ensure n w) = Some w' \<and> jw_ok w' \<and> jw_data w' = jw_data w @ t \<and> needComma w' = needComma w"
    using ensure_ok [OF a(2), of n] by (auto simp: raw_store_def jw_ok_def)
qed

lemma appends_bind: "appends f s \<Longrightarrow> appends g t \<Longrightarrow> appends (\<lambda>w. f w \<bind> g) (s @ t)"
  unfolding appends_def by fastforce

lemma appends_Some: "appends Some []"
  by (simp add: appends_def)

lemma appends_put: "appends (putb b) [b]" "appends (putN s) s"
  unfolding putb_def putN_def by (intro appends_store; simp)+

lemma appends_puts: "appends (puts s) s"
proof (induction s)
  case (Cons b s)
  have "appends (\<lambda>w. putb b w \<bind> puts s) ([b] @ s)" by (rule appends_bind [OF appends_put(1) Cons])
  then show ?case by simp
qed (simp add: appends_Some eta_contract_eq appends_def)

lemma appends_ensure: "appends f t \<Longrightarrow> appends (\<lambda>w. f (ensure n w)) t"
  unfolding appends_def using ensure_ok by metis

lemmas appends_rules = appends_put appends_puts appends_Some

section \<open>Integers\<close>

lemma int_digits_rev: "x \<noteq> 0 \<Longrightarrow> rev (int_digits x) = to_string_nat (unat x)"
proof (induction x rule: int_digits.induct)
  case (1 x)
  have d: "unat (x mod 10) = unat x mod 10" "unat (x div 10) = unat x div 10" by (simp_all add: unat_mod unat_div)
  have c: "char_of (48 + unat x mod 10) = digit_char (unat x mod 10)" by (simp add: digit_char_def)
  show ?case
  proof (cases "x div 10 = 0")
    case True
    then have "unat x < 10" using d(2) by (metis div_eq_0_iff unat_eq_0 zero_neq_numeral)
    then show ?thesis using 1(2) True c d(1)
      by (simp add: int_digits.simps [of x] int_digits.simps [of 0] to_string_nat_def to_digits.simps [of 10 "unat x"])
  next
    case False
    then have n: "\<not> unat x < 10" using d(2) by (metis div_less unat_eq_0)
    have "rev (int_digits x) = to_string_nat (unat x div 10) @ [digit_char (unat x mod 10)]"
      using 1(1) [OF 1(2) False] 1(2) c d by (simp add: int_digits.simps [of x])
    then show ?thesis using n by (simp add: to_string_nat_def to_digits.simps [of 10 "unat x"])
  qed
qed

definition int64 :: "int \<Rightarrow> bool" where
  "int64 v \<longleftrightarrow> - (2 ^ 63) \<le> v \<and> v < 2 ^ 63"

lemma magnitude:
  assumes "int64 v"
  shows "unat (if v < 0 then NOT (word_of_int v) + 1 else word_of_int v :: u64) = nat \<bar>v\<bar>"
proof -
  have "NOT (word_of_int v) + 1 = (word_of_int (- v) :: u64)"
    by (simp add: minus_eq_not_plus_1 [symmetric])
  moreover have "unat (word_of_int (\<bar>v\<bar>) :: u64) = nat \<bar>v\<bar>"
    using assms by (auto simp: int64_def unat_eq_nat_uint uint_word_of_int intro!: arg_cong [of _ _ nat] mod_pos_pos_trivial)
  ultimately show ?thesis by auto
qed

lemma digits_fit: "length (int_digits x) \<le> 20"
proof (cases "x = 0")
  case False
  have "unat x < 10 ^ 20" using unsigned_less [of x, where ?'a = nat] by simp
  then have "length (to_string_nat (unat x)) \<le> 20" unfolding to_string_nat_def length_map by (intro length_to_digits) auto
  then show ?thesis using int_digits_rev [OF False] by (metis length_rev)
qed (simp add: int_digits.simps)

lemma appends_int: "int64 v \<Longrightarrow> appends (writeInt v) (to_string v)"
proof -
  assume v: "int64 v"
  show ?thesis
  proof (cases "v = 0")
    case True
    have "to_string 0 = ''0''" by code_simp
    then show ?thesis using True appends_put(1) [of "CHR ''0''"] by (simp add: writeInt_def [abs_def])
  next
    case False
    define x where "x = (if v < 0 then NOT (word_of_int v) + 1 else word_of_int v :: u64)"
    have m: "unat x = nat \<bar>v\<bar>" unfolding x_def by (rule magnitude [OF v])
    then have nz: "x \<noteq> 0" using False by auto
    let ?t = "(if v < 0 then ''-'' else []) @ rev (int_digits x)"
    have t: "?t = to_string v" using int_digits_rev [OF nz] m by (auto simp: to_string_def)
    have "writeInt v = (\<lambda>w. raw_store ?t (ensure (length (int_digits x) + 1) w))"
      using False digits_fit [of x] by (intro ext) (simp add: writeInt_def Let_def x_def [symmetric])
    moreover have "appends (\<lambda>w. raw_store ?t (ensure (length (int_digits x) + 1) w)) ?t" by (rule appends_store) simp
    ultimately show ?thesis using t by simp
  qed
qed


section \<open>Strings\<close>

lemma escape_length: "length (escape_char c) \<le> 6" "escape_char c \<noteq> []"
  by (simp_all add: escape_char_def)

definition string_text :: "string \<Rightarrow> string" where
  "string_text s = [CHR 0x22] @ concat (map escape_char s) @ [CHR 0x22]"

lemma appends_escaped: "appends (writeEscaped s) (string_text s)"
proof -
  have "length (concat (map escape_char s)) \<le> length s * 6"
    by (induction s) (use escape_length(1) in \<open>auto intro: order_trans add_mono\<close>)
  then show ?thesis unfolding writeEscaped_def [abs_def] string_text_def by (intro appends_store) simp
qed

text \<open>A reader for JSON string literals: after the opening quote, the string and what follows the closing quote.\<close>

definition hex_val :: "char \<Rightarrow> nat option" where
  "hex_val c = (if is_digit c then Some (ord c - 48) else if 97 \<le> ord c \<and> ord c \<le> 102 then Some (ord c - 87) else None)"

definition read_unicode :: "string \<Rightarrow> (char \<times> string) option" where
  "read_unicode t =
     (case t of
        x # y # a # b # u \<Rightarrow>
          (case (hex_val a, hex_val b) of
             (Some p, Some q) \<Rightarrow> if x = CHR ''0'' \<and> y = CHR ''0'' then Some (char_of (p * 16 + q), u) else None
           | _ \<Rightarrow> None)
      | _ \<Rightarrow> None)"

definition read_escape :: "string \<Rightarrow> (char \<times> string) option" where
  "read_escape s =
     (case s of
        [] \<Rightarrow> None
      | c # t \<Rightarrow>
          if c = CHR ''u'' then read_unicode t
          else if c = CHR 0x22 \<or> c = CHR 0x5C \<or> c = CHR ''/'' then Some (c, t)
          else if c = CHR ''b'' then Some (CHR 0x08, t) else if c = CHR ''f'' then Some (CHR 0x0C, t)
          else if c = CHR ''n'' then Some (CHR 0x0A, t) else if c = CHR ''r'' then Some (CHR 0x0D, t)
          else if c = CHR ''t'' then Some (CHR 0x09, t) else None)"

lemma read_escape_shorter: "read_escape s = Some (c, t) \<Longrightarrow> length t < length s"
  by (auto simp: read_escape_def read_unicode_def split: option.splits if_splits list.splits)

function read_chars :: "string \<Rightarrow> (string \<times> string) option" where
  "read_chars s =
     (case s of
        [] \<Rightarrow> None
      | c # t \<Rightarrow>
          if c = CHR 0x22 then Some ([], t)
          else if c = CHR 0x5C then
            (case read_escape t of None \<Rightarrow> None | Some (d, u) \<Rightarrow> map_option (apfst ((#) d)) (read_chars u))
          else if ord c < 32 then None
          else map_option (apfst ((#) c)) (read_chars t))"
  by pat_completeness auto

termination
  by (relation "measure length") (auto dest: read_escape_shorter)

declare read_chars.simps [simp del]


lemma hex_val_digit: "d < 16 \<Longrightarrow> hex_val (digit_char d) = Some d"
  by (simp add: hex_val_def is_digit_def ord_digit_char)

lemma read_escaped: "read_chars (escape_char c @ t) = map_option (apfst ((#) c)) (read_chars t)"
proof -
  have u: "read_chars (CHR 0x5C # x # y) = (case read_escape (x # y) of None \<Rightarrow> None | Some (d, u) \<Rightarrow> map_option (apfst ((#) d)) (read_chars u))" for x y
    by (simp add: read_chars.simps [of "CHR 0x5C # x # y"])
  have "char_of (ord c div 16 * 16 + ord c mod 16) = c" by (simp only: div_mult_mod_eq) (simp add: ord_def)
  moreover have "ord c div 16 < 16" if "ord c < 32" using that by auto
  ultimately have h: "read_chars (CHR 0x5C # ''u00'' @ [digit_char (ord c div 16), digit_char (ord c mod 16)] @ t) = map_option (apfst ((#) c)) (read_chars t)"
    if "ord c < 32" using that hex_val_digit [of "ord c div 16"] hex_val_digit [of "ord c mod 16"] by (simp add: u read_escape_def read_unicode_def)
  consider "c = CHR 0x22" | "c = CHR 0x5C" | "c = CHR 0x08" | "c = CHR 0x0C" | "c = CHR 0x0A" | "c = CHR 0x0D" | "c = CHR 0x09"
    | (ctrl) "escape_char c = CHR 0x5C # ''u00'' @ [digit_char (ord c div 16), digit_char (ord c mod 16)]" "ord c < 32"
    | (plain) "escape_char c = [c]" "\<not> ord c < 32" "c \<noteq> CHR 0x22" "c \<noteq> CHR 0x5C"
    unfolding escape_char_def by presburger
  then show ?thesis
  proof cases
    case ctrl
    then show ?thesis using h [OF ctrl(2)] by (simp only: append.simps append_assoc)
  next
    case plain
    then show ?thesis by (simp add: read_chars.simps [of "c # t"])
  qed (simp_all add: escape_char_def u read_escape_def)
qed

lemma read_string_text: "read_chars (concat (map escape_char s) @ CHR 0x22 # rest) = Some (s, rest)"
proof (induction s)
  case Nil
  show ?case by (simp add: read_chars.simps [of "CHR 0x22 # rest"])
qed (simp add: read_escaped)


section \<open>Doubles\<close>

text \<open>
  The documented form of \<open>std::to_chars\<close> in scientific notation: one digit, the rest after a point,
  \<open>e\<close>, a sign and the exponent's digits. The shortest text of a double has at most 17 digits.
\<close>

definition sci_text :: "char \<Rightarrow> string \<Rightarrow> bool \<Rightarrow> string \<Rightarrow> string" where
  "sci_text d ds neg xs = [d] @ (if ds = [] then [] else CHR ''.'' # ds) @ CHR ''e'' # (if neg then CHR ''-'' else CHR ''+'') # xs"

definition sci_ok :: "string \<Rightarrow> bool" where
  "sci_ok t \<longleftrightarrow> (\<exists>d ds neg xs. t = sci_text d ds neg xs \<and> (\<forall>c \<in> set (d # ds @ xs). is_digit c) \<and> length ds \<le> 16 \<and> xs \<noteq> [] \<and> length xs \<le> 3)"

lemma digit_not_e: "is_digit c \<Longrightarrow> c \<noteq> CHR ''e''" "is_digit c \<Longrightarrow> c \<noteq> CHR ''.''" "is_digit c \<Longrightarrow> c \<noteq> CHR ''-''"
  by (auto simp: is_digit_def ord_def)

lemma fold_dec: "(\<forall>c \<in> set xs. is_digit c) \<Longrightarrow> foldl (\<lambda>a c. a * 10 + (int (ord c) - 48)) 0 xs = int (dec_val xs)"
proof (induction xs rule: rev_induct)
  case (snoc c xs)
  then have "int (ord c - 48) = int (ord c) - 48" by (simp add: is_digit_def)
  then show ?case using snoc by (simp add: dec_val_def)
qed (simp add: dec_val_def)

lemma parse_sci_text:
  assumes "\<forall>c \<in> set (d # ds @ xs). is_digit c"
  shows "parse_sci (sci_text d ds neg xs) = Some (d # ds, if neg then - int (dec_val xs) else int (dec_val xs))"
proof -
  have "takeWhile (\<lambda>c. c \<noteq> CHR ''e'') (ds @ CHR ''e'' # u) = ds" "dropWhile (\<lambda>c. c \<noteq> CHR ''e'') (ds @ CHR ''e'' # u) = CHR ''e'' # u" for u
    using assms digit_not_e by (auto simp: takeWhile_append1 dropWhile_append1 takeWhile_append dropWhile_append)
  moreover have "foldl (\<lambda>a c. a * 10 + (int (ord c) - 48)) 0 xs = int (dec_val xs)" using assms by (intro fold_dec) auto
  ultimately show ?thesis by (simp add: parse_sci_def sci_text_def)
qed

definition double_text :: "string \<Rightarrow> int \<Rightarrow> string" where
  "double_text digits n =
     (let k = int (length digits) in
      if k \<le> n \<and> n \<le> 21 then digits @ replicate (nat (n - k)) (CHR ''0'') @ ''.0''
      else if 0 < n \<and> n \<le> 21 then take (nat n) digits @ ''.'' @ drop (nat n) digits
      else if -6 < n \<and> n \<le> 0 then ''0.'' @ replicate (nat (- n)) (CHR ''0'') @ digits
      else [hd digits] @ (if k > 1 then ''.'' @ tl digits else []) @ ''e'' @ (if n \<ge> 1 then ''+'' else ''-'') @ to_string \<bar>n - 1\<bar>)"

lemma appends_digits:
  assumes "digits \<noteq> []" "\<bar>n\<bar> \<le> 2000"
  shows "appends (writeDigits digits n) (double_text digits n)"
proof -
  have i: "int64 (if n - 1 \<ge> 0 then n - 1 else - (n - 1))" using assms(2) by (auto simp: int64_def)
  have t: "to_string (if n - 1 \<ge> 0 then n - 1 else - (n - 1)) = to_string \<bar>n - 1\<bar>" by (auto intro: arg_cong [of _ _ to_string])
  have c: "appends (\<lambda>w. if b then f w else Some w) (if b then t else [])" if "appends f t" for b f t
    using that appends_Some by (cases b) simp_all
  have "appends (\<lambda>w. do { w \<leftarrow> putb (hd digits) w;
             w \<leftarrow> (if int (length digits) > 1 then do { w \<leftarrow> putb (CHR ''.'') w; puts (tl digits) w } else Some w);
             w \<leftarrow> putb (CHR ''e'') w;
             w \<leftarrow> putb (if n - 1 \<ge> 0 then CHR ''+'' else CHR ''-'') w;
             writeInt (if n - 1 \<ge> 0 then n - 1 else - (n - 1)) w })
     ([hd digits] @ (if int (length digits) > 1 then [CHR ''.''] @ tl digits else []) @ [CHR ''e''] @ [if n - 1 \<ge> 0 then CHR ''+'' else CHR ''-''] @
        to_string (if n - 1 \<ge> 0 then n - 1 else - (n - 1)))"
    by (intro appends_bind c appends_rules appends_int [OF i])
  moreover have "appends (\<lambda>w. do { w \<leftarrow> puts digits w; w \<leftarrow> puts (replicate (nat (n - int (length digits))) (CHR ''0'')) w; putN ''.0'' w })
      (digits @ replicate (nat (n - int (length digits))) (CHR ''0'') @ ''.0'')"
    "appends (\<lambda>w. do { w \<leftarrow> puts (take (nat n) digits) w; w \<leftarrow> putb (CHR ''.'') w; puts (drop (nat n) digits) w }) (take (nat n) digits @ ''.'' @ drop (nat n) digits)"
    "appends (\<lambda>w. do { w \<leftarrow> putN ''0.'' w; w \<leftarrow> puts (replicate (nat (- n)) (CHR ''0'')) w; puts digits w }) (''0.'' @ replicate (nat (- n)) (CHR ''0'') @ digits)"
    by (intro appends_bind appends_rules)+
  ultimately show ?thesis unfolding writeDigits_def [abs_def] double_text_def Let_def t by (auto split: if_splits)
qed

definition double_digits :: "(u64 \<Rightarrow> string) \<Rightarrow> u64 \<Rightarrow> string" where
  "double_digits to_chars b =
     (if abs_bits b = 0 then ''0.0''
      else case parse_sci (to_chars (abs_bits b)) of None \<Rightarrow> [] | Some (digits, e) \<Rightarrow> double_text digits (e + 1))"

definition real_text :: "(u64 \<Rightarrow> string) \<Rightarrow> u64 \<Rightarrow> string" where
  "real_text to_chars b = (if bit b 63 then ''-'' else []) @ double_digits to_chars b"

lemma appends_double:
  assumes "abs_bits b \<noteq> 0 \<Longrightarrow> sci_ok (to_chars (abs_bits b))"
  shows "appends (writeDouble to_chars b) (real_text to_chars b)"
proof (cases "abs_bits b = 0")
  case True
  have "appends (\<lambda>w. do { w \<leftarrow> puts (if bit b 63 then ''-'' else []) w; putN ''0.0'' w }) ((if bit b 63 then ''-'' else []) @ ''0.0'')"
    by (intro appends_bind appends_rules)
  then show ?thesis using True by (simp add: writeDouble_def [abs_def] real_text_def double_digits_def)
next
  case False
  from assms [OF this] obtain d ds neg xs where t: "to_chars (abs_bits b) = sci_text d ds neg xs" "\<forall>c \<in> set (d # ds @ xs). is_digit c"
    "length ds \<le> 16" "length xs \<le> 3" by (auto simp: sci_ok_def)
  let ?e = "if neg then - int (dec_val xs) else int (dec_val xs)"
  have p: "parse_sci (to_chars (abs_bits b)) = Some (d # ds, ?e)" using parse_sci_text [OF t(2)] t(1) by simp
  have "dec_val xs < 10 ^ length xs" using t(2) by (intro dec_val_less) auto
  moreover have "(10 :: nat) ^ length xs \<le> 10 ^ 3" by (rule power_increasing [OF t(4)]) simp
  ultimately have "\<bar>?e + 1\<bar> \<le> 2000" by auto
  then have "appends (writeDigits (d # ds) (?e + 1)) (double_text (d # ds) (?e + 1))" by (intro appends_digits) auto
  then have "appends (\<lambda>w. do { w \<leftarrow> puts (if bit b 63 then ''-'' else []) (ensure 40 w); writeDigits (d # ds) (?e + 1) w })
      ((if bit b 63 then ''-'' else []) @ double_text (d # ds) (?e + 1))"
    by (intro appends_bind appends_ensure appends_rules)
  then show ?thesis using False p t(3) by (simp add: writeDouble_def [abs_def] real_text_def double_digits_def Let_def)
qed


section \<open>Values and containers\<close>

text \<open>
  A call that writes a value: a comma first where one is due, and the next value needs one. The contract
  also covers the keys and the opening brackets, which leave no comma due.
\<close>

definition token_call :: "(NitroJsonWriter \<Rightarrow> NitroJsonWriter option) \<Rightarrow> string \<Rightarrow> bool \<Rightarrow> bool" where
  "token_call f t due \<longleftrightarrow> (\<forall>w. jw_ok w \<longrightarrow> (\<exists>w'. f w = Some w' \<and> jw_ok w' \<and>
     jw_data w' = jw_data w @ (if needComma w then '','' else []) @ t \<and> needComma w' = due))"

lemma token_intro:
  assumes "appends f t"
  shows "token_call (\<lambda>w. do { w \<leftarrow> sep w; w \<leftarrow> f w; Some (w\<lparr>needComma := due\<rparr>) }) t due"
  unfolding token_call_def
proof (intro allI impI)
  fix w assume w: "jw_ok w"
  obtain w1 where w1: "sep w = Some w1" "jw_ok w1" "jw_data w1 = jw_data w @ (if needComma w then '','' else [])"
    using w appends_put(1) [of "CHR '',''"] by (auto simp: appends_def sep_def)
  moreover obtain w2 where "f w1 = Some w2" "jw_ok w2" "jw_data w2 = jw_data w1 @ t" using assms w1(2) by (auto simp: appends_def)
  ultimately show "\<exists>w'. do { w \<leftarrow> sep w; w \<leftarrow> f w; Some (w\<lparr>needComma := due\<rparr>) } = Some w' \<and> jw_ok w' \<and>
      jw_data w' = jw_data w @ (if needComma w then '','' else []) @ t \<and> needComma w' = due"
    by (simp add: jw_ok_def)
qed

lemma token_calls:
  "token_call jw_begin_object [CHR 0x7B] False" "token_call jw_begin_array ''['' False" "token_call (jw_key k) (string_text k @ '':'') False"
  "int64 v \<Longrightarrow> token_call (jw_int v) (to_string v) True" "token_call (jw_string s) (string_text s) True" "token_call (jw_bool b) (if b then ''true'' else ''false'') True"
  "token_call jw_null ''null'' True" "token_call (jw_raw s) s True"
  "(abs_bits b64 \<noteq> 0 \<Longrightarrow> sci_ok (tc (abs_bits b64))) \<Longrightarrow> token_call (jw_double tc b64) (real_text tc b64) True"
proof -
  have "token_call (\<lambda>w. do { w \<leftarrow> sep w; w \<leftarrow> do { w \<leftarrow> writeEscaped k w; putb (CHR '':'') w }; Some (w\<lparr>needComma := False\<rparr>) }) (string_text k @ '':'') False"
    by (intro token_intro appends_bind appends_rules appends_escaped)
  then show "token_call (jw_key k) (string_text k @ '':'') False" by (simp add: jw_key_def [abs_def])
qed (auto simp: jw_begin_object_def [abs_def] jw_begin_array_def [abs_def] jw_int_def [abs_def] jw_string_def [abs_def] jw_bool_def [abs_def]
    jw_null_def [abs_def] jw_raw_def [abs_def] jw_double_def [abs_def] after_value_def [abs_def] intro!: token_intro appends_put appends_int appends_escaped appends_double)

lemma end_calls:
  assumes "jw_ok w"
  shows "\<exists>w'. jw_end_object w = Some w' \<and> jw_ok w' \<and> jw_data w' = jw_data w @ [CHR 0x7D] \<and> needComma w'"
    "\<exists>w'. jw_end_array w = Some w' \<and> jw_ok w' \<and> jw_data w' = jw_data w @ '']'' \<and> needComma w'"
  using assms appends_put(1) [of "CHR 0x7D"] appends_put(1) [of "CHR '']''"]
  by (fastforce simp: jw_end_object_def jw_end_array_def after_value_def appends_def jw_ok_def)+

text \<open>A document, the calls that write it, and its text.\<close>

datatype json = JNull | JBool bool | JInt int | JDouble u64 | JString string | JArray "json list" | JObject "(string \<times> json) list"

fun jw_doc :: "(u64 \<Rightarrow> string) \<Rightarrow> json \<Rightarrow> NitroJsonWriter \<Rightarrow> NitroJsonWriter option"
  and jw_items :: "(u64 \<Rightarrow> string) \<Rightarrow> json list \<Rightarrow> NitroJsonWriter \<Rightarrow> NitroJsonWriter option"
  and jw_fields :: "(u64 \<Rightarrow> string) \<Rightarrow> (string \<times> json) list \<Rightarrow> NitroJsonWriter \<Rightarrow> NitroJsonWriter option" where
  "jw_doc tc JNull w = jw_null w"
| "jw_doc tc (JBool b) w = jw_bool b w"
| "jw_doc tc (JInt v) w = jw_int v w"
| "jw_doc tc (JDouble b) w = jw_double tc b w"
| "jw_doc tc (JString s) w = jw_string s w"
| "jw_doc tc (JArray xs) w = do { w \<leftarrow> jw_begin_array w; w \<leftarrow> jw_items tc xs w; jw_end_array w }"
| "jw_doc tc (JObject kvs) w = do { w \<leftarrow> jw_begin_object w; w \<leftarrow> jw_fields tc kvs w; jw_end_object w }"
| "jw_items tc [] w = Some w"
| "jw_items tc (x # xs) w = do { w \<leftarrow> jw_doc tc x w; jw_items tc xs w }"
| "jw_fields tc [] w = Some w"
| "jw_fields tc ((k, v) # kvs) w = do { w \<leftarrow> jw_key k w; w \<leftarrow> jw_doc tc v w; jw_fields tc kvs w }"

fun commas :: "string list \<Rightarrow> string" where
  "commas [] = []"
| "commas [t] = t"
| "commas (t # ts) = t @ '','' @ commas ts"

fun json_text :: "(u64 \<Rightarrow> string) \<Rightarrow> json \<Rightarrow> string" where
  "json_text tc JNull = ''null''"
| "json_text tc (JBool b) = (if b then ''true'' else ''false'')"
| "json_text tc (JInt v) = to_string v"
| "json_text tc (JDouble b) = real_text tc b"
| "json_text tc (JString s) = string_text s"
| "json_text tc (JArray xs) = ''['' @ commas (map (json_text tc) xs) @ '']''"
| "json_text tc (JObject kvs) = [CHR 0x7B] @ commas (map (\<lambda>(k, v). string_text k @ '':'' @ json_text tc v) kvs) @ [CHR 0x7D]"

text \<open>Integers are \<open>int64_t\<close>, and \<open>to_chars\<close> keeps its contract on the doubles of the document.\<close>

fun json_ok :: "(u64 \<Rightarrow> string) \<Rightarrow> json \<Rightarrow> bool" where
  "json_ok tc (JInt v) = int64 v"
| "json_ok tc (JDouble b) = (abs_bits b \<noteq> 0 \<longrightarrow> sci_ok (tc (abs_bits b)))"
| "json_ok tc (JArray xs) = (\<forall>x \<in> set xs. json_ok tc x)"
| "json_ok tc (JObject kvs) = (\<forall>kv \<in> set kvs. json_ok tc (snd kv))"
| "json_ok tc _ = True"


lemma tokenE:
  assumes "token_call f t due" "jw_ok w"
  obtains w' where "f w = Some w'" "jw_ok w'" "jw_data w' = jw_data w @ (if needComma w then '','' else []) @ t" "needComma w' = due"
  using assms by (auto simp: token_call_def)

lemma commas_Cons: "commas (t # ts) = t @ (if ts = [] then [] else '','' @ commas ts)"
  by (cases ts) auto

text \<open>Items written one after the other are separated by commas, the first by the one that was due.\<close>

lemma items_text:
  assumes "\<forall>x \<in> set xs. token_call (jw_doc tc x) (json_text tc x) True" "jw_ok w"
  shows "\<exists>w'. jw_items tc xs w = Some w' \<and> jw_ok w' \<and>
    jw_data w' = jw_data w @ (if needComma w \<and> xs \<noteq> [] then '','' else []) @ commas (map (json_text tc) xs)"
  using assms
proof (induction xs arbitrary: w)
  case (Cons x xs)
  obtain w1 where w1: "jw_doc tc x w = Some w1" "jw_ok w1" "jw_data w1 = jw_data w @ (if needComma w then '','' else []) @ json_text tc x" "needComma w1"
    using tokenE [of "jw_doc tc x" "json_text tc x" True w] Cons.prems by auto
  then show ?case using Cons.IH [of w1] Cons.prems(1) by (auto simp: commas_Cons)
qed simp

lemma fields_text:
  assumes "\<forall>kv \<in> set kvs. token_call (jw_doc tc (snd kv)) (json_text tc (snd kv)) True" "jw_ok w"
  shows "\<exists>w'. jw_fields tc kvs w = Some w' \<and> jw_ok w' \<and>
    jw_data w' = jw_data w @ (if needComma w \<and> kvs \<noteq> [] then '','' else []) @ commas (map (\<lambda>(k, v). string_text k @ '':'' @ json_text tc v) kvs)"
  using assms
proof (induction kvs arbitrary: w)
  case (Cons kv kvs)
  obtain k v where kv: "kv = (k, v)" by fastforce
  obtain w1 where w1: "jw_key k w = Some w1" "jw_ok w1" "jw_data w1 = jw_data w @ (if needComma w then '','' else []) @ string_text k @ '':''" "\<not> needComma w1"
    using tokenE [OF token_calls(3) Cons.prems(2)] by metis
  obtain w2 where w2: "jw_doc tc v w1 = Some w2" "jw_ok w2" "jw_data w2 = jw_data w1 @ json_text tc v" "needComma w2"
    using tokenE [of "jw_doc tc v" "json_text tc v" True w1] Cons.prems kv w1 by auto
  show ?case using Cons.IH [of w2] Cons.prems(1) w1 w2 kv by (auto simp: commas_Cons)
qed simp

lemma doc_calls:
  "jw_doc tc JNull = jw_null" "jw_doc tc (JBool b) = jw_bool b" "jw_doc tc (JInt v) = jw_int v" "jw_doc tc (JDouble d) = jw_double tc d"
  "jw_doc tc (JString s) = jw_string s"
  by (simp_all add: fun_eq_iff)

lemma doc_text: "json_ok tc j \<Longrightarrow> token_call (jw_doc tc j) (json_text tc j) True"
proof (induction j)
  case (JArray xs)
  then have t: "\<forall>x \<in> set xs. token_call (jw_doc tc x) (json_text tc x) True" by simp
  show ?case unfolding token_call_def
  proof (intro allI impI)
    fix w assume "jw_ok w"
    then obtain w1 where w1: "jw_begin_array w = Some w1" "jw_ok w1" "jw_data w1 = jw_data w @ (if needComma w then '','' else []) @ ''[''" "\<not> needComma w1"
      using tokenE [OF token_calls(2)] by metis
    obtain w2 where w2: "jw_items tc xs w1 = Some w2" "jw_ok w2" "jw_data w2 = jw_data w1 @ commas (map (json_text tc) xs)"
      using items_text [OF t w1(2)] w1(4) by auto
    show "\<exists>w'. jw_doc tc (JArray xs) w = Some w' \<and> jw_ok w' \<and>
        jw_data w' = jw_data w @ (if needComma w then '','' else []) @ json_text tc (JArray xs) \<and> needComma w' = True"
      using end_calls(2) [OF w2(2)] w1 w2 by auto
  qed
next
  case (JObject kvs)
  then have t: "\<forall>kv \<in> set kvs. token_call (jw_doc tc (snd kv)) (json_text tc (snd kv)) True" by (auto simp: snds.simps)
  show ?case unfolding token_call_def
  proof (intro allI impI)
    fix w assume "jw_ok w"
    then obtain w1 where w1: "jw_begin_object w = Some w1" "jw_ok w1" "jw_data w1 = jw_data w @ (if needComma w then '','' else []) @ [CHR 0x7B]" "\<not> needComma w1"
      using tokenE [OF token_calls(1)] by metis
    obtain w2 where w2: "jw_fields tc kvs w1 = Some w2" "jw_ok w2"
        "jw_data w2 = jw_data w1 @ commas (map (\<lambda>(k, v). string_text k @ '':'' @ json_text tc v) kvs)"
      using fields_text [OF t w1(2)] w1(4) by auto
    show "\<exists>w'. jw_doc tc (JObject kvs) w = Some w' \<and> jw_ok w' \<and>
        jw_data w' = jw_data w @ (if needComma w then '','' else []) @ json_text tc (JObject kvs) \<and> needComma w' = True"
      using end_calls(1) [OF w2(2)] w1 w2 by auto
  qed
qed (simp_all add: doc_calls token_calls)


section \<open>The record template\<close>

definition cell_text :: "(u64 \<Rightarrow> string) \<Rightarrow> nat \<Rightarrow> column \<Rightarrow> string" where
  "cell_text tc row c = (case c of IntCol xs \<Rightarrow> to_string (xs ! row) | DoubleCol xs \<Rightarrow> real_text tc (xs ! row))"

fun row_text :: "(u64 \<Rightarrow> string) \<Rightarrow> nat \<Rightarrow> string list \<Rightarrow> column list \<Rightarrow> string" where
  "row_text tc row (s # segs) (c # cols) = s @ cell_text tc row c @ row_text tc row segs cols"
| "row_text tc row (s # segs) [] = s"
| "row_text tc row [] cols = []"

text \<open>The arrays hold \<open>n\<close> values each, of the types the writer takes.\<close>

definition column_ok :: "(u64 \<Rightarrow> string) \<Rightarrow> nat \<Rightarrow> column \<Rightarrow> bool" where
  "column_ok tc n c = (case c of
     IntCol xs \<Rightarrow> n \<le> length xs \<and> (\<forall>v \<in> set xs. int64 v)
   | DoubleCol xs \<Rightarrow> n \<le> length xs \<and> (\<forall>b \<in> set xs. abs_bits b \<noteq> 0 \<longrightarrow> sci_ok (tc (abs_bits b))))"

lemma appends_cell: "column_ok tc n c \<Longrightarrow> row < n \<Longrightarrow> appends (write_cell tc row c) (cell_text tc row c)"
  by (cases c) (auto simp: column_ok_def write_cell_def [abs_def] cell_text_def intro!: appends_int appends_double)

lemma appends_row:
  "(\<forall>c \<in> set cols. column_ok tc n c) \<Longrightarrow> row < n \<Longrightarrow> length segs = length cols + 1 \<Longrightarrow>
   appends (write_row tc row segs cols) (row_text tc row segs cols)"
proof (induction tc row segs cols rule: row_text.induct)
  case (1 tc row s segs c cols)
  have "appends (\<lambda>w. do { w \<leftarrow> putN s w; w \<leftarrow> write_cell tc row c w; write_row tc row segs cols w }) (s @ cell_text tc row c @ row_text tc row segs cols)"
    using 1 by (intro appends_bind appends_rules appends_cell [of tc n]) auto
  then show ?case by simp
next
  case (2 tc row s segs)
  show ?case using appends_put(2) [of s] by (simp add: fun_eq_iff [symmetric] appends_def)
qed simp

definition row_sep :: "nat \<Rightarrow> string" where
  "row_sep row = (if row \<noteq> 0 then '','' else [])"

lemma appends_rows:
  assumes "\<forall>c \<in> set cols. column_ok tc n c" "length segs = length cols + 1" "\<forall>row \<in> set rows. row < n"
  shows "appends (write_rows tc rows segs cols) (concat (map (\<lambda>row. row_sep row @ row_text tc row segs cols) rows))"
  using assms(3)
proof (induction rows)
  case (Cons row rows)
  have "appends (\<lambda>w. if row \<noteq> 0 then putb (CHR '','') w else Some w) (row_sep row)"
    using appends_put(1) appends_Some by (simp add: row_sep_def)
  then have "appends (\<lambda>w. do { w \<leftarrow> (if row \<noteq> 0 then putb (CHR '','') w else Some w); w \<leftarrow> write_row tc row segs cols w; write_rows tc rows segs cols w })
      (row_sep row @ row_text tc row segs cols @ concat (map (\<lambda>row. row_sep row @ row_text tc row segs cols) rows))"
    using Cons assms(1,2) by (intro appends_bind appends_row [of cols tc n]) auto
  then show ?case by simp
qed (simp add: appends_def)

lemma rows_commas: "concat (map (\<lambda>row. row_sep row @ f row) [0..<n]) = commas (map f [0..<n])"
proof -
  have s: "commas (ts @ [t]) = commas ts @ (if ts = [] then [] else '','') @ t" for t and ts :: "string list"
    by (induction ts rule: commas.induct) (auto simp: commas_Cons)
  show ?thesis by (induction n) (auto simp: s row_sep_def)
qed

lemma template_text:
  assumes "\<forall>c \<in> set cols. column_ok tc n c" "length segs = length cols + 1"
  shows "token_call (jw_emit_template tc n segs cols) (''['' @ commas (map (\<lambda>row. row_text tc row segs cols) [0..<n]) @ '']'') True"
proof -
  have "token_call (\<lambda>w. do { w \<leftarrow> sep w; w \<leftarrow> do { w \<leftarrow> putb (CHR ''['') w; w \<leftarrow> write_rows tc [0..<n] segs cols w; putb (CHR '']'') w };
        Some (w\<lparr>needComma := True\<rparr>) }) (''['' @ concat (map (\<lambda>row. row_sep row @ row_text tc row segs cols) [0..<n]) @ '']'') True"
    using assms by (intro token_intro appends_bind appends_rules appends_rows) auto
  then show ?thesis by (simp add: jw_emit_template_def [abs_def] after_value_def [abs_def] rows_commas)
qed


section \<open>The value of a number's text\<close>

text \<open>What a decimal text denotes: the digits around the point, scaled by the exponent after \<open>e\<close>.\<close>

definition num_value :: "string \<Rightarrow> rat" where
  "num_value t =
     (let m = takeWhile (\<lambda>c. c \<noteq> CHR ''e'') t; x = drop 2 (dropWhile (\<lambda>c. c \<noteq> CHR ''e'') t);
          sg = (if CHR ''-'' \<in> set t then -1 else 1 :: int);
          ip = takeWhile (\<lambda>c. c \<noteq> CHR ''.'') m; fp = drop 1 (dropWhile (\<lambda>c. c \<noteq> CHR ''.'') m)
      in of_nat (dec_val (ip @ fp)) * 10 powi (sg * int (dec_val x) - int (length fp)))"

lemma dec_val_append: "dec_val (a @ b) = dec_val a * 10 ^ length b + dec_val b"
proof (induction b rule: rev_induct)
  case (snoc c b)
  have "dec_val (x @ [c]) = dec_val x * 10 + (ord c - 48)" for x by (simp add: dec_val_def)
  from this [of "a @ b"] this [of b] show ?case using snoc by (simp add: algebra_simps)
qed (simp add: dec_val_def)

lemma dec_val_zeros: "dec_val (replicate n (CHR ''0'')) = 0" "dec_val ''0'' = 0" "dec_val [] = 0"
proof -
  show z: "dec_val ''0'' = 0" by code_simp
  show e: "dec_val [] = 0" by (simp add: dec_val_def)
  show "dec_val (replicate n (CHR ''0'')) = 0"
  proof (induction n)
    case (Suc n)
    then show ?case using dec_val_append [of "''0''" "replicate n (CHR ''0'')"] z by simp
  qed (simp add: e)
qed

text \<open>The value from the parts: mantissa, and the text from \<open>e\<close> on.\<close>

lemma num_parts:
  assumes "\<forall>c \<in> set (a @ b). is_digit c" "p = (if b = [] then [] else CHR ''.'' # b) \<or> p = CHR ''.'' # b" "u = [] \<or> (\<exists>s x. u = CHR ''e'' # s # x)"
  shows "num_value (a @ p @ u) =
    of_nat (dec_val (a @ b)) * 10 powi ((if CHR ''-'' \<in> set u then -1 else 1) * int (dec_val (drop 2 u)) - int (length b))"
proof -
  have n: "\<forall>c \<in> set (a @ b). c \<noteq> CHR ''e'' \<and> c \<noteq> CHR ''.'' \<and> c \<noteq> CHR ''-''"
    by (intro ballI conjI digit_not_e bspec [OF assms(1)])
  have "set p \<subseteq> insert (CHR ''.'') (set b)" by (rule disjE [OF assms(2)]) auto
  then have "c \<in> set (a @ b) \<or> c = CHR ''.''" if "c \<in> set (a @ p)" for c using that by auto
  moreover have "CHR ''.'' \<noteq> CHR ''e'' \<and> CHR ''.'' \<noteq> CHR ''-''" by simp
  ultimately have p: "\<forall>c \<in> set (a @ p). c \<noteq> CHR ''e'' \<and> c \<noteq> CHR ''-''" using n by blast
  have "takeWhile (\<lambda>c. c \<noteq> CHR ''e'') ((a @ p) @ u) = (a @ p) @ takeWhile (\<lambda>c. c \<noteq> CHR ''e'') u"
    "dropWhile (\<lambda>c. c \<noteq> CHR ''e'') ((a @ p) @ u) = dropWhile (\<lambda>c. c \<noteq> CHR ''e'') u"
    by (rule takeWhile_append2 dropWhile_append2; use p in blast)+
  then have m: "takeWhile (\<lambda>c. c \<noteq> CHR ''e'') (a @ p @ u) = a @ p" "dropWhile (\<lambda>c. c \<noteq> CHR ''e'') (a @ p @ u) = u"
    using assms(3) by auto
  have "takeWhile (\<lambda>c. c \<noteq> CHR ''.'') (a @ p) = a @ takeWhile (\<lambda>c. c \<noteq> CHR ''.'') p" "dropWhile (\<lambda>c. c \<noteq> CHR ''.'') (a @ p) = dropWhile (\<lambda>c. c \<noteq> CHR ''.'') p"
    by (rule takeWhile_append2 dropWhile_append2; use n in force)+
  then have f: "takeWhile (\<lambda>c. c \<noteq> CHR ''.'') (a @ p) = a" "drop 1 (dropWhile (\<lambda>c. c \<noteq> CHR ''.'') (a @ p)) = b"
    using assms(2) by (auto split: if_splits)
  have dash: "CHR ''-'' \<in> set (a @ p @ u) \<longleftrightarrow> CHR ''-'' \<in> set u" using p by auto
  show ?thesis unfolding num_value_def Let_def m f dash by simp
qed

lemma to_string_nonneg: "0 \<le> v \<Longrightarrow> CHR ''-'' \<notin> set (to_string v)" "0 \<le> v \<Longrightarrow> dec_val (to_string v) = nat v"
  using to_string_nat_digits digit_not_e(3) by (auto simp: to_string_def)

text \<open>The layout never changes the value: it is that of the digits with the point after the first \<open>n\<close>.\<close>

lemma double_text_value:
  assumes "digits \<noteq> []" "\<forall>c \<in> set digits. is_digit c"
  shows "num_value (double_text digits n) = of_nat (dec_val digits) * 10 powi (n - int (length digits))"
proof -
  let ?k = "int (length digits)" and ?z = "\<lambda>n. replicate n (CHR ''0'')"
  have z: "\<forall>c \<in> set (?z m). is_digit c" "is_digit (CHR ''0'')" for m by (auto simp: is_digit_def ord_def)
  have pw: "(10 :: rat) ^ m = 10 powi int m" for m by (simp add: power_int_def)
  consider (whole) "?k \<le> n" "n \<le> 21" | (inside) "0 < n" "n < ?k" "n \<le> 21" | (small) "-6 < n" "n \<le> 0"
    | (big) "n > 21 \<or> n \<le> -6" by linarith
  then show ?thesis
  proof cases
    case whole
    have "num_value ((digits @ ?z (nat (n - ?k))) @ (CHR ''.'' # ''0'') @ []) = of_nat (dec_val ((digits @ ?z (nat (n - ?k))) @ ''0'')) * 10 powi (- 1)"
    proof -
      have "\<forall>c \<in> set ((digits @ ?z (nat (n - ?k))) @ ''0''). is_digit c" using assms(2) z(1) [of "nat (n - ?k)"] z(2) by auto
      from num_parts [OF this disjI2 [OF refl] disjI1 [OF refl]] show ?thesis by (simp add: dec_val_zeros)
    qed
    also have "\<dots> = of_nat (dec_val digits) * (10 powi int (nat (n - ?k)))"
      by (simp add: dec_val_append dec_val_zeros pw power_int_minus)
    finally show ?thesis using whole by (simp add: double_text_def)
  next
    case inside
    have "num_value (take (nat n) digits @ (CHR ''.'' # drop (nat n) digits) @ []) = of_nat (dec_val digits) * 10 powi (- int (length digits - nat n))"
      using num_parts [of "take (nat n) digits" "drop (nat n) digits" "CHR ''.'' # drop (nat n) digits" "[]"] assms(2) by (auto simp: dec_val_zeros dest: in_set_takeD in_set_dropD)
    moreover have "- int (length digits - nat n) = n - ?k" using inside by simp
    ultimately show ?thesis using inside by (simp add: double_text_def)
  next
    case small
    have "num_value (''0'' @ (CHR ''.'' # ?z (nat (- n)) @ digits) @ []) = of_nat (dec_val (''0'' @ ?z (nat (- n)) @ digits)) * 10 powi (- int (nat (- n) + length digits))"
    proof -
      have "\<forall>c \<in> set (''0'' @ ?z (nat (- n)) @ digits). is_digit c" using assms(2) z(1) [of "nat (- n)"] z(2) by auto
      from num_parts [OF this disjI2 [OF refl] disjI1 [OF refl]] show ?thesis by (simp add: dec_val_zeros)
    qed
    moreover have "dec_val (''0'' @ ?z (nat (- n)) @ digits) = dec_val digits" by (simp only: dec_val_append) (simp add: dec_val_zeros)
    moreover have "- int (nat (- n) + length digits) = n - ?k" using small by simp
    moreover have "double_text digits n = ''0.'' @ ?z (nat (- n)) @ digits" using small assms(1) by (cases digits) (auto simp: double_text_def Let_def)
    ultimately show ?thesis by simp
  next
    case big
    let ?u = "''e'' @ (if n \<ge> 1 then ''+'' else ''-'') @ to_string \<bar>n - 1\<bar>"
    have "num_value ([hd digits] @ (if tl digits = [] then [] else CHR ''.'' # tl digits) @ ?u) =
        of_nat (dec_val ([hd digits] @ tl digits)) * 10 powi ((if CHR ''-'' \<in> set ?u then -1 else 1) * int (dec_val (drop 2 ?u)) - int (length (tl digits)))"
      using assms by (intro num_parts) (auto dest: list.set_sel)
    moreover have "(if CHR ''-'' \<in> set ?u then -1 else 1) * int (dec_val (drop 2 ?u)) - int (length (tl digits)) = n - ?k"
      using big assms(1) to_string_nonneg [of "\<bar>n - 1\<bar>"] by (cases digits) (auto split: if_splits)
    moreover have "double_text digits n = [hd digits] @ (if tl digits = [] then [] else CHR ''.'' # tl digits) @ ?u"
      using big assms(1) by (cases digits; cases "tl digits") (auto simp: double_text_def Let_def)
    ultimately show ?thesis using assms(1) by simp
  qed
qed


section \<open>Properties\<close>

text \<open>Any sequence of calls on one writer.\<close>

datatype jw_call = CReset | CBeginObject | CEndObject | CBeginArray | CEndArray | CKey string | CInt int | CDouble u64 | CString string
  | CBool bool | CNull | CRaw string | CTemplate nat "string list" "column list"

fun run_call :: "(u64 \<Rightarrow> string) \<Rightarrow> jw_call \<Rightarrow> NitroJsonWriter \<Rightarrow> NitroJsonWriter option" where
  "run_call tc CReset w = Some (jw_reset w)"
| "run_call tc CBeginObject w = jw_begin_object w"
| "run_call tc CEndObject w = jw_end_object w"
| "run_call tc CBeginArray w = jw_begin_array w"
| "run_call tc CEndArray w = jw_end_array w"
| "run_call tc (CKey k) w = jw_key k w"
| "run_call tc (CInt v) w = jw_int v w"
| "run_call tc (CDouble b) w = jw_double tc b w"
| "run_call tc (CString s) w = jw_string s w"
| "run_call tc (CBool b) w = jw_bool b w"
| "run_call tc CNull w = jw_null w"
| "run_call tc (CRaw s) w = jw_raw s w"
| "run_call tc (CTemplate n segs cols) w = jw_emit_template tc n segs cols w"

fun run_calls :: "(u64 \<Rightarrow> string) \<Rightarrow> jw_call list \<Rightarrow> NitroJsonWriter \<Rightarrow> NitroJsonWriter option" where
  "run_calls tc [] w = Some w"
| "run_calls tc (c # cs) w = do { w \<leftarrow> run_call tc c w; run_calls tc cs w }"

fun call_ok :: "(u64 \<Rightarrow> string) \<Rightarrow> jw_call \<Rightarrow> bool" where
  "call_ok tc (CInt v) = int64 v"
| "call_ok tc (CDouble b) = (abs_bits b \<noteq> 0 \<longrightarrow> sci_ok (tc (abs_bits b)))"
| "call_ok tc (CTemplate n segs cols) = (length segs = length cols + 1 \<and> (\<forall>c \<in> set cols. column_ok tc n c))"
| "call_ok tc _ = True"

lemma new_ok: "jw_ok jw_new"
  using grow_cap_ge [of 256 256] by (simp add: jw_new_def grow_def jw_ok_def)

lemma run_call_ok:
  assumes "call_ok tc c" "jw_ok w"
  shows "\<exists>w'. run_call tc c w = Some w' \<and> jw_ok w'"
proof -
  have t: "\<exists>w'. f w = Some w' \<and> jw_ok w'" if "token_call f s due" for f s due using that assms(2) by (auto simp: token_call_def)
  have r: "jw_ok (jw_reset w)" using assms(2) by (simp add: jw_reset_def jw_ok_def)
  have e: "\<exists>w'. jw_end_object w = Some w' \<and> jw_ok w'" "\<exists>w'. jw_end_array w = Some w' \<and> jw_ok w'" using end_calls [OF assms(2)] by blast+
  show ?thesis using assms(1) r e
    by (cases c) (simp_all add: t [OF token_calls(1)] t [OF token_calls(2)] t [OF token_calls(3)] t [OF token_calls(4)] t [OF token_calls(5)]
        t [OF token_calls(6)] t [OF token_calls(7)] t [OF token_calls(8)] t [OF token_calls(9)] t [OF template_text])
qed

text \<open>
  C33: whatever sequence of calls a handler makes, no store of the writer goes past its buffer or its local
  arrays, and the written length stays within the capacity. (Given the text form \<open>std::to_chars\<close>
  documents, at most 17 digits.)
\<close>

theorem json_writer_in_bounds:
  assumes "\<forall>c \<in> set cs. call_ok tc c"
  shows "\<exists>w. run_calls tc cs jw_new = Some w \<and> length (jw_data w) \<le> jw_cap w"
proof -
  have "\<exists>w'. run_calls tc cs w = Some w' \<and> jw_ok w'" if "jw_ok w" for w
    using assms that
  proof (induction cs arbitrary: w)
    case (Cons c cs)
    then show ?case using run_call_ok [of tc c w] by auto
  qed simp
  from this [OF new_ok] show ?thesis by (auto simp: jw_ok_def)
qed

text \<open>
  C32: the calls for a document write exactly its JSON text: one comma flag frames nested arrays and
  objects alike. The text is the reference rendering, whatever was in the writer before the reset.
\<close>

theorem json_document_text:
  assumes "jw_ok w" "json_ok tc j"
  shows "\<exists>w'. jw_doc tc j (jw_reset w) = Some w' \<and> jw_data w' = json_text tc j"
proof -
  have "jw_ok (jw_reset w)" "\<not> needComma (jw_reset w)" "jw_data (jw_reset w) = []" using assms(1) by (auto simp: jw_reset_def jw_ok_def)
  then show ?thesis using doc_text [OF assms(2)] by (fastforce simp: token_call_def)
qed



section \<open>A document\<close>

definition sample_chars :: "u64 \<Rightarrow> string" where
  "sample_chars b = ''1.5e+00''"

definition sample_doc :: json where
  "sample_doc = JObject [(''a'', JArray [JInt (-1), JDouble 0x3FF8000000000000, JObject []]), (''b'', JString [CHR 0x22])]"

lemma sample_sci: "sample_chars b = sci_text (CHR ''1'') ''5'' False ''00''" "sci_ok (sample_chars b)"
proof -
  show e: "sample_chars b = sci_text (CHR ''1'') ''5'' False ''00''" by (simp add: sample_chars_def sci_text_def)
  have "\<forall>c \<in> set (CHR ''1'' # ''5'' @ ''00''). is_digit c" by code_simp
  then show "sci_ok (sample_chars b)" unfolding sci_ok_def e
    by (intro exI [of _ "CHR ''1''"] exI [of _ "''5''"] exI [of _ False] exI [of _ "''00''"]) simp
qed

theorem json_writer_in_bounds_witness:
  "\<exists>w. run_calls sample_chars [CBeginArray, CInt 5, CDouble 1, CTemplate 1 [''<'', ''>''] [IntCol [7]], CEndArray] jw_new = Some w \<and> length (jw_data w) \<le> jw_cap w"
  by (rule json_writer_in_bounds) (simp add: sample_sci(2) int64_def column_ok_def)

theorem json_document_text_witness:
  "\<exists>w'. jw_doc sample_chars sample_doc (jw_reset jw_new) = Some w' \<and>
     jw_data w' = [CHR 0x7B] @ string_text ''a'' @ '':[-1,1.5,'' @ [CHR 0x7B, CHR 0x7D] @ ''],'' @ string_text ''b'' @ '':'' @ string_text [CHR 0x22] @ [CHR 0x7D]"
proof -
  have "json_ok sample_chars sample_doc" by (simp add: sample_doc_def sample_sci(2) int64_def)
  note t = json_document_text [OF new_ok this]
  have "json_text sample_chars sample_doc = [CHR 0x7B] @ string_text ''a'' @ '':[-1,1.5,'' @ [CHR 0x7B, CHR 0x7D] @ ''],'' @ string_text ''b'' @ '':'' @ string_text [CHR 0x22] @ [CHR 0x7D]"
    by code_simp
  then show ?thesis using t by simp
qed


end
