(* ===== verification/RecordCodec.thy ===== *)
theory RecordCodec
  imports Prelude "HOL-Library.Monad_Syntax"
begin

text \<open>
  The binary records that cross the bridge to the handlers' language (\<open>nitro_server.native.g.h\<close>): the
  writer and the bounds-checked reader, and the codec of every record. A reader call that throws is
  \<open>None\<close>; every caller catches all exceptions alike. Integers are in the byte order of the host, little
  endian on the supported platforms. A double is its 64 bits. An enumeration field is its integer.
\<close>

section \<open>Writer\<close>

type_synonym NitroRecordWriter = bytes

definition le_bytes :: "nat \<Rightarrow> int \<Rightarrow> bytes" where
  "le_bytes n v = map (\<lambda>i. word_of_int (v div 256 ^ i)) [0..<n]"

definition rwInt :: "int \<Rightarrow> NitroRecordWriter \<Rightarrow> NitroRecordWriter" where
  "rwInt v b = b @ le_bytes 8 v"

definition rwInt32 :: "int \<Rightarrow> NitroRecordWriter \<Rightarrow> NitroRecordWriter" where
  "rwInt32 v b = b @ le_bytes 4 v"

definition rwInt8 :: "int \<Rightarrow> NitroRecordWriter \<Rightarrow> NitroRecordWriter" where
  "rwInt8 v b = b @ [word_of_int v]"

definition rwDouble :: "u64 \<Rightarrow> NitroRecordWriter \<Rightarrow> NitroRecordWriter" where
  "rwDouble d b = b @ le_bytes 8 (uint d)"

definition rwBool :: "bool \<Rightarrow> NitroRecordWriter \<Rightarrow> NitroRecordWriter" where
  "rwBool v b = b @ [if v then 1 else 0]"

text \<open>\<open>int32_t n = (int32_t)s.size()\<close>.\<close>

definition rwString :: "string \<Rightarrow> NitroRecordWriter \<Rightarrow> NitroRecordWriter" where
  "rwString s b = rwInt32 (signed_take_bit 31 (int (length s))) b @ bytes_of s"

definition rwBytes :: "bytes \<Rightarrow> NitroRecordWriter \<Rightarrow> NitroRecordWriter" where
  "rwBytes d b = b @ d"

text \<open>
  The heap block \<open>[4B length][payload]\<close>; \<open>None\<close> when \<open>malloc\<close> fails. Payloads and lists of \<open>2^31\<close> bytes or
  items and more, whose count the 32-bit field cannot hold, are outside the model.
\<close>

definition toNative :: "bool \<Rightarrow> NitroRecordWriter \<Rightarrow> bytes option" where
  "toNative malloc_ok b = (if malloc_ok then Some (le_bytes 4 (int (length b)) @ b) else None)"

text \<open>An indexed list: the count, the table of offsets, the items; the table is filled in afterwards.\<close>

fun write_items :: "('a \<Rightarrow> NitroRecordWriter \<Rightarrow> NitroRecordWriter) \<Rightarrow> 'a list \<Rightarrow> NitroRecordWriter \<Rightarrow> NitroRecordWriter \<times> nat list" where
  "write_items enc [] b = (b, [])"
| "write_items enc (x # xs) b = (case write_items enc xs (enc x b) of (b', offs) \<Rightarrow> (b', length b # offs))"

definition backpatch :: "nat \<Rightarrow> bytes \<Rightarrow> NitroRecordWriter \<Rightarrow> NitroRecordWriter" where
  "backpatch pos table b = take pos b @ table @ drop (pos + length table) b"

definition rwIndexedList :: "('a \<Rightarrow> NitroRecordWriter \<Rightarrow> NitroRecordWriter) \<Rightarrow> 'a list \<Rightarrow> NitroRecordWriter \<Rightarrow> NitroRecordWriter" where
  "rwIndexedList enc xs b =
     (let b1 = rwInt32 (signed_take_bit 31 (int (length xs))) b;
          b2 = fold (\<lambda>_. rwInt 0) xs b1;
          (b3, offs) = write_items enc xs b2
      in backpatch (length b1) (concat (map (\<lambda>off. le_bytes 8 (int off)) offs)) b3)"

section \<open>Reader\<close>

record NitroRecordReader =
  rd_data :: bytes
  rd_offset :: nat

definition reader :: "bytes \<Rightarrow> NitroRecordReader" where
  "reader d = \<lparr>rd_data = d, rd_offset = 0\<rparr>"

text \<open>\<open>_require(n)\<close> then the bytes: \<open>_offset + n\<close> is a \<open>size_t\<close> sum.\<close>

definition take_raw :: "nat \<Rightarrow> NitroRecordReader \<Rightarrow> (bytes \<times> NitroRecordReader) option" where
  "take_raw n r =
     (if rd_offset r + n > length (rd_data r) then None
      else Some (take n (drop (rd_offset r) (rd_data r)), r\<lparr>rd_offset := rd_offset r + n\<rparr>))"

definition le_value :: "bytes \<Rightarrow> int" where
  "le_value bs = foldr (\<lambda>b a. uint b + 256 * a) bs 0"

definition readInt :: "NitroRecordReader \<Rightarrow> (int \<times> NitroRecordReader) option" where
  "readInt r = do { (bs, r) \<leftarrow> take_raw 8 r; Some (signed_take_bit 63 (le_value bs), r) }"

definition readInt32 :: "NitroRecordReader \<Rightarrow> (int \<times> NitroRecordReader) option" where
  "readInt32 r = do { (bs, r) \<leftarrow> take_raw 4 r; Some (signed_take_bit 31 (le_value bs), r) }"

definition readInt8 :: "NitroRecordReader \<Rightarrow> (int \<times> NitroRecordReader) option" where
  "readInt8 r = do { (bs, r) \<leftarrow> take_raw 1 r; Some (signed_take_bit 7 (le_value bs), r) }"

definition readDouble :: "NitroRecordReader \<Rightarrow> (u64 \<times> NitroRecordReader) option" where
  "readDouble r = do { (bs, r) \<leftarrow> take_raw 8 r; Some (word_of_int (le_value bs), r) }"

definition readBool :: "NitroRecordReader \<Rightarrow> (bool \<times> NitroRecordReader) option" where
  "readBool r = do { (bs, r) \<leftarrow> take_raw 1 r; Some (hd bs \<noteq> 0, r) }"

definition readNullTag :: "NitroRecordReader \<Rightarrow> (bool \<times> NitroRecordReader) option" where
  "readNullTag r = do { (bs, r) \<leftarrow> take_raw 1 r; Some (hd bs = 0, r) }"

definition readBytes :: "nat \<Rightarrow> NitroRecordReader \<Rightarrow> (bytes \<times> NitroRecordReader) option" where
  "readBytes n r = take_raw n r"

text \<open>
  A negative length becomes a huge \<open>size_t\<close>. The check may wrap and let it pass, and then the
  \<open>std::string\<close> constructor throws \<open>length_error\<close>: an exception either way.
\<close>

definition readString :: "NitroRecordReader \<Rightarrow> (string \<times> NitroRecordReader) option" where
  "readString r =
     do { (len, r) \<leftarrow> readInt32 r;
          if len < 0 then None else do { (bs, r) \<leftarrow> take_raw (nat len) r; Some (string_of bs, r) } }"

definition seek :: "int \<Rightarrow> NitroRecordReader \<Rightarrow> NitroRecordReader option" where
  "seek off r =
     (let n = off mod 2 ^ 64 in if n > int (length (rd_data r)) then None else Some (r\<lparr>rd_offset := nat n\<rparr>))"

fun read_many :: "(NitroRecordReader \<Rightarrow> ('a \<times> NitroRecordReader) option) \<Rightarrow> nat \<Rightarrow> NitroRecordReader \<Rightarrow> ('a list \<times> NitroRecordReader) option" where
  "read_many f 0 r = Some ([], r)"
| "read_many f (Suc n) r = do { (x, r) \<leftarrow> f r; (xs, r) \<leftarrow> read_many f n r; Some (x # xs, r) }"

fun read_at :: "(NitroRecordReader \<Rightarrow> ('a \<times> NitroRecordReader) option) \<Rightarrow> int list \<Rightarrow> NitroRecordReader \<Rightarrow> ('a list \<times> NitroRecordReader) option" where
  "read_at f [] r = Some ([], r)"
| "read_at f (off # offs) r = do { r \<leftarrow> seek off r; (x, r) \<leftarrow> f r; (xs, r) \<leftarrow> read_at f offs r; Some (x # xs, r) }"

definition readIndexedList :: "(NitroRecordReader \<Rightarrow> ('a \<times> NitroRecordReader) option) \<Rightarrow> NitroRecordReader \<Rightarrow> ('a list \<times> NitroRecordReader) option" where
  "readIndexedList f r =
     do { (n, r) \<leftarrow> readInt32 r;
          if n < 0 then None else do { (offs, r) \<leftarrow> read_many readInt (nat n) r; read_at f offs r } }"

text \<open>A record field \<open>[4B count][items]\<close>; \<open>reserve\<close> throws on a negative count.\<close>

definition read_list :: "(NitroRecordReader \<Rightarrow> ('a \<times> NitroRecordReader) option) \<Rightarrow> NitroRecordReader \<Rightarrow> ('a list \<times> NitroRecordReader) option" where
  "read_list f r = do { (n, r) \<leftarrow> readInt32 r; if n < 0 then None else read_many f (nat n) r }"

definition write_list :: "('a \<Rightarrow> NitroRecordWriter \<Rightarrow> NitroRecordWriter) \<Rightarrow> 'a list \<Rightarrow> NitroRecordWriter \<Rightarrow> NitroRecordWriter" where
  "write_list enc xs b = fold enc xs (rwInt32 (signed_take_bit 31 (int (length xs))) b)"

definition fromNative :: "(NitroRecordReader \<Rightarrow> ('a \<times> NitroRecordReader) option) \<Rightarrow> bytes \<Rightarrow> 'a option" where
  "fromNative f d = map_option fst (f (reader d))"

text \<open>What a field can hold: an \<open>int64_t\<close>, a string or a list whose size fits the 32-bit count.\<close>

definition i64_ok :: "int \<Rightarrow> bool" where
  "i64_ok v \<longleftrightarrow> - (2 ^ 63) \<le> v \<and> v < 2 ^ 63"

definition str_ok :: "string \<Rightarrow> bool" where
  "str_ok s \<longleftrightarrow> length s < 2 ^ 31"

definition list_ok :: "('a \<Rightarrow> bool) \<Rightarrow> 'a list \<Rightarrow> bool" where
  "list_ok ok xs \<longleftrightarrow> length xs < 2 ^ 31 \<and> (\<forall>x \<in> set xs. ok x)"

section \<open>Records\<close>

record RawHeader =
  rh_name :: string
  rh_value :: string

definition RawHeader_fromReader :: "NitroRecordReader \<Rightarrow> (RawHeader \<times> NitroRecordReader) option" where
  "RawHeader_fromReader r =
     do { (v0, r) \<leftarrow> readString r;
          (v1, r) \<leftarrow> readString r;
          Some (\<lparr>rh_name = v0, rh_value = v1\<rparr>, r) }"

definition RawHeader_encodeInto :: "RawHeader \<Rightarrow> NitroRecordWriter \<Rightarrow> NitroRecordWriter" where
  "RawHeader_encodeInto x b =
     fold id [rwString (rh_name x),
       rwString (rh_value x)] b"

definition RawHeader_ok :: "RawHeader \<Rightarrow> bool" where
  "RawHeader_ok x \<longleftrightarrow> str_ok (rh_name x) \<and> str_ok (rh_value x)"

record RawRouteParam =
  rp_name :: string
  rp_value :: string

definition RawRouteParam_fromReader :: "NitroRecordReader \<Rightarrow> (RawRouteParam \<times> NitroRecordReader) option" where
  "RawRouteParam_fromReader r =
     do { (v0, r) \<leftarrow> readString r;
          (v1, r) \<leftarrow> readString r;
          Some (\<lparr>rp_name = v0, rp_value = v1\<rparr>, r) }"

definition RawRouteParam_encodeInto :: "RawRouteParam \<Rightarrow> NitroRecordWriter \<Rightarrow> NitroRecordWriter" where
  "RawRouteParam_encodeInto x b =
     fold id [rwString (rp_name x),
       rwString (rp_value x)] b"

definition RawRouteParam_ok :: "RawRouteParam \<Rightarrow> bool" where
  "RawRouteParam_ok x \<longleftrightarrow> str_ok (rp_name x) \<and> str_ok (rp_value x)"

record RawTlsConfig =
  rt_certPem :: string
  rt_keyPem :: string
  rt_certFile :: string
  rt_keyFile :: string
  rt_minVersion :: int
  rt_ciphers :: string
  rt_cipherSuites :: string
  rt_clientCaPem :: string
  rt_clientCaFile :: string

definition RawTlsConfig_fromReader :: "NitroRecordReader \<Rightarrow> (RawTlsConfig \<times> NitroRecordReader) option" where
  "RawTlsConfig_fromReader r =
     do { (v0, r) \<leftarrow> readString r;
          (v1, r) \<leftarrow> readString r;
          (v2, r) \<leftarrow> readString r;
          (v3, r) \<leftarrow> readString r;
          (v4, r) \<leftarrow> readInt r;
          (v5, r) \<leftarrow> readString r;
          (v6, r) \<leftarrow> readString r;
          (v7, r) \<leftarrow> readString r;
          (v8, r) \<leftarrow> readString r;
          Some (\<lparr>rt_certPem = v0, rt_keyPem = v1, rt_certFile = v2, rt_keyFile = v3, rt_minVersion = v4, rt_ciphers = v5, rt_cipherSuites = v6, rt_clientCaPem = v7, rt_clientCaFile = v8\<rparr>, r) }"

definition RawTlsConfig_encodeInto :: "RawTlsConfig \<Rightarrow> NitroRecordWriter \<Rightarrow> NitroRecordWriter" where
  "RawTlsConfig_encodeInto x b =
     fold id [rwString (rt_certPem x),
       rwString (rt_keyPem x),
       rwString (rt_certFile x),
       rwString (rt_keyFile x),
       rwInt (rt_minVersion x),
       rwString (rt_ciphers x),
       rwString (rt_cipherSuites x),
       rwString (rt_clientCaPem x),
       rwString (rt_clientCaFile x)] b"

definition RawTlsConfig_ok :: "RawTlsConfig \<Rightarrow> bool" where
  "RawTlsConfig_ok x \<longleftrightarrow> str_ok (rt_certPem x) \<and> str_ok (rt_keyPem x) \<and> str_ok (rt_certFile x) \<and> str_ok (rt_keyFile x) \<and> i64_ok (rt_minVersion x) \<and> str_ok (rt_ciphers x) \<and> str_ok (rt_cipherSuites x) \<and> str_ok (rt_clientCaPem x) \<and> str_ok (rt_clientCaFile x)"

record RawServerConfig =
  rs_host :: string
  rs_port :: int
  rs_backlog :: int
  rs_maxBodyBytes :: int
  rs_defaultTimeoutMs :: int
  rs_keepAliveTimeoutMs :: int
  rs_maxRequestsPerConn :: int
  rs_workerThreads :: int
  rs_maxConnections :: int
  rs_maxConnectionsPerIp :: int
  rs_headerTimeoutMs :: int
  rs_writeTimeoutMs :: int
  rs_wsMaxBufferBytes :: int
  rs_streamMaxBufferBytes :: int
  rs_streamIdleTimeoutMs :: int
  rs_maxBufferedBodyBytes :: int
  rs_wsCompression :: bool
  rs_bodyTimeoutMs :: int
  rs_wsIdleTimeoutMs :: int
  rs_maxConnectionAgeMs :: int
  rs_maxInFlightRequests :: int
  rs_proxyProtocol :: bool
  rs_http2 :: bool
  rs_keepAliveHeader :: bool
  rs_tls :: RawTlsConfig

definition RawServerConfig_fromReader :: "NitroRecordReader \<Rightarrow> (RawServerConfig \<times> NitroRecordReader) option" where
  "RawServerConfig_fromReader r =
     do { (v0, r) \<leftarrow> readString r;
          (v1, r) \<leftarrow> readInt r;
          (v2, r) \<leftarrow> readInt r;
          (v3, r) \<leftarrow> readInt r;
          (v4, r) \<leftarrow> readInt r;
          (v5, r) \<leftarrow> readInt r;
          (v6, r) \<leftarrow> readInt r;
          (v7, r) \<leftarrow> readInt r;
          (v8, r) \<leftarrow> readInt r;
          (v9, r) \<leftarrow> readInt r;
          (v10, r) \<leftarrow> readInt r;
          (v11, r) \<leftarrow> readInt r;
          (v12, r) \<leftarrow> readInt r;
          (v13, r) \<leftarrow> readInt r;
          (v14, r) \<leftarrow> readInt r;
          (v15, r) \<leftarrow> readInt r;
          (v16, r) \<leftarrow> readBool r;
          (v17, r) \<leftarrow> readInt r;
          (v18, r) \<leftarrow> readInt r;
          (v19, r) \<leftarrow> readInt r;
          (v20, r) \<leftarrow> readInt r;
          (v21, r) \<leftarrow> readBool r;
          (v22, r) \<leftarrow> readBool r;
          (v23, r) \<leftarrow> readBool r;
          (v24, r) \<leftarrow> RawTlsConfig_fromReader r;
          Some (\<lparr>rs_host = v0, rs_port = v1, rs_backlog = v2, rs_maxBodyBytes = v3, rs_defaultTimeoutMs = v4, rs_keepAliveTimeoutMs = v5, rs_maxRequestsPerConn = v6, rs_workerThreads = v7, rs_maxConnections = v8, rs_maxConnectionsPerIp = v9, rs_headerTimeoutMs = v10, rs_writeTimeoutMs = v11, rs_wsMaxBufferBytes = v12, rs_streamMaxBufferBytes = v13, rs_streamIdleTimeoutMs = v14, rs_maxBufferedBodyBytes = v15, rs_wsCompression = v16, rs_bodyTimeoutMs = v17, rs_wsIdleTimeoutMs = v18, rs_maxConnectionAgeMs = v19, rs_maxInFlightRequests = v20, rs_proxyProtocol = v21, rs_http2 = v22, rs_keepAliveHeader = v23, rs_tls = v24\<rparr>, r) }"

definition RawServerConfig_encodeInto :: "RawServerConfig \<Rightarrow> NitroRecordWriter \<Rightarrow> NitroRecordWriter" where
  "RawServerConfig_encodeInto x b =
     fold id [rwString (rs_host x),
       rwInt (rs_port x),
       rwInt (rs_backlog x),
       rwInt (rs_maxBodyBytes x),
       rwInt (rs_defaultTimeoutMs x),
       rwInt (rs_keepAliveTimeoutMs x),
       rwInt (rs_maxRequestsPerConn x),
       rwInt (rs_workerThreads x),
       rwInt (rs_maxConnections x),
       rwInt (rs_maxConnectionsPerIp x),
       rwInt (rs_headerTimeoutMs x),
       rwInt (rs_writeTimeoutMs x),
       rwInt (rs_wsMaxBufferBytes x),
       rwInt (rs_streamMaxBufferBytes x),
       rwInt (rs_streamIdleTimeoutMs x),
       rwInt (rs_maxBufferedBodyBytes x),
       rwBool (rs_wsCompression x),
       rwInt (rs_bodyTimeoutMs x),
       rwInt (rs_wsIdleTimeoutMs x),
       rwInt (rs_maxConnectionAgeMs x),
       rwInt (rs_maxInFlightRequests x),
       rwBool (rs_proxyProtocol x),
       rwBool (rs_http2 x),
       rwBool (rs_keepAliveHeader x),
       RawTlsConfig_encodeInto (rs_tls x)] b"

definition RawServerConfig_ok :: "RawServerConfig \<Rightarrow> bool" where
  "RawServerConfig_ok x \<longleftrightarrow> str_ok (rs_host x) \<and> i64_ok (rs_port x) \<and> i64_ok (rs_backlog x) \<and> i64_ok (rs_maxBodyBytes x) \<and> i64_ok (rs_defaultTimeoutMs x) \<and> i64_ok (rs_keepAliveTimeoutMs x) \<and> i64_ok (rs_maxRequestsPerConn x) \<and> i64_ok (rs_workerThreads x) \<and> i64_ok (rs_maxConnections x) \<and> i64_ok (rs_maxConnectionsPerIp x) \<and> i64_ok (rs_headerTimeoutMs x) \<and> i64_ok (rs_writeTimeoutMs x) \<and> i64_ok (rs_wsMaxBufferBytes x) \<and> i64_ok (rs_streamMaxBufferBytes x) \<and> i64_ok (rs_streamIdleTimeoutMs x) \<and> i64_ok (rs_maxBufferedBodyBytes x) \<and> i64_ok (rs_bodyTimeoutMs x) \<and> i64_ok (rs_wsIdleTimeoutMs x) \<and> i64_ok (rs_maxConnectionAgeMs x) \<and> i64_ok (rs_maxInFlightRequests x) \<and> RawTlsConfig_ok (rs_tls x)"

record RawRouteConfig =
  rr_method :: int
  rr_customMethod :: string
  rr_pattern :: string
  rr_timeoutMs :: int
  rr_isWebSocket :: bool
  rr_streamBody :: bool
  rr_maxBodyBytes :: int
  rr_wsProtocols :: string

definition RawRouteConfig_fromReader :: "NitroRecordReader \<Rightarrow> (RawRouteConfig \<times> NitroRecordReader) option" where
  "RawRouteConfig_fromReader r =
     do { (v0, r) \<leftarrow> readInt r;
          (v1, r) \<leftarrow> readString r;
          (v2, r) \<leftarrow> readString r;
          (v3, r) \<leftarrow> readInt r;
          (v4, r) \<leftarrow> readBool r;
          (v5, r) \<leftarrow> readBool r;
          (v6, r) \<leftarrow> readInt r;
          (v7, r) \<leftarrow> readString r;
          Some (\<lparr>rr_method = v0, rr_customMethod = v1, rr_pattern = v2, rr_timeoutMs = v3, rr_isWebSocket = v4, rr_streamBody = v5, rr_maxBodyBytes = v6, rr_wsProtocols = v7\<rparr>, r) }"

definition RawRouteConfig_encodeInto :: "RawRouteConfig \<Rightarrow> NitroRecordWriter \<Rightarrow> NitroRecordWriter" where
  "RawRouteConfig_encodeInto x b =
     fold id [rwInt (rr_method x),
       rwString (rr_customMethod x),
       rwString (rr_pattern x),
       rwInt (rr_timeoutMs x),
       rwBool (rr_isWebSocket x),
       rwBool (rr_streamBody x),
       rwInt (rr_maxBodyBytes x),
       rwString (rr_wsProtocols x)] b"

definition RawRouteConfig_ok :: "RawRouteConfig \<Rightarrow> bool" where
  "RawRouteConfig_ok x \<longleftrightarrow> i64_ok (rr_method x) \<and> str_ok (rr_customMethod x) \<and> str_ok (rr_pattern x) \<and> i64_ok (rr_timeoutMs x) \<and> i64_ok (rr_maxBodyBytes x) \<and> str_ok (rr_wsProtocols x)"

record RawServerStatus =
  ra_errorKind :: int
  ra_errorMessage :: string
  ra_boundPort :: int

definition RawServerStatus_fromReader :: "NitroRecordReader \<Rightarrow> (RawServerStatus \<times> NitroRecordReader) option" where
  "RawServerStatus_fromReader r =
     do { (v0, r) \<leftarrow> readInt r;
          (v1, r) \<leftarrow> readString r;
          (v2, r) \<leftarrow> readInt r;
          Some (\<lparr>ra_errorKind = v0, ra_errorMessage = v1, ra_boundPort = v2\<rparr>, r) }"

definition RawServerStatus_encodeInto :: "RawServerStatus \<Rightarrow> NitroRecordWriter \<Rightarrow> NitroRecordWriter" where
  "RawServerStatus_encodeInto x b =
     fold id [rwInt (ra_errorKind x),
       rwString (ra_errorMessage x),
       rwInt (ra_boundPort x)] b"

definition RawServerStatus_ok :: "RawServerStatus \<Rightarrow> bool" where
  "RawServerStatus_ok x \<longleftrightarrow> i64_ok (ra_errorKind x) \<and> str_ok (ra_errorMessage x) \<and> i64_ok (ra_boundPort x)"

record RawIncomingRequest =
  rq_requestId :: int
  rq_method :: int
  rq_customMethod :: string
  rq_path :: string
  rq_query :: string
  rq_packedHeaders :: string
  rq_contentLength :: int
  rq_hasBody :: bool
  rq_bodyComplete :: bool
  rq_routePattern :: string
  rq_params :: "RawRouteParam list"
  rq_clientIp :: string

definition RawIncomingRequest_fromReader :: "NitroRecordReader \<Rightarrow> (RawIncomingRequest \<times> NitroRecordReader) option" where
  "RawIncomingRequest_fromReader r =
     do { (v0, r) \<leftarrow> readInt r;
          (v1, r) \<leftarrow> readInt r;
          (v2, r) \<leftarrow> readString r;
          (v3, r) \<leftarrow> readString r;
          (v4, r) \<leftarrow> readString r;
          (v5, r) \<leftarrow> readString r;
          (v6, r) \<leftarrow> readInt r;
          (v7, r) \<leftarrow> readBool r;
          (v8, r) \<leftarrow> readBool r;
          (v9, r) \<leftarrow> readString r;
          (v10, r) \<leftarrow> (read_list RawRouteParam_fromReader) r;
          (v11, r) \<leftarrow> readString r;
          Some (\<lparr>rq_requestId = v0, rq_method = v1, rq_customMethod = v2, rq_path = v3, rq_query = v4, rq_packedHeaders = v5, rq_contentLength = v6, rq_hasBody = v7, rq_bodyComplete = v8, rq_routePattern = v9, rq_params = v10, rq_clientIp = v11\<rparr>, r) }"

definition RawIncomingRequest_encodeInto :: "RawIncomingRequest \<Rightarrow> NitroRecordWriter \<Rightarrow> NitroRecordWriter" where
  "RawIncomingRequest_encodeInto x b =
     fold id [rwInt (rq_requestId x),
       rwInt (rq_method x),
       rwString (rq_customMethod x),
       rwString (rq_path x),
       rwString (rq_query x),
       rwString (rq_packedHeaders x),
       rwInt (rq_contentLength x),
       rwBool (rq_hasBody x),
       rwBool (rq_bodyComplete x),
       rwString (rq_routePattern x),
       write_list RawRouteParam_encodeInto (rq_params x),
       rwString (rq_clientIp x)] b"

definition RawIncomingRequest_ok :: "RawIncomingRequest \<Rightarrow> bool" where
  "RawIncomingRequest_ok x \<longleftrightarrow> i64_ok (rq_requestId x) \<and> i64_ok (rq_method x) \<and> str_ok (rq_customMethod x) \<and> str_ok (rq_path x) \<and> str_ok (rq_query x) \<and> str_ok (rq_packedHeaders x) \<and> i64_ok (rq_contentLength x) \<and> str_ok (rq_routePattern x) \<and> list_ok RawRouteParam_ok (rq_params x) \<and> str_ok (rq_clientIp x)"

record RawServerEvent =
  rv_kind :: int
  rv_requestId :: int
  rv_message :: string

definition RawServerEvent_fromReader :: "NitroRecordReader \<Rightarrow> (RawServerEvent \<times> NitroRecordReader) option" where
  "RawServerEvent_fromReader r =
     do { (v0, r) \<leftarrow> readInt r;
          (v1, r) \<leftarrow> readInt r;
          (v2, r) \<leftarrow> readString r;
          Some (\<lparr>rv_kind = v0, rv_requestId = v1, rv_message = v2\<rparr>, r) }"

definition RawServerEvent_encodeInto :: "RawServerEvent \<Rightarrow> NitroRecordWriter \<Rightarrow> NitroRecordWriter" where
  "RawServerEvent_encodeInto x b =
     fold id [rwInt (rv_kind x),
       rwInt (rv_requestId x),
       rwString (rv_message x)] b"

definition RawServerEvent_ok :: "RawServerEvent \<Rightarrow> bool" where
  "RawServerEvent_ok x \<longleftrightarrow> i64_ok (rv_kind x) \<and> i64_ok (rv_requestId x) \<and> str_ok (rv_message x)"

record NitroNullableInt =
  ni_hasValue :: bool
  ni_value :: int

definition NitroNullableInt_fromReader :: "NitroRecordReader \<Rightarrow> (NitroNullableInt \<times> NitroRecordReader) option" where
  "NitroNullableInt_fromReader r =
     do { (v0, r) \<leftarrow> readBool r;
          (v1, r) \<leftarrow> readInt r;
          Some (\<lparr>ni_hasValue = v0, ni_value = v1\<rparr>, r) }"

definition NitroNullableInt_encodeInto :: "NitroNullableInt \<Rightarrow> NitroRecordWriter \<Rightarrow> NitroRecordWriter" where
  "NitroNullableInt_encodeInto x b =
     fold id [rwBool (ni_hasValue x),
       rwInt (ni_value x)] b"

definition NitroNullableInt_ok :: "NitroNullableInt \<Rightarrow> bool" where
  "NitroNullableInt_ok x \<longleftrightarrow> i64_ok (ni_value x)"

record NitroNullableDouble =
  nd_hasValue :: bool
  nd_value :: u64

definition NitroNullableDouble_fromReader :: "NitroRecordReader \<Rightarrow> (NitroNullableDouble \<times> NitroRecordReader) option" where
  "NitroNullableDouble_fromReader r =
     do { (v0, r) \<leftarrow> readBool r;
          (v1, r) \<leftarrow> readDouble r;
          Some (\<lparr>nd_hasValue = v0, nd_value = v1\<rparr>, r) }"

definition NitroNullableDouble_encodeInto :: "NitroNullableDouble \<Rightarrow> NitroRecordWriter \<Rightarrow> NitroRecordWriter" where
  "NitroNullableDouble_encodeInto x b =
     fold id [rwBool (nd_hasValue x),
       rwDouble (nd_value x)] b"

definition NitroNullableDouble_ok :: "NitroNullableDouble \<Rightarrow> bool" where
  "NitroNullableDouble_ok x \<longleftrightarrow> True"

record NitroNullableBool =
  nb_hasValue :: bool
  nb_value :: bool

definition NitroNullableBool_fromReader :: "NitroRecordReader \<Rightarrow> (NitroNullableBool \<times> NitroRecordReader) option" where
  "NitroNullableBool_fromReader r =
     do { (v0, r) \<leftarrow> readBool r;
          (v1, r) \<leftarrow> readBool r;
          Some (\<lparr>nb_hasValue = v0, nb_value = v1\<rparr>, r) }"

definition NitroNullableBool_encodeInto :: "NitroNullableBool \<Rightarrow> NitroRecordWriter \<Rightarrow> NitroRecordWriter" where
  "NitroNullableBool_encodeInto x b =
     fold id [rwBool (nb_hasValue x),
       rwBool (nb_value x)] b"

definition NitroNullableBool_ok :: "NitroNullableBool \<Rightarrow> bool" where
  "NitroNullableBool_ok x \<longleftrightarrow> True"

text \<open>The inline codecs of the two structs: the byte buffer is not part of the encoding and is read back empty.\<close>

record RawBodyChunk =
  rc_bytes :: bytes
  rc_requestId :: int
  rc_kind :: int
  rc_aux :: int

definition RawBodyChunk_fromReader :: "NitroRecordReader \<Rightarrow> (RawBodyChunk \<times> NitroRecordReader) option" where
  "RawBodyChunk_fromReader r =
     do { (v0, r) \<leftarrow> readInt r;
          (v1, r) \<leftarrow> readInt r;
          (v2, r) \<leftarrow> readInt r;
          Some (\<lparr>rc_bytes = [], rc_requestId = v0, rc_kind = v1, rc_aux = v2\<rparr>, r) }"

definition RawBodyChunk_encodeInto :: "RawBodyChunk \<Rightarrow> NitroRecordWriter \<Rightarrow> NitroRecordWriter" where
  "RawBodyChunk_encodeInto x b = fold id [rwInt (rc_requestId x), rwInt (rc_kind x), rwInt (rc_aux x)] b"

definition RawBodyChunk_ok :: "RawBodyChunk \<Rightarrow> bool" where
  "RawBodyChunk_ok x \<longleftrightarrow> rc_bytes x = [] \<and> i64_ok (rc_requestId x) \<and> i64_ok (rc_kind x) \<and> i64_ok (rc_aux x)"

record RawWsMessage =
  rw_payload :: bytes
  rw_connectionId :: int
  rw_kind :: int
  rw_aux :: int

definition RawWsMessage_fromReader :: "NitroRecordReader \<Rightarrow> (RawWsMessage \<times> NitroRecordReader) option" where
  "RawWsMessage_fromReader r =
     do { (v0, r) \<leftarrow> readInt r;
          (v1, r) \<leftarrow> readInt r;
          (v2, r) \<leftarrow> readInt r;
          Some (\<lparr>rw_payload = [], rw_connectionId = v0, rw_kind = v1, rw_aux = v2\<rparr>, r) }"

definition RawWsMessage_encodeInto :: "RawWsMessage \<Rightarrow> NitroRecordWriter \<Rightarrow> NitroRecordWriter" where
  "RawWsMessage_encodeInto x b = fold id [rwInt (rw_connectionId x), rwInt (rw_kind x), rwInt (rw_aux x)] b"

definition RawWsMessage_ok :: "RawWsMessage \<Rightarrow> bool" where
  "RawWsMessage_ok x \<longleftrightarrow> rw_payload x = [] \<and> i64_ok (rw_connectionId x) \<and> i64_ok (rw_kind x) \<and> i64_ok (rw_aux x)"

section \<open>The codec contract\<close>

text \<open>\<open>reads f e v\<close>: at a position followed by the bytes \<open>e\<close>, the reader returns \<open>v\<close> and stops right after them.\<close>

definition reads :: "(NitroRecordReader \<Rightarrow> ('a \<times> NitroRecordReader) option) \<Rightarrow> bytes \<Rightarrow> 'a \<Rightarrow> bool" where
  "reads f e v \<longleftrightarrow> (\<forall>pre post. f \<lparr>rd_data = pre @ e @ post, rd_offset = length pre\<rparr> =
     Some (v, \<lparr>rd_data = pre @ e @ post, rd_offset = length pre + length e\<rparr>))"

text \<open>A reader looks only at the bytes it moves over, and only forward: more data behind them changes nothing.\<close>

definition stable :: "(NitroRecordReader \<Rightarrow> ('a \<times> NitroRecordReader) option) \<Rightarrow> bool" where
  "stable f \<longleftrightarrow> (\<forall>d k v r'. f \<lparr>rd_data = d, rd_offset = k\<rparr> = Some (v, r') \<longrightarrow>
     (\<exists>k'. r' = \<lparr>rd_data = d, rd_offset = k'\<rparr> \<and> k \<le> k' \<and> (k \<le> length d \<longrightarrow> k' \<le> length d) \<and>
        (\<forall>d2. f \<lparr>rd_data = d @ d2, rd_offset = k\<rparr> = Some (v, \<lparr>rd_data = d @ d2, rd_offset = k'\<rparr>))))"

lemma reads_bind: "reads f e v \<Longrightarrow> reads (g v) e' v' \<Longrightarrow> reads (\<lambda>r. do { (x, r) \<leftarrow> f r; g x r }) (e @ e') v'"
  unfolding reads_def
proof (intro allI)
  fix pre post
  assume a: "\<forall>pre post. f \<lparr>rd_data = pre @ e @ post, rd_offset = length pre\<rparr> = Some (v, \<lparr>rd_data = pre @ e @ post, rd_offset = length pre + length e\<rparr>)"
    "\<forall>pre post. g v \<lparr>rd_data = pre @ e' @ post, rd_offset = length pre\<rparr> = Some (v', \<lparr>rd_data = pre @ e' @ post, rd_offset = length pre + length e'\<rparr>)"
  show "do { (x, r) \<leftarrow> f \<lparr>rd_data = pre @ (e @ e') @ post, rd_offset = length pre\<rparr>; g x r } =
      Some (v', \<lparr>rd_data = pre @ (e @ e') @ post, rd_offset = length pre + length (e @ e')\<rparr>)"
    using spec [OF spec [OF a(1), of pre], of "e' @ post"] spec [OF spec [OF a(2), of "pre @ e"], of post] by (simp add: add.assoc)
qed

lemma reads_return: "reads (\<lambda>r. Some (v, r)) [] v"
  by (simp add: reads_def)

lemma reads_last: "reads f e v \<Longrightarrow> reads (\<lambda>r. do { (x, r) \<leftarrow> f r; Some (h x, r) }) e (h v)"
  by (simp add: reads_def)

lemma stable_bind: "stable f \<Longrightarrow> (\<And>x. stable (g x)) \<Longrightarrow> stable (\<lambda>r. do { (x, r) \<leftarrow> f r; g x r })"
  unfolding stable_def
proof (intro allI impI)
  fix d k v r'
  assume f: "\<forall>d k v r'. f \<lparr>rd_data = d, rd_offset = k\<rparr> = Some (v, r') \<longrightarrow>
     (\<exists>k'. r' = \<lparr>rd_data = d, rd_offset = k'\<rparr> \<and> k \<le> k' \<and> (k \<le> length d \<longrightarrow> k' \<le> length d) \<and>
        (\<forall>d2. f \<lparr>rd_data = d @ d2, rd_offset = k\<rparr> = Some (v, \<lparr>rd_data = d @ d2, rd_offset = k'\<rparr>)))"
    and g: "\<And>x. \<forall>d k v r'. g x \<lparr>rd_data = d, rd_offset = k\<rparr> = Some (v, r') \<longrightarrow>
     (\<exists>k'. r' = \<lparr>rd_data = d, rd_offset = k'\<rparr> \<and> k \<le> k' \<and> (k \<le> length d \<longrightarrow> k' \<le> length d) \<and>
        (\<forall>d2. g x \<lparr>rd_data = d @ d2, rd_offset = k\<rparr> = Some (v, \<lparr>rd_data = d @ d2, rd_offset = k'\<rparr>)))"
    and e: "do { (x, r) \<leftarrow> f \<lparr>rd_data = d, rd_offset = k\<rparr>; g x r } = Some (v, r')"
  from e obtain x r1 where x: "f \<lparr>rd_data = d, rd_offset = k\<rparr> = Some (x, r1)" "g x r1 = Some (v, r')"
    by (auto simp: bind_eq_Some_conv)
  from f x(1) obtain k1 where k1: "r1 = \<lparr>rd_data = d, rd_offset = k1\<rparr>" "k \<le> k1" "k \<le> length d \<longrightarrow> k1 \<le> length d"
    "\<forall>d2. f \<lparr>rd_data = d @ d2, rd_offset = k\<rparr> = Some (x, \<lparr>rd_data = d @ d2, rd_offset = k1\<rparr>)" by blast
  from g [of x] x(2) k1(1) obtain k2 where k2: "r' = \<lparr>rd_data = d, rd_offset = k2\<rparr>" "k1 \<le> k2" "k1 \<le> length d \<longrightarrow> k2 \<le> length d"
    "\<forall>d2. g x \<lparr>rd_data = d @ d2, rd_offset = k1\<rparr> = Some (v, \<lparr>rd_data = d @ d2, rd_offset = k2\<rparr>)" by blast
  show "\<exists>k'. r' = \<lparr>rd_data = d, rd_offset = k'\<rparr> \<and> k \<le> k' \<and> (k \<le> length d \<longrightarrow> k' \<le> length d) \<and>
        (\<forall>d2. do { (x, r) \<leftarrow> f \<lparr>rd_data = d @ d2, rd_offset = k\<rparr>; g x r } = Some (v, \<lparr>rd_data = d @ d2, rd_offset = k'\<rparr>))"
    using k1 k2 by (intro exI [of _ k2]) auto
qed

lemma stable_return: "stable (\<lambda>r. Some (v, r))"
  by (simp add: stable_def)

lemma stable_guard: "stable f \<Longrightarrow> stable (\<lambda>r. if P then None else f r)"
  by (cases P) (simp_all add: stable_def)

lemma stable_raw: "stable (take_raw n)"
  by (auto simp: stable_def take_raw_def split: if_splits)

lemma stable_prims:
  "stable readInt" "stable readInt32" "stable readInt8" "stable readDouble" "stable readBool" "stable readNullTag" "stable readString" "stable (readBytes n)"
  unfolding readInt_def [abs_def] readInt32_def [abs_def] readInt8_def [abs_def] readDouble_def [abs_def] readBool_def [abs_def]
    readNullTag_def [abs_def] readString_def [abs_def] readBytes_def [abs_def]
  by (intro stable_bind stable_guard stable_raw stable_return)+

lemma stable_many: "stable f \<Longrightarrow> stable (read_many f n)"
proof (induction n)
  case (Suc n)
  have "stable (\<lambda>r. do { (x, r) \<leftarrow> f r; (xs, r) \<leftarrow> read_many f n r; Some (x # xs, r) })"
    by (intro stable_bind stable_return Suc)
  then show ?case by simp
qed (simp add: stable_def)

lemma stable_list: "stable f \<Longrightarrow> stable (read_list f)"
  unfolding read_list_def [abs_def] by (intro stable_bind stable_guard stable_many stable_prims)


section \<open>Primitive fields\<close>

lemma le_bytes_Suc: "le_bytes (Suc n) v = word_of_int v # le_bytes n (v div 256)"
proof -
  have "map (\<lambda>i. word_of_int (v div 256 ^ i) :: u8) [1..<Suc n] = map (\<lambda>i. word_of_int (v div 256 div 256 ^ i)) [0..<n]"
    by (simp add: map_Suc_upt [symmetric] zdiv_zmult2_eq comp_def del: upt_Suc)
  then show ?thesis unfolding le_bytes_def by (simp add: upt_conv_Cons del: upt_Suc)
qed

lemma length_le_bytes [simp]: "length (le_bytes n v) = n"
  by (simp add: le_bytes_def)

lemma le_value_bytes: "le_value (le_bytes n v) = v mod 256 ^ n"
proof (induction n arbitrary: v)
  case (Suc n)
  have "le_value (le_bytes (Suc n) v) = v mod 256 + 256 * (v div 256 mod 256 ^ n)"
    using Suc [of "v div 256"] by (simp add: le_bytes_Suc le_value_def uint_word_of_int)
  also have "\<dots> = v mod (256 * 256 ^ n)" by (simp add: mod_mult2_eq' zmod_zmult2_eq)
  finally show ?case by simp
qed (simp add: le_bytes_def le_value_def)

lemma reads_raw: "reads (take_raw (length e)) e e"
  by (simp add: reads_def take_raw_def)

lemma signed_back: "- (2 ^ n) \<le> v \<Longrightarrow> v < 2 ^ n \<Longrightarrow> signed_take_bit n (v mod 2 ^ Suc n) = (v :: int)"
  unfolding take_bit_eq_mod [symmetric] by (simp add: signed_take_bit_take_bit signed_take_bit_int_eq_self_iff)

lemma reads_int: "i64_ok v \<Longrightarrow> reads readInt (le_bytes 8 v) v"
proof -
  assume "i64_ok v"
  then have "signed_take_bit 63 (le_value (le_bytes 8 v)) = v" using signed_back [of 63 v] by (simp add: le_value_bytes i64_ok_def)
  then show ?thesis using reads_last [OF reads_raw [of "le_bytes 8 v"], of "\<lambda>bs. signed_take_bit 63 (le_value bs)"] by (simp add: readInt_def [abs_def])
qed

lemma reads_int32: "- (2 ^ 31) \<le> v \<Longrightarrow> v < 2 ^ 31 \<Longrightarrow> reads readInt32 (le_bytes 4 v) v"
proof -
  assume "- (2 ^ 31) \<le> v" "v < 2 ^ 31"
  then have "signed_take_bit 31 (le_value (le_bytes 4 v)) = v" using signed_back [of 31 v] by (simp add: le_value_bytes)
  then show ?thesis using reads_last [OF reads_raw [of "le_bytes 4 v"], of "\<lambda>bs. signed_take_bit 31 (le_value bs)"] by (simp add: readInt32_def [abs_def])
qed

lemma reads_double: "reads readDouble (le_bytes 8 (uint d)) d"
proof -
  have "word_of_int (le_value (le_bytes 8 (uint d))) = d" using uint_lt2p [of d] by (simp add: le_value_bytes word_of_int_uint)
  then show ?thesis using reads_last [OF reads_raw [of "le_bytes 8 (uint d)"], of "\<lambda>bs. word_of_int (le_value bs) :: u64"] by (simp add: readDouble_def [abs_def])
qed

lemma reads_bool: "reads readBool [if v then 1 else 0] v"
  using reads_last [OF reads_raw [of "[if v then 1 else 0]"], of "\<lambda>bs. hd bs \<noteq> 0"] by (cases v) (simp_all add: readBool_def [abs_def])

lemma reads_if: "\<not> P \<Longrightarrow> reads f e v \<Longrightarrow> reads (\<lambda>r. if P then None else f r) e v"
  by simp

definition string_bytes :: "string \<Rightarrow> bytes" where
  "string_bytes s = le_bytes 4 (int (length s)) @ bytes_of s"

lemma count_small: "n < 2 ^ 31 \<Longrightarrow> signed_take_bit 31 (int n) = int n"
  by (simp add: signed_take_bit_int_eq_self_iff)

lemma reads_string: "str_ok s \<Longrightarrow> reads readString (string_bytes s) s"
proof -
  assume s: "str_ok s"
  have "reads (\<lambda>r. do { (bs, r) \<leftarrow> take_raw (nat (int (length s))) r; Some (string_of bs, r) }) (bytes_of s) (string_of (bytes_of s))"
    by (rule reads_last) (use reads_raw [of "bytes_of s"] in simp)
  then have "reads (\<lambda>r. do { (bs, r) \<leftarrow> take_raw (nat (int (length s))) r; Some (string_of bs, r) }) (bytes_of s) s"
    by (simp only: string_of_bytes_of)
  then show ?thesis unfolding readString_def [abs_def] string_bytes_def using s
    by (intro reads_bind [OF reads_int32] reads_if) (auto simp: str_ok_def)
qed

lemma write_prims:
  "rwInt v b = b @ le_bytes 8 v" "rwDouble d b = b @ le_bytes 8 (uint d)" "rwBool x b = b @ [if x then 1 else 0]"
  "str_ok s \<Longrightarrow> rwString s b = b @ string_bytes s"
  by (simp_all add: rwInt_def rwDouble_def rwBool_def rwString_def rwInt32_def string_bytes_def str_ok_def count_small)

text \<open>A strict prefix of an encoding is never accepted.\<close>

lemma reads_prefix:
  assumes "reads f e v" "stable f" "n < length e"
  shows "f (reader (take n e)) = None"
proof (cases "f (reader (take n e))")
  case (Some x)
  obtain w r' where x: "x = (w, r')" by fastforce
  have full: "f \<lparr>rd_data = e, rd_offset = 0\<rparr> = Some (v, \<lparr>rd_data = e, rd_offset = length e\<rparr>)"
    using spec [OF spec [OF iffD1 [OF reads_def assms(1)], of "[]"], of "[]"] by simp
  obtain k' where k: "k' \<le> length (take n e)"
    "f \<lparr>rd_data = take n e @ drop n e, rd_offset = 0\<rparr> = Some (w, \<lparr>rd_data = take n e @ drop n e, rd_offset = k'\<rparr>)"
    using assms(2) Some x unfolding stable_def reader_def by blast
  then show ?thesis using full assms(3) by simp
qed simp

section \<open>The interface of a record codec\<close>

text \<open>Where the items of an indexed list start, when the first starts at \<open>k\<close>.\<close>

fun item_offsets :: "('a \<Rightarrow> NitroRecordWriter \<Rightarrow> NitroRecordWriter) \<Rightarrow> nat \<Rightarrow> 'a list \<Rightarrow> nat list" where
  "item_offsets enc k [] = []"
| "item_offsets enc k (x # xs) = k # item_offsets enc (k + length (enc x [])) xs"

locale codec =
  fixes enc :: "'a \<Rightarrow> NitroRecordWriter \<Rightarrow> NitroRecordWriter" and dec :: "NitroRecordReader \<Rightarrow> ('a \<times> NitroRecordReader) option"
    and ok :: "'a \<Rightarrow> bool"
  assumes enc_append: "ok v \<Longrightarrow> enc v b = b @ enc v []" and dec_enc: "ok v \<Longrightarrow> reads dec (enc v []) v" and dec_stable: "stable dec"
begin

lemma roundtrip: "ok v \<Longrightarrow> fromNative dec (enc v []) = Some v"
  using spec [OF spec [OF iffD1 [OF reads_def dec_enc], of v "[]"], of "[]"] by (simp add: fromNative_def reader_def)

lemma trailing: "ok v \<Longrightarrow> fromNative dec (enc v [] @ junk) = Some v"
  using spec [OF spec [OF iffD1 [OF reads_def dec_enc], of v "[]"], of junk] by (simp add: fromNative_def reader_def)

lemma truncated: "ok v \<Longrightarrow> n < length (enc v []) \<Longrightarrow> fromNative dec (take n (enc v [])) = None"
  using reads_prefix [OF dec_enc dec_stable] by (simp add: fromNative_def)

lemma reads_items: "(\<forall>x \<in> set xs. ok x) \<Longrightarrow> reads (read_many dec (length xs)) (concat (map (\<lambda>x. enc x []) xs)) xs"
proof (induction xs)
  case (Cons x xs)
  have "reads (\<lambda>r. do { (y, r) \<leftarrow> dec r; (ys, r) \<leftarrow> read_many dec (length xs) r; Some (y # ys, r) }) (enc x [] @ concat (map (\<lambda>x. enc x []) xs)) (x # xs)"
    using Cons by (intro reads_bind [OF dec_enc] reads_last) auto
  then show ?case by simp
qed (simp add: reads_def)

lemma fold_items: "(\<forall>x \<in> set xs. ok x) \<Longrightarrow> fold enc xs b = b @ concat (map (\<lambda>x. enc x []) xs)"
proof (induction xs arbitrary: b)
  case (Cons x xs)
  then show ?case using enc_append [of x b] by simp
qed simp

text \<open>A field that is a list of records has a codec of its own.\<close>

lemma list_codec: "codec (write_list enc) (read_list dec) (list_ok ok)"
proof
  fix xs b assume xs: "list_ok ok xs"
  then have w: "write_list enc xs b = b @ le_bytes 4 (int (length xs)) @ concat (map (\<lambda>x. enc x []) xs)" for b
    by (simp add: write_list_def list_ok_def count_small fold_items rwInt32_def)
  then show "write_list enc xs b = b @ write_list enc xs []" by simp
  have "reads (read_many dec (nat (int (length xs)))) (concat (map (\<lambda>x. enc x []) xs)) xs" using xs by (simp add: reads_items list_ok_def)
  then have "reads (read_list dec) (le_bytes 4 (int (length xs)) @ concat (map (\<lambda>x. enc x []) xs)) xs"
    unfolding read_list_def [abs_def] using xs by (intro reads_bind [OF reads_int32] reads_if) (auto simp: list_ok_def)
  then show "reads (read_list dec) (write_list enc xs []) xs" by (simp add: w)
qed (rule stable_list [OF dec_stable])

lemma injective: "ok u \<Longrightarrow> ok v \<Longrightarrow> enc u [] = enc v [] \<Longrightarrow> u = v"
  using roundtrip by (metis option.inject)

end

interpretation int_codec: codec rwInt readInt i64_ok
  by unfold_locales (simp_all add: rwInt_def reads_int stable_prims)

context codec
begin

text \<open>A list argument: the offsets of the table are positions in the whole buffer.\<close>

lemma write_items_eq: "(\<forall>x \<in> set xs. ok x) \<Longrightarrow> write_items enc xs b = (b @ concat (map (\<lambda>x. enc x []) xs), item_offsets enc (length b) xs)"
proof (induction xs arbitrary: b)
  case (Cons x xs)
  then have e: "enc x b = b @ enc x []" using enc_append [of x b] by simp
  show ?case using Cons.IH [of "b @ enc x []"] Cons.prems unfolding write_items.simps e by simp
qed simp

lemma read_at_items:
  "(\<forall>x \<in> set xs. ok x) \<Longrightarrow> d = pre @ concat (map (\<lambda>x. enc x []) xs) @ post \<Longrightarrow> int (length d) < 2 ^ 63 \<Longrightarrow> xs \<noteq> [] \<or> k = length pre \<Longrightarrow>
   read_at dec (map int (item_offsets enc (length pre) xs)) \<lparr>rd_data = d, rd_offset = k\<rparr>
     = Some (xs, \<lparr>rd_data = d, rd_offset = length pre + length (concat (map (\<lambda>x. enc x []) xs))\<rparr>)"
proof (induction xs arbitrary: pre k)
  case (Cons x xs)
  let ?rest = "concat (map (\<lambda>x. enc x []) xs)"
  have s: "seek (int (length pre)) \<lparr>rd_data = d, rd_offset = k\<rparr> = Some \<lparr>rd_data = d, rd_offset = length pre\<rparr>"
    using Cons.prems(2, 3) by (simp add: seek_def Let_def)
  have "dec \<lparr>rd_data = pre @ enc x [] @ ?rest @ post, rd_offset = length pre\<rparr> = Some (x, \<lparr>rd_data = pre @ enc x [] @ ?rest @ post, rd_offset = length pre + length (enc x [])\<rparr>)"
    using dec_enc [of x] Cons.prems(1) by (simp add: reads_def)
  moreover have "read_at dec (map int (item_offsets enc (length (pre @ enc x [])) xs)) \<lparr>rd_data = d, rd_offset = length (pre @ enc x [])\<rparr>
     = Some (xs, \<lparr>rd_data = d, rd_offset = length (pre @ enc x []) + length ?rest\<rparr>)"
    by (rule Cons.IH) (use Cons.prems in simp_all)
  moreover have "pre @ enc x [] @ ?rest @ post = d" using Cons.prems(2) by simp
  ultimately show ?case using s by (simp add: add.assoc)
qed simp

lemma indexed_bytes:
  assumes "list_ok ok xs"
  shows "rwIndexedList enc xs b = b @ le_bytes 4 (int (length xs)) @
    concat (map (\<lambda>off. le_bytes 8 (int off)) (item_offsets enc (length b + 4 + 8 * length xs) xs)) @ concat (map (\<lambda>x. enc x []) xs)"
proof -
  have t: "fold (\<lambda>_. rwInt 0) xs c = c @ concat (map (\<lambda>_. le_bytes 8 0) xs)" for c by (induction xs arbitrary: c) (simp_all add: rwInt_def)
  have l: "length (concat (map (\<lambda>_. le_bytes 8 0) xs)) = 8 * length xs" by (induction xs) simp_all
  have o: "length (concat (map (\<lambda>off. le_bytes 8 (int off)) (item_offsets enc k xs))) = 8 * length xs" for k by (induction xs arbitrary: k) simp_all
  have c: "signed_take_bit 31 (int (length xs)) = int (length xs)" using assms by (simp add: list_ok_def count_small)
  have ok': "\<forall>x \<in> set xs. ok x" using assms by (simp add: list_ok_def)
  show ?thesis by (simp add: rwIndexedList_def c rwInt32_def t write_items_eq [OF ok'] backpatch_def o l add.assoc del: length_concat)
qed

lemma item_offsets_bound: "off \<in> set (item_offsets enc k xs) \<Longrightarrow> off \<le> k + length (concat (map (\<lambda>x. enc x []) xs))"
  by (induction xs arbitrary: k) force+

lemma indexed_roundtrip:
  assumes "list_ok ok xs" "int (length (rwIndexedList enc xs b @ post)) < 2 ^ 63"
  shows "readIndexedList dec \<lparr>rd_data = rwIndexedList enc xs b @ post, rd_offset = length b\<rparr>
    = Some (xs, \<lparr>rd_data = rwIndexedList enc xs b @ post, rd_offset = length (rwIndexedList enc xs b)\<rparr>)"
proof -
  define items k where "items = concat (map (\<lambda>x. enc x []) xs)" and "k = length b + 4 + 8 * length xs"
  define offs where "offs = map int (item_offsets enc k xs)"
  define table where "table = concat (map (\<lambda>v. rwInt v []) offs)"
  have "length (concat (map (\<lambda>v. rwInt v []) (map int (item_offsets enc k xs)))) = 8 * length xs" for k by (induction xs arbitrary: k) (simp_all add: rwInt_def)
  then have tl: "length table = 8 * length xs" by (simp add: table_def offs_def)
  have "length (item_offsets enc k xs) = length xs" for k by (induction xs arbitrary: k) simp_all
  then have n: "length offs = length xs" by (simp add: offs_def)
  have d: "rwIndexedList enc xs b = b @ le_bytes 4 (int (length xs)) @ table @ items"
    using indexed_bytes [OF assms(1), of b] by (simp add: rwInt_def comp_def items_def table_def offs_def k_def)
  have len: "length (rwIndexedList enc xs b) = k + length items" by (simp add: d tl k_def)
  have "v \<in> set offs \<Longrightarrow> i64_ok v" for v
    using item_offsets_bound [of _ k xs] assms(2) len by (fastforce simp: offs_def i64_ok_def items_def)
  then have r: "reads (read_many readInt (nat (int (length xs)))) table offs"
    using int_codec.reads_items [of offs] by (simp add: n table_def)
  have c: "reads readInt32 (le_bytes 4 (int (length xs))) (int (length xs))" using assms(1) by (intro reads_int32) (simp_all add: list_ok_def)
  have a: "read_at dec offs \<lparr>rd_data = rwIndexedList enc xs b @ post, rd_offset = k\<rparr>
     = Some (xs, \<lparr>rd_data = rwIndexedList enc xs b @ post, rd_offset = k + length items\<rparr>)"
    unfolding offs_def items_def
    using read_at_items [of xs "rwIndexedList enc xs b @ post" "b @ le_bytes 4 (int (length xs)) @ table" post k] assms tl
    by (simp add: list_ok_def d [unfolded items_def] k_def add.assoc)
  show ?thesis unfolding readIndexedList_def
    using spec [OF spec [OF iffD1 [OF reads_def c], of b], of "table @ items @ post"]
      spec [OF spec [OF iffD1 [OF reads_def r], of "b @ le_bytes 4 (int (length xs))"], of "items @ post"] a len
    by (simp add: d tl k_def add.assoc)
qed

end

section \<open>Every record meets it\<close>

lemma reads_final: "reads f e v \<Longrightarrow> w = h v \<Longrightarrow> reads (\<lambda>r. do { (x, r) \<leftarrow> f r; Some (h x, r) }) e w"
  by (simp add: reads_last)

lemmas reads_prims = reads_bind [OF reads_int] reads_bind [OF reads_string] reads_bind [OF reads_double] reads_bind [OF reads_bool]
  reads_final [OF reads_int] reads_final [OF reads_string] reads_final [OF reads_double] reads_final [OF reads_bool]

interpretation hdr_codec: codec RawHeader_encodeInto RawHeader_fromReader RawHeader_ok
proof
  fix x b assume x: "RawHeader_ok x"
  have w: "RawHeader_encodeInto x b = b @ string_bytes (rh_name x) @ string_bytes (rh_value x)" for b
    using x by (simp add: RawHeader_encodeInto_def RawHeader_ok_def write_prims)
  then show "RawHeader_encodeInto x b = b @ RawHeader_encodeInto x []" by simp
  show "reads RawHeader_fromReader (RawHeader_encodeInto x []) x" unfolding w append_Nil RawHeader_fromReader_def [abs_def]
    by (intro reads_prims) (use x in \<open>simp_all add: RawHeader_ok_def\<close>)
qed (unfold RawHeader_fromReader_def [abs_def], intro stable_bind stable_return stable_prims )

interpretation prm_codec: codec RawRouteParam_encodeInto RawRouteParam_fromReader RawRouteParam_ok
proof
  fix x b assume x: "RawRouteParam_ok x"
  have w: "RawRouteParam_encodeInto x b = b @ string_bytes (rp_name x) @ string_bytes (rp_value x)" for b
    using x by (simp add: RawRouteParam_encodeInto_def RawRouteParam_ok_def write_prims)
  then show "RawRouteParam_encodeInto x b = b @ RawRouteParam_encodeInto x []" by simp
  show "reads RawRouteParam_fromReader (RawRouteParam_encodeInto x []) x" unfolding w append_Nil RawRouteParam_fromReader_def [abs_def]
    by (intro reads_prims) (use x in \<open>simp_all add: RawRouteParam_ok_def\<close>)
qed (unfold RawRouteParam_fromReader_def [abs_def], intro stable_bind stable_return stable_prims )

interpretation prms_codec: codec "write_list RawRouteParam_encodeInto" "read_list RawRouteParam_fromReader" "list_ok RawRouteParam_ok"
  by (rule prm_codec.list_codec)

interpretation tls_codec: codec RawTlsConfig_encodeInto RawTlsConfig_fromReader RawTlsConfig_ok
proof
  fix x b assume x: "RawTlsConfig_ok x"
  have w: "RawTlsConfig_encodeInto x b = b @ string_bytes (rt_certPem x) @ string_bytes (rt_keyPem x) @ string_bytes (rt_certFile x) @ string_bytes (rt_keyFile x) @ le_bytes 8 (rt_minVersion x) @ string_bytes (rt_ciphers x) @ string_bytes (rt_cipherSuites x) @ string_bytes (rt_clientCaPem x) @ string_bytes (rt_clientCaFile x)" for b
    using x by (simp add: RawTlsConfig_encodeInto_def RawTlsConfig_ok_def write_prims)
  then show "RawTlsConfig_encodeInto x b = b @ RawTlsConfig_encodeInto x []" by simp
  show "reads RawTlsConfig_fromReader (RawTlsConfig_encodeInto x []) x" unfolding w append_Nil RawTlsConfig_fromReader_def [abs_def]
    by (intro reads_prims) (use x in \<open>simp_all add: RawTlsConfig_ok_def\<close>)
qed (unfold RawTlsConfig_fromReader_def [abs_def], intro stable_bind stable_return stable_prims )

interpretation scf_codec: codec RawServerConfig_encodeInto RawServerConfig_fromReader RawServerConfig_ok
proof
  fix x b assume x: "RawServerConfig_ok x"
  define e where "e = RawTlsConfig_encodeInto (rs_tls x) []"
  have e: "RawTlsConfig_encodeInto (rs_tls x) b = b @ e" for b using tls_codec.enc_append [of "rs_tls x" b] x by (simp add: e_def RawServerConfig_ok_def)
  have d: "reads RawTlsConfig_fromReader e (rs_tls x)" using tls_codec.dec_enc [of "rs_tls x"] x by (simp add: e_def RawServerConfig_ok_def)
  have w: "RawServerConfig_encodeInto x b = b @ string_bytes (rs_host x) @ le_bytes 8 (rs_port x) @ le_bytes 8 (rs_backlog x) @ le_bytes 8 (rs_maxBodyBytes x) @ le_bytes 8 (rs_defaultTimeoutMs x) @ le_bytes 8 (rs_keepAliveTimeoutMs x) @ le_bytes 8 (rs_maxRequestsPerConn x) @ le_bytes 8 (rs_workerThreads x) @ le_bytes 8 (rs_maxConnections x) @ le_bytes 8 (rs_maxConnectionsPerIp x) @ le_bytes 8 (rs_headerTimeoutMs x) @ le_bytes 8 (rs_writeTimeoutMs x) @ le_bytes 8 (rs_wsMaxBufferBytes x) @ le_bytes 8 (rs_streamMaxBufferBytes x) @ le_bytes 8 (rs_streamIdleTimeoutMs x) @ le_bytes 8 (rs_maxBufferedBodyBytes x) @ [if rs_wsCompression x then 1 else 0] @ le_bytes 8 (rs_bodyTimeoutMs x) @ le_bytes 8 (rs_wsIdleTimeoutMs x) @ le_bytes 8 (rs_maxConnectionAgeMs x) @ le_bytes 8 (rs_maxInFlightRequests x) @ [if rs_proxyProtocol x then 1 else 0] @ [if rs_http2 x then 1 else 0] @ [if rs_keepAliveHeader x then 1 else 0] @ e" for b
    using x by (simp add: RawServerConfig_encodeInto_def RawServerConfig_ok_def write_prims e)
  then show "RawServerConfig_encodeInto x b = b @ RawServerConfig_encodeInto x []" by simp
  show "reads RawServerConfig_fromReader (RawServerConfig_encodeInto x []) x" unfolding w append_Nil RawServerConfig_fromReader_def [abs_def]
    by (intro reads_prims reads_bind [OF d] reads_final [OF d]) (use x in \<open>simp_all add: RawServerConfig_ok_def\<close>)
qed (unfold RawServerConfig_fromReader_def [abs_def], intro stable_bind stable_return stable_prims tls_codec.dec_stable)

interpretation rcf_codec: codec RawRouteConfig_encodeInto RawRouteConfig_fromReader RawRouteConfig_ok
proof
  fix x b assume x: "RawRouteConfig_ok x"
  have w: "RawRouteConfig_encodeInto x b = b @ le_bytes 8 (rr_method x) @ string_bytes (rr_customMethod x) @ string_bytes (rr_pattern x) @ le_bytes 8 (rr_timeoutMs x) @ [if rr_isWebSocket x then 1 else 0] @ [if rr_streamBody x then 1 else 0] @ le_bytes 8 (rr_maxBodyBytes x) @ string_bytes (rr_wsProtocols x)" for b
    using x by (simp add: RawRouteConfig_encodeInto_def RawRouteConfig_ok_def write_prims)
  then show "RawRouteConfig_encodeInto x b = b @ RawRouteConfig_encodeInto x []" by simp
  show "reads RawRouteConfig_fromReader (RawRouteConfig_encodeInto x []) x" unfolding w append_Nil RawRouteConfig_fromReader_def [abs_def]
    by (intro reads_prims) (use x in \<open>simp_all add: RawRouteConfig_ok_def\<close>)
qed (unfold RawRouteConfig_fromReader_def [abs_def], intro stable_bind stable_return stable_prims )

interpretation sts_codec: codec RawServerStatus_encodeInto RawServerStatus_fromReader RawServerStatus_ok
proof
  fix x b assume x: "RawServerStatus_ok x"
  have w: "RawServerStatus_encodeInto x b = b @ le_bytes 8 (ra_errorKind x) @ string_bytes (ra_errorMessage x) @ le_bytes 8 (ra_boundPort x)" for b
    using x by (simp add: RawServerStatus_encodeInto_def RawServerStatus_ok_def write_prims)
  then show "RawServerStatus_encodeInto x b = b @ RawServerStatus_encodeInto x []" by simp
  show "reads RawServerStatus_fromReader (RawServerStatus_encodeInto x []) x" unfolding w append_Nil RawServerStatus_fromReader_def [abs_def]
    by (intro reads_prims) (use x in \<open>simp_all add: RawServerStatus_ok_def\<close>)
qed (unfold RawServerStatus_fromReader_def [abs_def], intro stable_bind stable_return stable_prims )

interpretation req_codec: codec RawIncomingRequest_encodeInto RawIncomingRequest_fromReader RawIncomingRequest_ok
proof
  fix x b assume x: "RawIncomingRequest_ok x"
  define e where "e = write_list RawRouteParam_encodeInto (rq_params x) []"
  have e: "write_list RawRouteParam_encodeInto (rq_params x) b = b @ e" for b using prms_codec.enc_append [of "rq_params x" b] x by (simp add: e_def RawIncomingRequest_ok_def)
  have d: "reads (read_list RawRouteParam_fromReader) e (rq_params x)" using prms_codec.dec_enc [of "rq_params x"] x by (simp add: e_def RawIncomingRequest_ok_def)
  have w: "RawIncomingRequest_encodeInto x b = b @ le_bytes 8 (rq_requestId x) @ le_bytes 8 (rq_method x) @ string_bytes (rq_customMethod x) @ string_bytes (rq_path x) @ string_bytes (rq_query x) @ string_bytes (rq_packedHeaders x) @ le_bytes 8 (rq_contentLength x) @ [if rq_hasBody x then 1 else 0] @ [if rq_bodyComplete x then 1 else 0] @ string_bytes (rq_routePattern x) @ e @ string_bytes (rq_clientIp x)" for b
    using x by (simp add: RawIncomingRequest_encodeInto_def RawIncomingRequest_ok_def write_prims e)
  then show "RawIncomingRequest_encodeInto x b = b @ RawIncomingRequest_encodeInto x []" by simp
  show "reads RawIncomingRequest_fromReader (RawIncomingRequest_encodeInto x []) x" unfolding w append_Nil RawIncomingRequest_fromReader_def [abs_def]
    by (intro reads_prims reads_bind [OF d] reads_final [OF d]) (use x in \<open>simp_all add: RawIncomingRequest_ok_def\<close>)
qed (unfold RawIncomingRequest_fromReader_def [abs_def], intro stable_bind stable_return stable_prims prms_codec.dec_stable)

interpretation evt_codec: codec RawServerEvent_encodeInto RawServerEvent_fromReader RawServerEvent_ok
proof
  fix x b assume x: "RawServerEvent_ok x"
  have w: "RawServerEvent_encodeInto x b = b @ le_bytes 8 (rv_kind x) @ le_bytes 8 (rv_requestId x) @ string_bytes (rv_message x)" for b
    using x by (simp add: RawServerEvent_encodeInto_def RawServerEvent_ok_def write_prims)
  then show "RawServerEvent_encodeInto x b = b @ RawServerEvent_encodeInto x []" by simp
  show "reads RawServerEvent_fromReader (RawServerEvent_encodeInto x []) x" unfolding w append_Nil RawServerEvent_fromReader_def [abs_def]
    by (intro reads_prims) (use x in \<open>simp_all add: RawServerEvent_ok_def\<close>)
qed (unfold RawServerEvent_fromReader_def [abs_def], intro stable_bind stable_return stable_prims )

interpretation nin_codec: codec NitroNullableInt_encodeInto NitroNullableInt_fromReader NitroNullableInt_ok
proof
  fix x b assume x: "NitroNullableInt_ok x"
  have w: "NitroNullableInt_encodeInto x b = b @ [if ni_hasValue x then 1 else 0] @ le_bytes 8 (ni_value x)" for b
    using x by (simp add: NitroNullableInt_encodeInto_def NitroNullableInt_ok_def write_prims)
  then show "NitroNullableInt_encodeInto x b = b @ NitroNullableInt_encodeInto x []" by simp
  show "reads NitroNullableInt_fromReader (NitroNullableInt_encodeInto x []) x" unfolding w append_Nil NitroNullableInt_fromReader_def [abs_def]
    by (intro reads_prims) (use x in \<open>simp_all add: NitroNullableInt_ok_def\<close>)
qed (unfold NitroNullableInt_fromReader_def [abs_def], intro stable_bind stable_return stable_prims )

interpretation ndb_codec: codec NitroNullableDouble_encodeInto NitroNullableDouble_fromReader NitroNullableDouble_ok
proof
  fix x b assume x: "NitroNullableDouble_ok x"
  have w: "NitroNullableDouble_encodeInto x b = b @ [if nd_hasValue x then 1 else 0] @ le_bytes 8 (uint (nd_value x))" for b
    using x by (simp add: NitroNullableDouble_encodeInto_def NitroNullableDouble_ok_def write_prims)
  then show "NitroNullableDouble_encodeInto x b = b @ NitroNullableDouble_encodeInto x []" by simp
  show "reads NitroNullableDouble_fromReader (NitroNullableDouble_encodeInto x []) x" unfolding w append_Nil NitroNullableDouble_fromReader_def [abs_def]
    by (intro reads_prims) (use x in \<open>simp_all add: NitroNullableDouble_ok_def\<close>)
qed (unfold NitroNullableDouble_fromReader_def [abs_def], intro stable_bind stable_return stable_prims )

interpretation nbl_codec: codec NitroNullableBool_encodeInto NitroNullableBool_fromReader NitroNullableBool_ok
proof
  fix x b assume x: "NitroNullableBool_ok x"
  have w: "NitroNullableBool_encodeInto x b = b @ [if nb_hasValue x then 1 else 0] @ [if nb_value x then 1 else 0]" for b
    using x by (simp add: NitroNullableBool_encodeInto_def NitroNullableBool_ok_def write_prims)
  then show "NitroNullableBool_encodeInto x b = b @ NitroNullableBool_encodeInto x []" by simp
  show "reads NitroNullableBool_fromReader (NitroNullableBool_encodeInto x []) x" unfolding w append_Nil NitroNullableBool_fromReader_def [abs_def]
    by (intro reads_prims) (use x in \<open>simp_all add: NitroNullableBool_ok_def\<close>)
qed (unfold NitroNullableBool_fromReader_def [abs_def], intro stable_bind stable_return stable_prims )

interpretation chk_codec: codec RawBodyChunk_encodeInto RawBodyChunk_fromReader RawBodyChunk_ok
proof
  fix x b assume x: "RawBodyChunk_ok x"
  have w: "RawBodyChunk_encodeInto x b = b @ le_bytes 8 (rc_requestId x) @ le_bytes 8 (rc_kind x) @ le_bytes 8 (rc_aux x)" for b
    using x by (simp add: RawBodyChunk_encodeInto_def RawBodyChunk_ok_def write_prims)
  then show "RawBodyChunk_encodeInto x b = b @ RawBodyChunk_encodeInto x []" by simp
  show "reads RawBodyChunk_fromReader (RawBodyChunk_encodeInto x []) x" unfolding w append_Nil RawBodyChunk_fromReader_def [abs_def]
    by (intro reads_prims) (use x in \<open>simp_all add: RawBodyChunk_ok_def\<close>)
qed (unfold RawBodyChunk_fromReader_def [abs_def], intro stable_bind stable_return stable_prims)

interpretation wsm_codec: codec RawWsMessage_encodeInto RawWsMessage_fromReader RawWsMessage_ok
proof
  fix x b assume x: "RawWsMessage_ok x"
  have w: "RawWsMessage_encodeInto x b = b @ le_bytes 8 (rw_connectionId x) @ le_bytes 8 (rw_kind x) @ le_bytes 8 (rw_aux x)" for b
    using x by (simp add: RawWsMessage_encodeInto_def RawWsMessage_ok_def write_prims)
  then show "RawWsMessage_encodeInto x b = b @ RawWsMessage_encodeInto x []" by simp
  show "reads RawWsMessage_fromReader (RawWsMessage_encodeInto x []) x" unfolding w append_Nil RawWsMessage_fromReader_def [abs_def]
    by (intro reads_prims) (use x in \<open>simp_all add: RawWsMessage_ok_def\<close>)
qed (unfold RawWsMessage_fromReader_def [abs_def], intro stable_bind stable_return stable_prims)

section \<open>Properties\<close>

text \<open>The records that cross the bridge, as one type.\<close>

datatype raw_record =
    RHeader RawHeader | RParam RawRouteParam | RTls RawTlsConfig | RServerConfig RawServerConfig | RRouteConfig RawRouteConfig
  | RStatus RawServerStatus | RRequest RawIncomingRequest | REvent RawServerEvent
  | RInt NitroNullableInt | RDouble NitroNullableDouble | RBool NitroNullableBool

definition record_encode :: "raw_record \<Rightarrow> bytes" where
  "record_encode x = (case x of
       RHeader y \<Rightarrow> RawHeader_encodeInto y [] | RParam y \<Rightarrow> RawRouteParam_encodeInto y [] | RTls y \<Rightarrow> RawTlsConfig_encodeInto y []
     | RServerConfig y \<Rightarrow> RawServerConfig_encodeInto y [] | RRouteConfig y \<Rightarrow> RawRouteConfig_encodeInto y []
     | RStatus y \<Rightarrow> RawServerStatus_encodeInto y [] | RRequest y \<Rightarrow> RawIncomingRequest_encodeInto y [] | REvent y \<Rightarrow> RawServerEvent_encodeInto y []
     | RInt y \<Rightarrow> NitroNullableInt_encodeInto y [] | RDouble y \<Rightarrow> NitroNullableDouble_encodeInto y [] | RBool y \<Rightarrow> NitroNullableBool_encodeInto y [])"

text \<open>Decoding as a record of the kind of \<open>x\<close>.\<close>

definition record_decode :: "raw_record \<Rightarrow> bytes \<Rightarrow> raw_record option" where
  "record_decode x d = (case x of
       RHeader _ \<Rightarrow> map_option RHeader (fromNative RawHeader_fromReader d) | RParam _ \<Rightarrow> map_option RParam (fromNative RawRouteParam_fromReader d)
     | RTls _ \<Rightarrow> map_option RTls (fromNative RawTlsConfig_fromReader d) | RServerConfig _ \<Rightarrow> map_option RServerConfig (fromNative RawServerConfig_fromReader d)
     | RRouteConfig _ \<Rightarrow> map_option RRouteConfig (fromNative RawRouteConfig_fromReader d) | RStatus _ \<Rightarrow> map_option RStatus (fromNative RawServerStatus_fromReader d)
     | RRequest _ \<Rightarrow> map_option RRequest (fromNative RawIncomingRequest_fromReader d) | REvent _ \<Rightarrow> map_option REvent (fromNative RawServerEvent_fromReader d)
     | RInt _ \<Rightarrow> map_option RInt (fromNative NitroNullableInt_fromReader d) | RDouble _ \<Rightarrow> map_option RDouble (fromNative NitroNullableDouble_fromReader d)
     | RBool _ \<Rightarrow> map_option RBool (fromNative NitroNullableBool_fromReader d))"

definition record_ok :: "raw_record \<Rightarrow> bool" where
  "record_ok x = (case x of
       RHeader y \<Rightarrow> RawHeader_ok y | RParam y \<Rightarrow> RawRouteParam_ok y | RTls y \<Rightarrow> RawTlsConfig_ok y | RServerConfig y \<Rightarrow> RawServerConfig_ok y
     | RRouteConfig y \<Rightarrow> RawRouteConfig_ok y | RStatus y \<Rightarrow> RawServerStatus_ok y | RRequest y \<Rightarrow> RawIncomingRequest_ok y | REvent y \<Rightarrow> RawServerEvent_ok y
     | RInt y \<Rightarrow> NitroNullableInt_ok y | RDouble y \<Rightarrow> NitroNullableDouble_ok y | RBool y \<Rightarrow> NitroNullableBool_ok y)"

lemmas record_trailing = hdr_codec.trailing prm_codec.trailing tls_codec.trailing scf_codec.trailing rcf_codec.trailing
  sts_codec.trailing req_codec.trailing evt_codec.trailing nin_codec.trailing ndb_codec.trailing nbl_codec.trailing

lemmas record_truncated = hdr_codec.truncated prm_codec.truncated tls_codec.truncated scf_codec.truncated rcf_codec.truncated
  sts_codec.truncated req_codec.truncated evt_codec.truncated nin_codec.truncated ndb_codec.truncated nbl_codec.truncated

text \<open>
  C20: for every record that crosses the bridge (configuration, route, TLS material, status, request, event,
  header, parameter, nullable scalars), whose integers fit 64 bits and whose strings and lists fit the 32-bit
  count: decoding its encoding, with any bytes behind it, gives the record back; decoding any strict prefix of the
  encoding throws, it never yields a record read past the end of the buffer.
\<close>

theorem record_codec_roundtrip:
  "record_ok x \<Longrightarrow> record_decode x (record_encode x @ junk) = Some x \<and>
     (\<forall>n < length (record_encode x). record_decode x (take n (record_encode x)) = None)"
  by (cases x) (simp_all add: record_ok_def record_encode_def record_decode_def record_trailing record_truncated)

theorem record_codec_roundtrip_witness:
  "let x = REvent \<lparr>rv_kind = 2, rv_requestId = -1, rv_message = ''up''\<rparr> in
     record_ok x \<and> length (record_encode x) = 22 \<and> record_decode x (record_encode x @ [7]) = Some x \<and> record_decode x (take 21 (record_encode x)) = None"
proof -
  let ?x = "REvent \<lparr>rv_kind = 2, rv_requestId = -1, rv_message = ''up''\<rparr>"
  have ok: "record_ok ?x" by (simp add: record_ok_def RawServerEvent_ok_def i64_ok_def str_ok_def)
  have l: "length (record_encode ?x) = 22" by (simp add: record_encode_def RawServerEvent_encodeInto_def rwInt_def rwString_def rwInt32_def)
  show ?thesis using record_codec_roundtrip [OF ok, of "[7]"] ok l by (simp add: Let_def)
qed

end
