(* ===== verification/Bridge.thy ===== *)
theory Bridge
  imports RecordCodec HttpParse ReactorLoop
begin

text \<open>
  The bridge between the engine and the handlers' language: the header-list argument (\<open>Wire.h\<close>), the sink that turns the
  engine's calls into stream items and the object behind an instance key (\<open>HybridNitroServer.cpp\<close>), and the
  registry that shares one engine per key (\<open>EngineRegistry.cpp\<close>).

  A C++ exception that leaves an operation is \<open>None\<close>. The engine is the one built without TLS. An enumeration value
  outside its declared range, which the other side never writes, is treated like a malformed record.
\<close>

section \<open>Header lists\<close>

fun skip_ints :: "nat \<Rightarrow> NitroRecordReader \<Rightarrow> NitroRecordReader option" where
  "skip_ints 0 r = Some r"
| "skip_ints (Suc n) r = do { (_, r) \<leftarrow> readInt r; skip_ints n r }"

definition read_header :: "NitroRecordReader \<Rightarrow> (header \<times> NitroRecordReader) option" where
  "read_header r = do { (n, r) \<leftarrow> readString r; (v, r) \<leftarrow> readString r; Some (hdr n v, r) }"

definition decodeHeaderList :: "bytes \<Rightarrow> header list option" where
  "decodeHeaderList buf =
     do { (n, r) \<leftarrow> readInt32 (reader buf);
          if n < 0 \<or> n > 1024 then None
          else do { r \<leftarrow> skip_ints (nat n) r; (hs, _) \<leftarrow> read_many read_header (nat n) r; Some hs } }"

section \<open>The sink\<close>

abbreviation NUL :: char where "NUL \<equiv> CHR 0x00"

definition packHeaders :: "header list \<Rightarrow> string" where
  "packHeaders hs = fold (\<lambda>h p. (if p \<noteq> [] then p @ [NUL] else p) @ h_name h @ [NUL] @ h_value h) hs []"

definition head_record ::
  "int \<Rightarrow> Method \<Rightarrow> string \<Rightarrow> string \<Rightarrow> string \<Rightarrow> header list \<Rightarrow> int \<Rightarrow> bool \<Rightarrow> bool \<Rightarrow> string \<Rightarrow> route_param list \<Rightarrow> string \<Rightarrow> RawIncomingRequest" where
  "head_record i m cm p q hs cl hasBody bodyComplete rp ps ip =
     \<lparr>rq_requestId = i, rq_method = method_index m, rq_customMethod = cm, rq_path = p, rq_query = q,
      rq_packedHeaders = packHeaders hs, rq_contentLength = cl, rq_hasBody = hasBody, rq_bodyComplete = bodyComplete,
      rq_routePattern = rp, rq_params = map (\<lambda>x. \<lparr>rp_name = p_name x, rp_value = p_value x\<rparr>) ps, rq_clientIp = ip\<rparr>"

text \<open>What a call on the sink puts on the four streams; \<open>None\<close> for a block that could not be allocated.\<close>

datatype stream_item =
    IncomingRequest "bytes option"
  | BodyChunkItem RawBodyChunk
  | WsMessageItem RawWsMessage
  | ServerEventItem "bytes option"

definition body_chunk :: "bytes \<Rightarrow> int \<Rightarrow> BodyKind \<Rightarrow> int \<Rightarrow> RawBodyChunk" where
  "body_chunk p i k aux = \<lparr>rc_bytes = p, rc_requestId = i, rc_kind = body_index k, rc_aux = aux\<rparr>"

definition bridge_emit :: "bool \<Rightarrow> emit_call \<Rightarrow> stream_item" where
  "bridge_emit malloc_ok x = (case x of
       EmitHead i m cm p q hs cl hasBody bodyComplete rp ps ip \<Rightarrow>
         IncomingRequest (toNative malloc_ok (RawIncomingRequest_encodeInto (head_record i m cm p q hs cl hasBody bodyComplete rp ps ip) []))
     | EmitBodyData i _ p \<Rightarrow> BodyChunkItem (body_chunk p i Data 0)
     | EmitBodyEnd i \<Rightarrow> BodyChunkItem (body_chunk [] i End 0)
     | EmitBodyError i _ p k \<Rightarrow> BodyChunkItem (body_chunk p i Error (error_index k))
     | EmitWsMessage c _ p opc code \<Rightarrow> WsMessageItem \<lparr>rw_payload = p, rw_connectionId = c, rw_kind = opc, rw_aux = code\<rparr>
     | EmitEvent k i msg \<Rightarrow>
         ServerEventItem (toNative malloc_ok (RawServerEvent_encodeInto \<lparr>rv_kind = event_index k, rv_requestId = i, rv_message = msg\<rparr> [])))"

section \<open>The object behind an instance key\<close>

definition toStatus :: "StatusResult \<Rightarrow> RawServerStatus" where
  "toStatus s = \<lparr>ra_errorKind = error_index (kind s), ra_errorMessage = message s, ra_boundPort = boundPort s\<rparr>"

text \<open>\<open>toStatus(s).toNativeBuffer()\<close>, the answer of a call that reports a status; \<open>with_status\<close> applies it to the call's result.\<close>

definition status_bytes :: "StatusResult \<Rightarrow> bytes option" where
  "status_bytes s = toNative True (RawServerStatus_encodeInto (toStatus s) [])"

definition with_status :: "'r \<times> StatusResult \<Rightarrow> 'r \<times> bytes option" where
  "with_status x = (fst x, status_bytes (snd x))"

definition method_of_index :: "int \<Rightarrow> Method option" where
  "method_of_index i = find (\<lambda>m. method_index m = i) [Get, Head, Post, Put, Delete, Patch, Options, Trace, All, Custom]"

definition engineVersion :: string where
  "engineVersion = ''nitro_server/0.0.1 http/1.1 threads''"

definition to_config :: "RawServerConfig \<Rightarrow> ServerConfig" where
  "to_config raw = \<lparr>
     host = rs_host raw, port = rs_port raw, backlog = rs_backlog raw, maxBodyBytes = rs_maxBodyBytes raw,
     defaultTimeoutMs = rs_defaultTimeoutMs raw, keepAliveTimeoutMs = rs_keepAliveTimeoutMs raw,
     keepAliveHeader = rs_keepAliveHeader raw, maxRequestsPerConn = rs_maxRequestsPerConn raw,
     workerThreads = rs_workerThreads raw, maxConnections = rs_maxConnections raw,
     maxConnectionsPerIp = rs_maxConnectionsPerIp raw, headerTimeoutMs = rs_headerTimeoutMs raw,
     writeTimeoutMs = rs_writeTimeoutMs raw, wsMaxBufferBytes = rs_wsMaxBufferBytes raw,
     streamMaxBufferBytes = rs_streamMaxBufferBytes raw, streamIdleTimeoutMs = rs_streamIdleTimeoutMs raw,
     maxBufferedBodyBytes = rs_maxBufferedBodyBytes raw, wsCompression = rs_wsCompression raw,
     bodyTimeoutMs = rs_bodyTimeoutMs raw, wsIdleTimeoutMs = rs_wsIdleTimeoutMs raw,
     maxConnectionAgeMs = rs_maxConnectionAgeMs raw, maxInFlightRequests = rs_maxInFlightRequests raw,
     http2 = rs_http2 raw,
     tlsRequested = (rt_certPem (rs_tls raw) \<noteq> [] \<or> rt_keyPem (rs_tls raw) \<noteq> [] \<or> rt_certFile (rs_tls raw) \<noteq> [] \<or> rt_keyFile (rs_tls raw) \<noteq> []),
     tlsCertPem = rt_certPem (rs_tls raw), tlsKeyPem = rt_keyPem (rs_tls raw), tlsCertFile = rt_certFile (rs_tls raw),
     tlsKeyFile = rt_keyFile (rs_tls raw), tlsMinVersion = rt_minVersion (rs_tls raw), tlsCiphers = rt_ciphers (rs_tls raw),
     tlsCipherSuites = rt_cipherSuites (rs_tls raw), tlsClientCaPem = rt_clientCaPem (rs_tls raw),
     tlsClientCaFile = rt_clientCaFile (rs_tls raw), proxyProtocol = rs_proxyProtocol raw\<rparr>"

definition configureServer :: "bytes \<Rightarrow> Reactor \<Rightarrow> Reactor option" where
  "configureServer config r = map_option (\<lambda>raw. configure (to_config raw) r) (fromNative RawServerConfig_fromReader config)"

text \<open>\<open>UvReactor::reloadTls\<close> of an engine built without TLS.\<close>

definition engine_reloadTls :: "string \<Rightarrow> string \<Rightarrow> string \<Rightarrow> string \<Rightarrow> Reactor \<Rightarrow> StatusResult" where
  "engine_reloadTls certPem keyPem certFile keyFile r = \<lparr>kind = TlsError, message = ''engine built without TLS'', boundPort = 0\<rparr>"

definition native_reloadTls :: "bytes \<Rightarrow> Reactor \<Rightarrow> bool option" where
  "native_reloadTls tls r =
     map_option (\<lambda>raw. kind (engine_reloadTls (rt_certPem raw) (rt_keyPem raw) (rt_certFile raw) (rt_keyFile raw) r) = ENone)
       (fromNative RawTlsConfig_fromReader tls)"

definition native_registerRoute :: "bytes \<Rightarrow> Reactor \<Rightarrow> (Reactor \<times> bytes option) option" where
  "native_registerRoute route r =
     do { raw \<leftarrow> fromNative RawRouteConfig_fromReader route;
          m \<leftarrow> method_of_index (rr_method raw);
          Some (with_status (registerRoute m (rr_customMethod raw) (rr_pattern raw) (rr_timeoutMs raw) (rr_isWebSocket raw) (rr_streamBody raw)
                  (rr_maxBodyBytes raw) (rr_wsProtocols raw) r)) }"

definition native_unregisterRoute :: "string \<Rightarrow> string \<Rightarrow> Reactor \<Rightarrow> Reactor \<times> bytes option" where
  "native_unregisterRoute tok pattern r =
     (case parseUnregisterMethod tok [] of (m, custom) \<Rightarrow> with_status (unregisterRoute m custom pattern r))"

definition native_registerStaticRoute :: "string \<Rightarrow> string \<Rightarrow> int \<Rightarrow> bytes \<Rightarrow> string \<Rightarrow> Reactor \<Rightarrow> Reactor \<times> bytes option" where
  "native_registerStaticRoute tok pattern status headers body r =
     (case parseUnregisterMethod tok [] of (m, custom) \<Rightarrow>
        case decodeHeaderList headers of
          None \<Rightarrow> with_status (r, \<lparr>kind = BadRequest, message = ''malformed static route headers'', boundPort = 0\<rparr>)
        | Some hs \<Rightarrow> with_status (registerStaticRoute m custom pattern status hs body r))"

definition native_respondFile ::
  "Env \<Rightarrow> (string \<Rightarrow> int) \<Rightarrow> (int \<Rightarrow> int option) \<Rightarrow> int \<Rightarrow> int \<Rightarrow> bytes \<Rightarrow> string \<Rightarrow> int \<Rightarrow> int \<Rightarrow> Reactor \<Rightarrow> Reactor" where
  "native_respondFile env fopen fstat i status headers path offset len r =
     (case decodeHeaderList headers of None \<Rightarrow> r | Some hs \<Rightarrow> respondFile env fopen fstat i status hs path offset len r)"

definition native_respond :: "Env \<Rightarrow> int \<Rightarrow> int \<Rightarrow> bytes \<Rightarrow> string option \<Rightarrow> nat \<Rightarrow> Reactor \<Rightarrow> Reactor" where
  "native_respond env i status headers body bodyLen r =
     (case decodeHeaderList headers of None \<Rightarrow> r | Some hs \<Rightarrow> respond env i status hs body bodyLen r)"

definition native_startStream :: "Env \<Rightarrow> int \<Rightarrow> int \<Rightarrow> bytes \<Rightarrow> Reactor \<Rightarrow> Reactor" where
  "native_startStream env i status headers r =
     (case decodeHeaderList headers of None \<Rightarrow> r | Some hs \<Rightarrow> startStream env i status hs r)"

text \<open>\<open>(int)code\<close>.\<close>

definition native_wsClose :: "int \<Rightarrow> int \<Rightarrow> Reactor \<Rightarrow> Reactor" where
  "native_wsClose c code r = wsClose c (signed_take_bit 31 code) r"

section \<open>The registry\<close>

text \<open>
  The engines of the process, in the order they were made (a \<open>shared_ptr\<close> is a number), the registry's map, the
  set of ports the engines of the process share and the listening sockets of each. \<open>run\<close> is what the loop threads of
  an engine do until they are joined.
\<close>

record Registry =
  engines :: "Reactor list"
  instances :: "(string \<times> nat) list"
  rg_ports :: "int list"
  rg_socks :: "nat \<Rightarrow> nat list"

definition new_registry :: Registry where
  "new_registry = \<lparr>engines = [], instances = [], rg_ports = [], rg_socks = (\<lambda>_. [])\<rparr>"

definition resolve :: "string \<Rightarrow> nat \<Rightarrow> Registry \<Rightarrow> Registry \<times> nat" where
  "resolve key em g =
     (case map_of (instances g) key of
        Some i \<Rightarrow> (g\<lparr>engines := (engines g)[i := addEmitter em (engines g ! i)]\<rparr>, i)
      | None \<Rightarrow>
          let i = length (engines g)
          in (g\<lparr>engines := engines g @ [addEmitter em new_reactor], instances := (key, i) # instances g\<rparr>, i))"

definition engine_stop :: "(Reactor \<Rightarrow> Reactor) \<Rightarrow> Reactor \<times> Host \<Rightarrow> Reactor \<times> Host" where
  "engine_stop run x = (case x of (r, h) \<Rightarrow> if \<not> running r then (r, h) else stop_finish (run (stop_request r), h))"

definition host_of :: "nat \<Rightarrow> Registry \<Rightarrow> Host" where
  "host_of i g = \<lparr>boundPorts = rg_ports g, openSocks = rg_socks g i\<rparr>"

definition put_engine :: "nat \<Rightarrow> Reactor \<times> Host \<Rightarrow> Registry \<Rightarrow> Registry" where
  "put_engine i x g =
     g\<lparr>engines := (engines g)[i := fst x], rg_ports := boundPorts (snd x), rg_socks := (rg_socks g)(i := openSocks (snd x))\<rparr>"

definition native_start ::
  "int \<Rightarrow> nat \<Rightarrow> string option \<Rightarrow> (addr_family \<Rightarrow> string \<Rightarrow> bool) \<Rightarrow> (nat \<Rightarrow> sock_outcome) \<Rightarrow> nat \<Rightarrow> Registry \<Rightarrow> Registry \<times> bytes option" where
  "native_start nloops cores dw pton sock i g =
     (case start nloops cores dw pton sock (engines g ! i, host_of i g) of (r, h, s) \<Rightarrow> with_status (put_engine i (r, h) g, s))"

definition native_stop :: "(Reactor \<Rightarrow> Reactor) \<Rightarrow> nat \<Rightarrow> Registry \<Rightarrow> Registry" where
  "native_stop run i g = put_engine i (engine_stop run (engines g ! i, host_of i g)) g"

definition resetAll :: "(Reactor \<Rightarrow> Reactor) \<Rightarrow> Registry \<Rightarrow> Registry" where
  "resetAll run g = (fold (\<lambda>(_, i). native_stop run i) (instances g) g)\<lparr>instances := []\<rparr>"

text \<open>The constructor, the destructor and \<open>detachEmitter\<close> of a bridge object; \<open>em\<close> is the address of its sink.\<close>

definition make_bridge :: "string \<Rightarrow> nat \<Rightarrow> Registry \<Rightarrow> Registry \<times> nat" where
  "make_bridge key em g = resolve key em g"

definition detachEmitter :: "nat \<Rightarrow> nat \<Rightarrow> Registry \<Rightarrow> Registry \<times> bool" where
  "detachEmitter i em g =
     (case removeEmitter em (engines g ! i) of (r, ok) \<Rightarrow> (g\<lparr>engines := (engines g)[i := r]\<rparr>, ok))"

definition destroy_bridge :: "nat \<Rightarrow> nat \<Rightarrow> Registry \<Rightarrow> Registry" where
  "destroy_bridge i em g = fst (detachEmitter i em g)"

section \<open>Header lists cross the bridge\<close>

definition to_header :: "RawHeader \<Rightarrow> header" where
  "to_header h = hdr (rh_name h) (rh_value h)"

lemma read_header_eq: "read_header r = map_option (map_prod to_header id) (RawHeader_fromReader r)"
  by (cases "readString r") (auto simp: read_header_def RawHeader_fromReader_def to_header_def map_option_bind comp_def split: option.splits bind_splits)

lemma read_headers_eq: "read_many read_header n r = map_option (map_prod (map to_header) id) (read_many RawHeader_fromReader n r)"
  by (induction n arbitrary: r) (auto simp: read_header_eq split: bind_splits)

lemma skip_ints_eq: "skip_ints n r = map_option snd (read_many readInt n r)"
  by (induction n arbitrary: r) (auto split: bind_splits)

text \<open>The decoder of \<open>Wire.h\<close> as a reader: the count, the table, the items in order.\<close>

definition wire_headers :: "NitroRecordReader \<Rightarrow> (RawHeader list \<times> NitroRecordReader) option" where
  "wire_headers r =
     do { (n, r) \<leftarrow> readInt32 r;
          if n < 0 \<or> n > 1024 then None
          else do { (_, r) \<leftarrow> read_many readInt (nat n) r; read_many RawHeader_fromReader (nat n) r } }"

lemma decodeHeaderList_eq: "decodeHeaderList buf = map_option (map to_header \<circ> fst) (wire_headers (reader buf))"
  by (auto simp: decodeHeaderList_def wire_headers_def skip_ints_eq read_headers_eq split: bind_splits option.splits)

lemma wire_headers_stable: "stable wire_headers"
  unfolding wire_headers_def [abs_def] by (intro stable_bind stable_guard stable_many stable_prims hdr_codec.dec_stable)

lemma wire_headers_reads:
  assumes "list_ok RawHeader_ok hs" "int (length (rwIndexedList RawHeader_encodeInto hs [])) < 2 ^ 63" "length hs \<le> 1024"
  shows "reads wire_headers (rwIndexedList RawHeader_encodeInto hs []) hs"
proof -
  define offs where "offs = map int (item_offsets RawHeader_encodeInto (4 + 8 * length hs) hs)"
  have b: "rwIndexedList RawHeader_encodeInto hs [] = le_bytes 4 (int (length hs)) @ concat (map (\<lambda>v. rwInt v []) offs) @ concat (map (\<lambda>h. RawHeader_encodeInto h []) hs)"
    using hdr_codec.indexed_bytes [OF assms(1), of "[]"] by (simp add: offs_def rwInt_def comp_def)
  have "length (item_offsets RawHeader_encodeInto k hs) = length hs" for k by (induction hs arbitrary: k) simp_all
  then have n: "length offs = length hs" by (simp add: offs_def)
  have "length (concat (map (\<lambda>v. rwInt v []) (map int (item_offsets RawHeader_encodeInto k hs)))) = 8 * length hs" for k
    by (induction hs arbitrary: k) (simp_all add: rwInt_def)
  then have "length (rwIndexedList RawHeader_encodeInto hs []) = 4 + 8 * length hs + length (concat (map (\<lambda>h. RawHeader_encodeInto h []) hs))"
    unfolding b offs_def by simp
  then have "v \<in> set offs \<Longrightarrow> i64_ok v" for v
    using hdr_codec.item_offsets_bound [of _ "4 + 8 * length hs" hs] assms(2) by (fastforce simp: offs_def i64_ok_def)
  then have t: "reads (read_many readInt (length hs)) (concat (map (\<lambda>v. rwInt v []) offs)) offs"
    using int_codec.reads_items [of offs] by (simp add: n)
  have c: "reads readInt32 (le_bytes 4 (int (length hs))) (int (length hs))" using assms(1) by (intro reads_int32) (simp_all add: list_ok_def)
  have h: "reads (read_many RawHeader_fromReader (length hs)) (concat (map (\<lambda>h. RawHeader_encodeInto h []) hs)) hs"
    using hdr_codec.reads_items assms(1) by (simp add: list_ok_def)
  show ?thesis unfolding wire_headers_def [abs_def] b
    by (intro reads_bind [OF c] reads_if) (use assms(3) reads_bind [OF t h] in simp_all)
qed

lemma decode_blob:
  assumes "list_ok RawHeader_ok hs" "int (length (rwIndexedList RawHeader_encodeInto hs [])) < 2 ^ 63" "length hs \<le> 1024"
  shows "decodeHeaderList (rwIndexedList RawHeader_encodeInto hs [] @ junk) = Some (map to_header hs)"
  using spec [OF spec [OF iffD1 [OF reads_def wire_headers_reads [OF assms]], of "[]"], of junk] by (simp add: decodeHeaderList_eq reader_def)

lemma decode_truncated:
  assumes "list_ok RawHeader_ok hs" "int (length (rwIndexedList RawHeader_encodeInto hs [])) < 2 ^ 63" "length hs \<le> 1024"
    "k < length (rwIndexedList RawHeader_encodeInto hs [])"
  shows "decodeHeaderList (take k (rwIndexedList RawHeader_encodeInto hs [])) = None"
  using reads_prefix [OF wire_headers_reads [OF assms(1-3)] wire_headers_stable assms(4)] by (simp add: decodeHeaderList_eq)

lemma status_decodes: "RawServerStatus_ok (toStatus s) \<Longrightarrow> map_option (\<lambda>b. fromNative RawServerStatus_fromReader (drop 4 b)) (status_bytes s) = Some (Some (toStatus s))"
  using sts_codec.roundtrip by (simp add: status_bytes_def toNative_def)

lemma bad_status:
  "map_option (\<lambda>b. fromNative RawServerStatus_fromReader (drop 4 b)) (status_bytes \<lparr>kind = BadRequest, message = ''malformed static route headers'', boundPort = 0\<rparr>)
     = Some (Some \<lparr>ra_errorKind = error_index BadRequest, ra_errorMessage = ''malformed static route headers'', ra_boundPort = 0\<rparr>)"
  using status_decodes [of "\<lparr>kind = BadRequest, message = ''malformed static route headers'', boundPort = 0\<rparr>"]
  by (simp add: toStatus_def RawServerStatus_ok_def i64_ok_def str_ok_def)

text \<open>
  C27: an answer that crosses the bridge. The header list is the indexed encoding (the count, the table of offsets filled
  in afterwards, the items), of at most 1024 headers. Whole, whatever bytes follow it, \<open>respond\<close>,
  \<open>startStream\<close> and \<open>respondFile\<close> do exactly what the engine does with these headers in this order, and the general
  indexed-list reader sees the same items through the table. Cut anywhere short of its end, they leave the engine
  untouched, and a static route is refused with a status block that decodes to \<open>BadRequest\<close>.
\<close>

theorem answer_headers_cross:
  assumes "list_ok RawHeader_ok hs" "int (length (rwIndexedList RawHeader_encodeInto hs [] @ junk)) < 2 ^ 63" "length hs \<le> 1024"
  shows "(let blob = rwIndexedList RawHeader_encodeInto hs [] in
    native_respond env i status (blob @ junk) body n r = respond env i status (map to_header hs) body n r \<and>
    native_startStream env i status (blob @ junk) r = startStream env i status (map to_header hs) r \<and>
    native_respondFile env fo fs i status (blob @ junk) path off len r = respondFile env fo fs i status (map to_header hs) path off len r \<and>
    fromNative (readIndexedList RawHeader_fromReader) (blob @ junk) = Some hs \<and>
    (\<forall>k < length blob.
       native_respond env i status (take k blob) body n r = r \<and> native_startStream env i status (take k blob) r = r \<and>
       native_respondFile env fo fs i status (take k blob) path off len r = r \<and>
       fst (native_registerStaticRoute tok pat status (take k blob) bs r) = r \<and>
       map_option (\<lambda>b. fromNative RawServerStatus_fromReader (drop 4 b)) (snd (native_registerStaticRoute tok pat status (take k blob) bs r))
         = Some (Some \<lparr>ra_errorKind = error_index BadRequest, ra_errorMessage = ''malformed static route headers'', ra_boundPort = 0\<rparr>)))"
proof -
  have l: "int (length (rwIndexedList RawHeader_encodeInto hs [])) < 2 ^ 63" using assms(2) by simp
  have "fromNative (readIndexedList RawHeader_fromReader) (rwIndexedList RawHeader_encodeInto hs [] @ junk) = Some hs"
    using hdr_codec.indexed_roundtrip [OF assms(1), of "[]" junk] assms(2) by (simp add: fromNative_def reader_def)
  then show ?thesis using decode_blob [OF assms(1) l assms(3), of junk] decode_truncated [OF assms(1) l assms(3)] bad_status
    by (simp add: Let_def native_respond_def native_startStream_def native_respondFile_def native_registerStaticRoute_def with_status_def split: prod.splits)
qed

theorem answer_headers_cross_witness:
  "\<exists>hs. list_ok RawHeader_ok hs \<and> hs \<noteq> [] \<and>
     decodeHeaderList (rwIndexedList RawHeader_encodeInto hs []) = Some [hdr ''A'' ''1'', hdr ''B'' ''2''] \<and>
     (\<forall>env r. native_respond env 1 200 (rwIndexedList RawHeader_encodeInto hs [] @ [0]) None 0 r = respond env 1 200 (map to_header hs) None 0 r \<and>
       native_respond env 1 200 (take 30 (rwIndexedList RawHeader_encodeInto hs [])) None 0 r = r)"
proof -
  define hs where "hs = [\<lparr>rh_name = ''A'', rh_value = ''1''\<rparr>, \<lparr>rh_name = ''B'', rh_value = ''2''\<rparr>]"
  have a: "list_ok RawHeader_ok hs" by (simp add: hs_def list_ok_def RawHeader_ok_def str_ok_def)
  have b: "length (rwIndexedList RawHeader_encodeInto hs []) = 40" unfolding hs_def by code_simp
  have c: "decodeHeaderList (rwIndexedList RawHeader_encodeInto hs []) = Some [hdr ''A'' ''1'', hdr ''B'' ''2'']" unfolding hs_def by code_simp
  show ?thesis using answer_headers_cross [OF a, of "[0]"] a b c by (intro exI [of _ hs]) (simp add: hs_def Let_def)
qed

section \<open>Request heads cross the bridge\<close>

text \<open>What the receiving side does with \<open>packedHeaders\<close>: pairs of fields separated by zero bytes, none for the empty string.\<close>

fun split_nul :: "string \<Rightarrow> string list" where
  "split_nul [] = [[]]"
| "split_nul (c # s) = (if c = NUL then [] # split_nul s else (case split_nul s of [] \<Rightarrow> [[c]] | f # fs \<Rightarrow> (c # f) # fs))"

fun pair_up :: "string list \<Rightarrow> header list" where
  "pair_up (n # v # fs) = hdr n v # pair_up fs"
| "pair_up fs = []"

definition unpackHeaders :: "string \<Rightarrow> header list" where
  "unpackHeaders s = (if s = [] then [] else pair_up (split_nul s))"

definition nul_free :: "header \<Rightarrow> bool" where
  "nul_free h \<longleftrightarrow> NUL \<notin> set (h_name h) \<and> NUL \<notin> set (h_value h)"

lemma split_nul_sep: "NUL \<notin> set a \<Longrightarrow> split_nul (a @ NUL # s) = a # split_nul s"
  by (induction a) auto

lemma split_nul_last: "NUL \<notin> set a \<Longrightarrow> split_nul a = [a]"
  by (induction a) auto

lemma packHeaders_Cons: "packHeaders (h # hs) = h_name h @ NUL # h_value h @ concat (map (\<lambda>h. NUL # h_name h @ NUL # h_value h) hs)"
proof -
  have "p \<noteq> [] \<Longrightarrow> fold (\<lambda>h p. (if p \<noteq> [] then p @ [NUL] else p) @ h_name h @ [NUL] @ h_value h) hs p
      = p @ concat (map (\<lambda>h. NUL # h_name h @ NUL # h_value h) hs)" for p
    by (induction hs arbitrary: p) simp_all
  then show ?thesis by (simp add: packHeaders_def)
qed

lemma unpack_pack: "list_all nul_free hs \<Longrightarrow> unpackHeaders (packHeaders hs) = hs"
proof (induction hs)
  case (Cons h hs)
  have tail: "list_all nul_free gs \<Longrightarrow> nul_free h \<Longrightarrow>
      pair_up (split_nul (h_name h @ NUL # h_value h @ concat (map (\<lambda>h. NUL # h_name h @ NUL # h_value h) gs))) = h # gs" for gs h
    by (induction gs arbitrary: h) (simp_all add: split_nul_sep split_nul_last nul_free_def)
  show ?case using tail [of hs h] Cons.prems by (simp add: unpackHeaders_def packHeaders_Cons)
qed (simp add: unpackHeaders_def packHeaders_def)

lemma parsed_headers_nul_free: "list_all nul_free (ph_headers (parseRequestHead raw headEnd))"
proof -
  have n: "\<not> field_char_ok NUL" by code_simp
  have "list_all safe_header (ph_headers (parseRequestHead raw headEnd))"
    by (auto simp: parseRequestHead_def parseHead_def empty_head_def Let_def intro!: parse_fields_safe split: if_splits option.splits prod.splits)
  then show ?thesis using n by (auto simp: list_all_iff safe_header_def nul_free_def)
qed

text \<open>
  C6: a request head crosses the bridge whole. Whatever bytes the parser was given, the head it produced is packed
  into one record (the headers as fields separated by zero bytes) and encoded; the receiving side, which reads the
  length prefix and decodes the rest, gets the same request, and splitting the packed string at the zero bytes gives
  the parsed headers back, in order: no header a client sends can add or hide another one.
\<close>

theorem request_head_crosses:
  assumes "RawIncomingRequest_ok (head_record i m cm p q (ph_headers (parseRequestHead raw headEnd)) cl hasBody bodyComplete rp ps ip)"
  shows "(let hs = ph_headers (parseRequestHead raw headEnd); x = head_record i m cm p q hs cl hasBody bodyComplete rp ps ip in
    \<exists>block. bridge_emit True (EmitHead i m cm p q hs cl hasBody bodyComplete rp ps ip) = IncomingRequest (Some block) \<and>
      take 4 block = le_bytes 4 (int (length block) - 4) \<and> fromNative RawIncomingRequest_fromReader (drop 4 block) = Some x \<and>
      unpackHeaders (rq_packedHeaders x) = hs \<and> method_of_index (rq_method x) = Some m)"
proof -
  have "method_of_index (method_index m) = Some m" by (cases m) (simp_all add: method_of_index_def)
  then show ?thesis using req_codec.roundtrip [OF assms] unpack_pack [OF parsed_headers_nul_free, of raw headEnd]
    by (simp add: Let_def bridge_emit_def toNative_def head_record_def)
qed

definition sample_head :: string where
  "sample_head = ''GET /a HTTP/1.1'' @ crlf @ ''Host: x'' @ crlf @ ''Accept: *'' "

theorem request_head_crosses_witness:
  "ph_headers (parseRequestHead sample_head 35) = [hdr ''Host'' ''x'', hdr ''Accept'' ''*''] \<and>
   (\<exists>block. bridge_emit True (EmitHead 7 Get [] ''/a'' [] [hdr ''Host'' ''x'', hdr ''Accept'' ''*''] 0 False True ''/a'' [] ''127.0.0.1'') = IncomingRequest (Some block) \<and>
      map_option (unpackHeaders \<circ> rq_packedHeaders) (fromNative RawIncomingRequest_fromReader (drop 4 block)) = Some [hdr ''Host'' ''x'', hdr ''Accept'' ''*''])"
proof -
  let ?hs = "[hdr ''Host'' ''x'', hdr ''Accept'' ''*'']"
  have h: "ph_headers (parseRequestHead sample_head 35) = ?hs" by code_simp
  have "RawIncomingRequest_ok (head_record 7 Get [] ''/a'' [] ?hs 0 False True ''/a'' [] ''127.0.0.1'')"
    by (simp add: RawIncomingRequest_ok_def head_record_def list_ok_def str_ok_def i64_ok_def packHeaders_def)
  then show ?thesis using request_head_crosses [of 7 Get "[]" "''/a''" "[]" sample_head 35 0 False True "''/a''" "[]" "''127.0.0.1''"] h
    by (auto simp: Let_def)
qed

section \<open>One engine per key\<close>

definition registry_ok :: "Registry \<Rightarrow> bool" where
  "registry_ok g \<longleftrightarrow> distinct (map fst (instances g)) \<and> distinct (map snd (instances g)) \<and> (\<forall>i \<in> set (map snd (instances g)). i < length (engines g))"

lemma map_of_inj: "distinct (map snd xs) \<Longrightarrow> map_of xs k = Some i \<Longrightarrow> map_of xs k' = Some i \<Longrightarrow> k = k'"
  by (metis distinct_map inj_on_contraD map_of_SomeD prod.inject snd_conv)

lemma resolve_ok:
  assumes "registry_ok g" "resolve k e g = (g', i)"
  shows "registry_ok g' \<and> map_of (instances g') k = Some i \<and> i < length (engines g') \<and> e \<in> set (emitters (engines g' ! i))"
proof (cases "map_of (instances g) k")
  case None
  then have "k \<notin> fst ` set (instances g)" by (simp add: map_of_eq_None_iff)
  then show ?thesis using assms None by (fastforce simp: resolve_def Let_def registry_ok_def addEmitter_def)
next
  case (Some j)
  then have "(k, j) \<in> set (instances g)" by (rule map_of_SomeD)
  then have "j < length (engines g)" using assms(1) by (force simp: registry_ok_def)
  then show ?thesis using assms Some by (auto simp: resolve_def registry_ok_def addEmitter_def dest: bspec)
qed

lemma resolve_others: "registry_ok g \<Longrightarrow> resolve k e g = (g', i) \<Longrightarrow> j \<noteq> i \<Longrightarrow> j < length (engines g) \<Longrightarrow> engines g' ! j = engines g ! j"
  by (auto simp: resolve_def Let_def nth_append split: option.splits)

lemma resolve_keeps_sinks: "registry_ok g \<Longrightarrow> resolve k e g = (g', i) \<Longrightarrow> j < length (engines g) \<Longrightarrow> set (emitters (engines g ! j)) \<subseteq> set (emitters (engines g' ! j))"
  by (cases "i = j") (auto simp: resolve_def Let_def nth_append addEmitter_def nth_list_update split: option.splits if_splits)

lemma resolve_instances: "resolve k e g = (g', i) \<Longrightarrow> k' \<noteq> k \<Longrightarrow> map_of (instances g') k' = map_of (instances g) k'"
  by (auto simp: resolve_def Let_def split: option.splits)

text \<open>
  The registry hands out one engine per key. Two bridge objects made one after the other get the same engine exactly when
  their keys are equal; the engine then holds both sinks, so the isolates share its requests; and making the second
  never touches an engine of another key.
\<close>

theorem one_engine_per_key:
  assumes "registry_ok g" "make_bridge k e g = (g1, i)" "make_bridge k' e' g1 = (g2, j)"
  shows "registry_ok g2 \<and> (i = j \<longleftrightarrow> k = k') \<and> e \<in> set (emitters (engines g2 ! i)) \<and> e' \<in> set (emitters (engines g2 ! j)) \<and>
    (k \<noteq> k' \<longrightarrow> engines g2 ! i = engines g1 ! i)"
proof -
  note r1 = resolve_ok [OF assms(1) assms(2) [unfolded make_bridge_def]]
  note r2 = resolve_ok [OF conjunct1 [OF r1] assms(3) [unfolded make_bridge_def]]
  have same: "k = k' \<Longrightarrow> i = j" using r1 assms(3) by (auto simp: make_bridge_def resolve_def)
  have i2: "k \<noteq> k' \<Longrightarrow> map_of (instances g2) k = Some i" using resolve_instances assms(3) r1 by (metis make_bridge_def)
  have diff: "i = j \<Longrightarrow> k = k'" using i2 r2 map_of_inj [of "instances g2" k i k'] by (auto simp: registry_ok_def)
  show ?thesis using r1 r2 same diff resolve_others [OF _ assms(3) [unfolded make_bridge_def], of i]
      resolve_keeps_sinks [OF _ assms(3) [unfolded make_bridge_def], of i] by blast
qed

theorem one_engine_per_key_witness:
  "\<exists>g1 g2 g3. registry_ok new_registry \<and> make_bridge ''s:1'' 10 new_registry = (g1, 0) \<and> make_bridge ''s:1'' 20 g1 = (g2, 0) \<and>
     make_bridge ''s:2'' 30 g2 = (g3, 1) \<and> emitters (engines g3 ! 0) = [10, 20] \<and> emitters (engines g3 ! 1) = [30]"
proof -
  define g1 g2 g3 where "g1 = fst (make_bridge ''s:1'' 10 new_registry)" and "g2 = fst (make_bridge ''s:1'' 20 g1)" and "g3 = fst (make_bridge ''s:2'' 30 g2)"
  note d = make_bridge_def resolve_def new_registry_def Let_def addEmitter_def new_reactor_def
  have a: "registry_ok new_registry" by (simp add: registry_ok_def new_registry_def)
  have b: "make_bridge ''s:1'' 10 new_registry = (g1, 0)" by (simp add: g1_def d)
  have c: "make_bridge ''s:1'' 20 g1 = (g2, 0)" by (simp add: g1_def g2_def d)
  have e: "make_bridge ''s:2'' 30 g2 = (g3, 1)" by (simp add: g1_def g2_def g3_def d)
  have "registry_ok g2" using one_engine_per_key [OF a b c] by simp
  then have "10 \<in> set (emitters (engines g2 ! 0))" using one_engine_per_key [OF a b c] by simp
  moreover have "emitters (engines g3 ! 0) = [10, 20]" "emitters (engines g3 ! 1) = [30]" by (simp_all add: g1_def g2_def g3_def d)
  ultimately show ?thesis using a b c e by blast
qed

lemma engine_stop_stopped:
  assumes "\<And>r. \<not> running r \<Longrightarrow> \<not> running (run r)"
  shows "\<not> running (fst (engine_stop run x))"
proof -
  have f: "\<not> running (fold (\<lambda>i r. log_effect (UvAsyncSend i) (upd_loop i (\<lambda>l. l\<lparr>lp_stopping := True\<rparr>) r)) xs r)" if "\<not> running r" for xs r
    using that by (induction xs arbitrary: r) (simp_all add: log_effect_def upd_loop_def)
  obtain r h where x: "x = (r, h)" by fastforce
  show ?thesis
  proof (cases "running r")
    case True
    have "\<not> running (run (stop_request r))" using assms [of "stop_request r"] True f [of "r\<lparr>running := False\<rparr>"] by (simp add: stop_request_def)
    then show ?thesis using True x by (simp add: engine_stop_def stop_finish_def release_port_def Let_def split: prod.splits if_splits)
  qed (simp add: engine_stop_def x)
qed

lemma reset_stops_all:
  assumes "\<And>r. \<not> running r \<Longrightarrow> \<not> running (run r)" "registry_ok g" "(k, i) \<in> set (instances g)"
  shows "\<not> running (engines (resetAll run g) ! i)"
proof -
  let ?f = "fold (\<lambda>(_, i). native_stop run i)"
  have len: "length (engines (?f xs g)) = length (engines g)" for xs g
    by (induction xs arbitrary: g) (auto simp: native_stop_def put_engine_def)
  have es: "\<not> running (fst (engine_stop run x))" for x by (rule engine_stop_stopped) (rule assms(1))
  have keep: "\<not> running (engines g ! j) \<Longrightarrow> \<not> running (engines (native_stop run n g) ! j)" for g j n
    by (cases "n = j"; cases "n < length (engines g)") (auto simp: native_stop_def put_engine_def es list_update_beyond)
  have stops: "n < length (engines g) \<Longrightarrow> \<not> running (engines (native_stop run n g) ! n)" for g n
    by (simp add: native_stop_def put_engine_def es)
  have stay: "\<not> running (engines g ! j) \<Longrightarrow> \<not> running (engines (?f xs g) ! j)" for xs g j
  proof (induction xs arbitrary: g)
    case (Cons y xs)
    then show ?case using keep [of g j "snd y"] by (cases y) simp
  qed simp
  have "(\<forall>(_, n) \<in> set xs. n < length (engines g)) \<Longrightarrow> (k, i) \<in> set xs \<Longrightarrow> \<not> running (engines (?f xs g) ! i)" for xs g
  proof (induction xs arbitrary: g)
    case (Cons y xs)
    obtain k' n where y: "y = (k', n)" by fastforce
    have l: "length (engines (native_stop run n g)) = length (engines g)" by (simp add: native_stop_def put_engine_def)
    show ?case
    proof (cases "(k, i) \<in> set xs")
      case True
      then show ?thesis using Cons.IH [of "native_stop run n g"] Cons.prems l y by auto
    next
      case False
      then show ?thesis using Cons.prems y stops [of i g] stay [of "native_stop run i g" i xs] by auto
    qed
  qed simp
  then show ?thesis using assms(2, 3) by (force simp: resetAll_def registry_ok_def)
qed

lemma resolve_after_reset: "resolve k e (resetAll run g) = (g', i) \<Longrightarrow> engines g' ! i = addEmitter e new_reactor"
  by (auto simp: resolve_def resetAll_def Let_def)

end
