(* ===== verification/DartObject.thy ===== *)
theory DartObject
  imports Prelude
begin

text \<open>
  The objects native code posts to the handlers' isolate (\<open>Dart_CObject\<close>, as far as \<open>nitro_completion_batch.h\<close>
  distinguishes them), which of them can be kept for later, the deep copy that keeps them, and the scalars that fit
  the spin slot. \<open>dart_value\<close> is what the receiver sees of an object.
\<close>

datatype TypedType = TByteData | TInt8 | TUint8 | TUint8Clamped | TInt16 | TUint16 | TInt32 | TUint32 | TInt64 | TUint64 | TFloat32 | TFloat64 | TFloat32x4

definition elemSize :: "TypedType \<Rightarrow> nat" where
  "elemSize t = (case t of
       TInt16 \<Rightarrow> 2 | TUint16 \<Rightarrow> 2 | TInt32 \<Rightarrow> 4 | TUint32 \<Rightarrow> 4 | TFloat32 \<Rightarrow> 4
     | TInt64 \<Rightarrow> 8 | TUint64 \<Rightarrow> 8 | TFloat64 \<Rightarrow> 8 | _ \<Rightarrow> 1)"

text \<open>
  A string is its C string, \<open>None\<close> for a null pointer. Typed data has its element count and the memory it points
  to. An external buffer also has the token passed to its release callback, if it has one. \<open>CExternal\<close> is also the unmodifiable kind.
  \<open>COther\<close> stands for send ports, capabilities and native pointers.
\<close>

datatype CObj =
    CNull
  | CBool bool
  | CInt32 int
  | CInt64 int
  | CDouble u64
  | CString "string option"
  | CTypedData TypedType nat bytes
  | CExternal TypedType nat bytes "int option"
  | CArray "CObj list"
  | COther nat

definition string_or_empty :: "string option \<Rightarrow> string" where
  "string_or_empty s = (case s of None \<Rightarrow> [] | Some t \<Rightarrow> t)"

text \<open>\<open>Owned::copy\<close>, and the release callbacks it runs, in order.\<close>

fun copy :: "CObj \<Rightarrow> CObj" where
  "copy (CString s) = CString (Some (string_or_empty s))"
| "copy (CTypedData t n d) = CTypedData t n (take (n * elemSize t) d)"
| "copy (CExternal t n d peer) = CTypedData t n (take (n * elemSize t) d)"
| "copy (CArray xs) = CArray (map copy xs)"
| "copy x = x"

fun copy_releases :: "CObj \<Rightarrow> int list" where
  "copy_releases (CExternal t n d (Some peer)) = [peer]"
| "copy_releases (CArray xs) = concat (map copy_releases xs)"
| "copy_releases x = []"

fun copyable :: "CObj \<Rightarrow> bool" where
  "copyable (CArray xs) \<longleftrightarrow> list_all copyable xs"
| "copyable (COther n) \<longleftrightarrow> False"
| "copyable x \<longleftrightarrow> True"

text \<open>The slot's plain fields: a tag, an integer, a double.\<close>

datatype SpinTag = kTagNull | kTagInt | kTagDouble | kTagBool

type_synonym scalar = "SpinTag \<times> int \<times> u64"

definition extractScalar :: "CObj \<Rightarrow> scalar option" where
  "extractScalar x = (case x of
       CNull \<Rightarrow> Some (kTagNull, 0, 0)
     | CInt32 i \<Rightarrow> Some (kTagInt, i, 0)
     | CInt64 i \<Rightarrow> Some (kTagInt, i, 0)
     | CDouble d \<Rightarrow> Some (kTagDouble, 0, d)
     | CBool b \<Rightarrow> Some (kTagBool, if b then 1 else 0, 0)
     | _ \<Rightarrow> None)"

section \<open>What the receiver sees\<close>

fun dart_value :: "CObj \<Rightarrow> CObj" where
  "dart_value (CInt32 i) = CInt64 i"
| "dart_value (CString s) = CString (Some (string_or_empty s))"
| "dart_value (CTypedData t n d) = CTypedData t n (take (n * elemSize t) d)"
| "dart_value (CExternal t n d peer) = CTypedData t n (take (n * elemSize t) d)"
| "dart_value (CArray xs) = CArray (map dart_value xs)"
| "dart_value x = x"

text \<open>A copy kept for later is received as the original would have been, and is independent of the sender's buffers.\<close>

lemma dart_value_copy [simp]: "dart_value (copy x) = dart_value x"
  by (induction x rule: copy.induct) (simp_all add: string_or_empty_def comp_def)

lemma copy_no_releases: "copy_releases (copy x) = []"
  by (induction x rule: copy.induct) simp_all

lemma copyable_copy: "copyable (copy x) = copyable x"
  by (induction x rule: copy.induct) (simp_all add: list_all_iff)

text \<open>A scalar determines what the receiver sees.\<close>

definition scalar_value :: "scalar \<Rightarrow> CObj" where
  "scalar_value s = (case s of (kTagNull, _, _) \<Rightarrow> CNull | (kTagInt, i, _) \<Rightarrow> CInt64 i | (kTagDouble, _, d) \<Rightarrow> CDouble d | (kTagBool, i, _) \<Rightarrow> CBool (i \<noteq> 0))"

lemma scalar_value_extract: "extractScalar x = Some s \<Longrightarrow> scalar_value s = dart_value x"
  by (cases x) (auto simp: extractScalar_def scalar_value_def)

end
