(* ===== verification/SpinSlot.thy ===== *)
theory SpinSlot
  imports DartObject
begin

text \<open>
  The one-slot fast path of \<open>nitro_completion_batch.h\<close>: an isolate that has a single call in flight polls a shared
  slot instead of waiting for a message. Every access to \<open>spinId_\<close> or to the slot's flag is one atomic step of the model, and the
  steps of all the threads interleave in any order; the plain fields are written and read as one step each, between
  the accesses that publish them. The orderings of the atomics are those the source asks for, and make
  this interleaving semantics adequate.
\<close>

section \<open>The slot and its operations\<close>

datatype spin_state = kPending | kDone | kParked

record Slot =
  spinId :: int
  spin_flag :: spin_state
  spin_data :: scalar

definition new_slot :: Slot where
  "new_slot = \<lparr>spinId = 0, spin_flag = kParked, spin_data = (kTagNull, 0, 0)\<rparr>"

text \<open>\<open>compare_exchange_strong\<close> on the claim and on the flag: the new slot and whether it was exchanged.\<close>

definition cas_claim :: "int \<Rightarrow> int \<Rightarrow> Slot \<Rightarrow> Slot \<times> bool" where
  "cas_claim old new s = (if spinId s = old then (s\<lparr>spinId := new\<rparr>, True) else (s, False))"

definition cas_flag :: "spin_state \<Rightarrow> spin_state \<Rightarrow> Slot \<Rightarrow> Slot \<times> bool" where
  "cas_flag old new s = (if spin_flag s = old then (s\<lparr>spin_flag := new\<rparr>, True) else (s, False))"

definition arm :: "int \<Rightarrow> Slot \<Rightarrow> Slot \<times> bool" where
  "arm i s =
     (if spinId s \<noteq> 0 then (s, False)
      else case cas_claim 0 i s of
        (s1, False) \<Rightarrow> (s1, False)
      | (s1, True) \<Rightarrow> (s1\<lparr>spin_data := (kTagNull, 0, 0), spin_flag := kPending\<rparr>, True))"

definition disarm :: "int \<Rightarrow> Slot \<Rightarrow> Slot" where
  "disarm i s = fst (cas_claim i 0 s)"

definition poll :: "int \<Rightarrow> bool \<Rightarrow> Slot \<Rightarrow> Slot \<times> spin_state \<times> scalar option" where
  "poll i giveUp s =
     (let s1 = (if giveUp then fst (cas_flag kPending kParked s) else s)
      in case spin_flag s1 of
           kPending \<Rightarrow> (s1, kPending, None)
         | kDone \<Rightarrow> (s1\<lparr>spinId := 0\<rparr>, kDone, Some (spin_data s1))
         | kParked \<Rightarrow> (s1, kParked, None))"

text \<open>The fast path at the head of \<open>post\<close>: whether the slot has taken the result.\<close>

definition spin_post :: "int \<Rightarrow> CObj \<Rightarrow> Slot \<Rightarrow> Slot \<times> bool" where
  "spin_post i x s =
     (if spinId s = i then
        (case extractScalar x of
           Some v \<Rightarrow>
             (case cas_flag kPending kDone (s\<lparr>spin_data := v\<rparr>) of
                (s1, True) \<Rightarrow> (s1, True)
              | (s1, False) \<Rightarrow> (s1\<lparr>spinId := 0\<rparr>, False))
         | None \<Rightarrow> ((fst (cas_flag kPending kParked s))\<lparr>spinId := 0\<rparr>, False))
      else (s, False))"

section \<open>The interleaving\<close>

text \<open>
  A call is its id. Its isolate arms the slot or is refused, starts the native call (which may throw), and then
  polls. Its worker runs \<open>post\<close> once. \<open>got\<close> is what the isolate took from the slot, \<open>posts\<close> how often the worker went
  on to the port, \<open>erased\<close> whether it took the id out of \<open>bound_\<close> after a slot delivery.
\<close>

datatype dart_pc = DIdle | DReset | DArmed | DPoll | DGaveUp | DHit | DFree | DGot | DPark | DThrew

datatype worker_pc = WIdle | WStart | WWrite | WCas | WStop | WErase | WRelease | WPort | WDone

record Spin =
  sp_slot :: Slot
  sp_dart :: "int \<Rightarrow> dart_pc"
  sp_worker :: "int \<Rightarrow> worker_pc"
  got :: "int \<Rightarrow> scalar option"
  posts :: "int \<Rightarrow> nat"

definition new_spin :: Spin where
  "new_spin = \<lparr>sp_slot = new_slot, sp_dart = (\<lambda>_. DIdle), sp_worker = (\<lambda>_. WIdle), got = (\<lambda>_. None), posts = (\<lambda>_. 0)\<rparr>"

definition dart_at :: "int \<Rightarrow> dart_pc \<Rightarrow> Spin \<Rightarrow> Spin" where
  "dart_at c pc s = s\<lparr>sp_dart := (sp_dart s)(c := pc)\<rparr>"

definition worker_at :: "int \<Rightarrow> worker_pc \<Rightarrow> Spin \<Rightarrow> Spin" where
  "worker_at c pc s = s\<lparr>sp_worker := (sp_worker s)(c := pc)\<rparr>"

definition slot_at :: "Slot \<Rightarrow> Spin \<Rightarrow> Spin" where
  "slot_at v s = s\<lparr>sp_slot := v\<rparr>"

text \<open>The isolate of a call is inside \<open>arm\<close>, the native call or \<open>poll\<close>.\<close>

definition spinning :: "dart_pc \<Rightarrow> bool" where
  "spinning pc \<longleftrightarrow> pc \<in> {DReset, DArmed, DPoll, DGaveUp, DHit, DFree}"

text \<open>
  \<open>dart_step\<close> and \<open>worker_step\<close>: the next step of the isolate and of the worker of call \<open>c\<close>, \<open>None\<close> when there is none. \<open>choice\<close> is
  the isolate's own decision: that the native call throws, or that it stops polling.
\<close>

definition dart_step :: "int \<Rightarrow> bool \<Rightarrow> Spin \<Rightarrow> Spin option" where
  "dart_step c choice s = (case sp_dart s c of
       DIdle \<Rightarrow>
         (case cas_claim 0 c (sp_slot s) of
            (v, True) \<Rightarrow> Some (dart_at c DReset (slot_at v s))
          | (v, False) \<Rightarrow> Some (dart_at c DPark (worker_at c WStart s)))
     | DReset \<Rightarrow> Some (dart_at c DArmed (slot_at ((sp_slot s)\<lparr>spin_data := (kTagNull, 0, 0), spin_flag := kPending\<rparr>) s))
     | DArmed \<Rightarrow>
         (if choice then Some (dart_at c DThrew (slot_at (disarm c (sp_slot s)) s))
          else Some (dart_at c DPoll (worker_at c WStart s)))
     | DPoll \<Rightarrow>
         (if choice then Some (dart_at c DGaveUp (slot_at (fst (cas_flag kPending kParked (sp_slot s))) s))
          else (case spin_flag (sp_slot s) of kPending \<Rightarrow> Some s | kDone \<Rightarrow> Some (dart_at c DHit s) | kParked \<Rightarrow> Some (dart_at c DPark s)))
     | DGaveUp \<Rightarrow>
         (case spin_flag (sp_slot s) of kPending \<Rightarrow> Some (dart_at c DPoll s) | kDone \<Rightarrow> Some (dart_at c DHit s) | kParked \<Rightarrow> Some (dart_at c DPark s))
     | DHit \<Rightarrow> Some (dart_at c DFree (s\<lparr>got := (got s)(c := Some (spin_data (sp_slot s)))\<rparr>))
     | DFree \<Rightarrow> Some (dart_at c DGot (slot_at ((sp_slot s)\<lparr>spinId := 0\<rparr>) s))
     | _ \<Rightarrow> None)"

definition is_scalar :: "CObj \<Rightarrow> bool" where
  "is_scalar x \<longleftrightarrow> extractScalar x \<noteq> None"

definition worker_step :: "(int \<Rightarrow> CObj) \<Rightarrow> int \<Rightarrow> Spin \<Rightarrow> Spin option" where
  "worker_step result c s = (case sp_worker s c of
       WStart \<Rightarrow>
         Some (worker_at c (if spinId (sp_slot s) = c then (if is_scalar (result c) then WWrite else WStop) else WPort) s)
     | WWrite \<Rightarrow> Some (worker_at c WCas (slot_at ((sp_slot s)\<lparr>spin_data := the (extractScalar (result c))\<rparr>) s))
     | WCas \<Rightarrow>
         (case cas_flag kPending kDone (sp_slot s) of
            (v, True) \<Rightarrow> Some (worker_at c WErase (slot_at v s))
          | (v, False) \<Rightarrow> Some (worker_at c WRelease s))
     | WStop \<Rightarrow> Some (worker_at c WRelease (slot_at (fst (cas_flag kPending kParked (sp_slot s))) s))
     | WErase \<Rightarrow> Some (worker_at c WDone s)
     | WRelease \<Rightarrow> Some (worker_at c WPort (slot_at ((sp_slot s)\<lparr>spinId := 0\<rparr>) s))
     | WPort \<Rightarrow> Some (worker_at c WDone (s\<lparr>posts := (posts s)(c := posts s c + 1)\<rparr>))
     | _ \<Rightarrow> None)"

text \<open>
  With \<open>solo\<close>, the calls belong to one isolate, which does not start a call while it is inside another; without
  it, every call may belong to an isolate of its own. Ids are positive (\<open>++seq_\<close>).
\<close>

inductive spin_reach :: "bool \<Rightarrow> (int \<Rightarrow> CObj) \<Rightarrow> Spin \<Rightarrow> bool" for solo result where
  spin_init: "spin_reach solo result new_spin"
| spin_dart: "spin_reach solo result s \<Longrightarrow> c > 0 \<Longrightarrow> (solo \<and> sp_dart s c = DIdle \<longrightarrow> (\<forall>c'. \<not> spinning (sp_dart s c'))) \<Longrightarrow>
    dart_step c choice s = Some s' \<Longrightarrow> spin_reach solo result s'"
| spin_worker: "spin_reach solo result s \<Longrightarrow> worker_step result c s = Some s' \<Longrightarrow> spin_reach solo result s'"

section \<open>Exactly once, for one isolate\<close>

definition owns :: "int \<Rightarrow> Spin \<Rightarrow> bool" where
  "owns c s \<longleftrightarrow> spinId (sp_slot s) = c"

definition before_cas :: "worker_pc \<Rightarrow> bool" where
  "before_cas w \<longleftrightarrow> w \<in> {WStart, WWrite, WCas, WStop}"

text \<open>The worker has delivered to the slot; the worker has gone for the port while the isolate still polls.\<close>

definition slot_won :: "(int \<Rightarrow> CObj) \<Rightarrow> int \<Rightarrow> Spin \<Rightarrow> bool" where
  "slot_won result c s \<longleftrightarrow> sp_worker s c \<in> {WErase, WDone} \<and> owns c s \<and> spin_flag (sp_slot s) = kDone \<and> posts s c = 0 \<and>
     is_scalar (result c) \<and> extractScalar (result c) = Some (spin_data (sp_slot s))"

definition port_won :: "int \<Rightarrow> Spin \<Rightarrow> bool" where
  "port_won c s \<longleftrightarrow> spin_flag (sp_slot s) = kParked \<and>
     (sp_worker s c = WRelease \<and> owns c s \<and> posts s c = 0 \<or> owns 0 s \<and> (sp_worker s c = WPort \<and> posts s c = 0 \<or> sp_worker s c = WDone \<and> posts s c = 1))"

definition call_ok :: "(int \<Rightarrow> CObj) \<Rightarrow> int \<Rightarrow> Spin \<Rightarrow> bool" where
  "call_ok result c s \<longleftrightarrow>
     (sp_worker s c \<in> {WWrite, WCas} \<longrightarrow> is_scalar (result c)) \<and>
     (sp_worker s c = WCas \<longrightarrow> extractScalar (result c) = Some (spin_data (sp_slot s)) \<or> \<not> owns c s) \<and>
     (case sp_dart s c of
        DIdle \<Rightarrow> sp_worker s c = WIdle \<and> \<not> owns c s \<and> got s c = None \<and> posts s c = 0
      | DReset \<Rightarrow> sp_worker s c = WIdle \<and> owns c s \<and> got s c = None \<and> posts s c = 0
      | DArmed \<Rightarrow> sp_worker s c = WIdle \<and> owns c s \<and> spin_flag (sp_slot s) = kPending \<and> got s c = None \<and> posts s c = 0
      | DThrew \<Rightarrow> sp_worker s c = WIdle \<and> \<not> owns c s \<and> got s c = None \<and> posts s c = 0
      | DPoll \<Rightarrow> got s c = None \<and>
          (before_cas (sp_worker s c) \<and> owns c s \<and> spin_flag (sp_slot s) = kPending \<and> posts s c = 0 \<or> slot_won result c s \<or> port_won c s)
      | DGaveUp \<Rightarrow> got s c = None \<and>
          (before_cas (sp_worker s c) \<and> owns c s \<and> spin_flag (sp_slot s) = kParked \<and> posts s c = 0 \<or> slot_won result c s \<or> port_won c s)
      | DHit \<Rightarrow> got s c = None \<and> slot_won result c s
      | DFree \<Rightarrow> got s c = extractScalar (result c) \<and> slot_won result c s
      | DGot \<Rightarrow> got s c = extractScalar (result c) \<and> is_scalar (result c) \<and> \<not> owns c s \<and> sp_worker s c \<in> {WErase, WDone} \<and> posts s c = 0
      | DPark \<Rightarrow> got s c = None \<and>
          (owns c s \<and> spin_flag (sp_slot s) = kParked \<and> (before_cas (sp_worker s c) \<or> sp_worker s c = WRelease) \<and> posts s c = 0 \<or>
           \<not> owns c s \<and> (sp_worker s c \<in> {WStart, WPort} \<and> posts s c = 0 \<or> sp_worker s c = WDone \<and> posts s c = 1)))"

definition spin_inv :: "(int \<Rightarrow> CObj) \<Rightarrow> Spin \<Rightarrow> bool" where
  "spin_inv result s \<longleftrightarrow> (\<forall>c > 0. call_ok result c s) \<and> (\<forall>c \<le> 0. sp_dart s c = DIdle \<and> sp_worker s c = WIdle) \<and>
     (\<forall>c. spinning (sp_dart s c) \<longrightarrow> (owns c s \<or> owns 0 s) \<and> (\<forall>c'. spinning (sp_dart s c') \<longrightarrow> c' = c))"

lemma is_scalar_the: "is_scalar x \<Longrightarrow> extractScalar x = Some (the (extractScalar x))"
  by (auto simp: is_scalar_def)

lemmas spin_upd = dart_at_def worker_at_def slot_at_def cas_flag_def cas_claim_def disarm_def

lemmas call_defs = call_ok_def slot_won_def port_won_def before_cas_def owns_def

text \<open>A step of another call keeps what is known of a call that neither holds the slot nor polls it.\<close>

lemma call_ok_frame:
  assumes "call_ok result c s" "\<not> spinning (sp_dart s c)" "\<not> owns c s" "\<not> owns c s'"
    "sp_dart s' c = sp_dart s c" "sp_worker s' c = sp_worker s c" "got s' c = got s c" "posts s' c = posts s c"
  shows "call_ok result c s'"
  using assms by (cases "sp_dart s c") (auto simp: call_defs spinning_def)

lemma call_ok_same_slot:
  assumes "call_ok result c s" "sp_slot s' = sp_slot s"
    "sp_dart s' c = sp_dart s c" "sp_worker s' c = sp_worker s c" "got s' c = got s c" "posts s' c = posts s c"
  shows "call_ok result c s'"
  using assms by (cases "sp_dart s c") (simp_all add: call_defs)

lemma dart_step_others:
  assumes "dart_step c ch s = Some s'" "c' \<noteq> c"
  shows "sp_dart s' c' = sp_dart s c'" "sp_worker s' c' = sp_worker s c'" "got s' c' = got s c'" "posts s' c' = posts s c'"
  using assms by (auto simp: dart_step_def spin_upd split: dart_pc.splits spin_state.splits if_splits prod.splits)

lemma worker_step_others:
  assumes "worker_step result c s = Some s'" "c' \<noteq> c"
  shows "sp_dart s' c' = sp_dart s c'" "sp_worker s' c' = sp_worker s c'" "got s' c' = got s c'" "posts s' c' = posts s c'"
  using assms by (auto simp: worker_step_def spin_upd split: worker_pc.splits if_splits prod.splits)

lemma worker_step_dart: "worker_step result c s = Some s' \<Longrightarrow> sp_dart s' = sp_dart s \<and> got s' = got s"
  by (auto simp: worker_step_def spin_upd split: worker_pc.splits if_splits prod.splits)

lemma dart_step_own:
  assumes "call_ok result c s" "dart_step c ch s = Some s'" "c > 0"
  shows "call_ok result c s'"
proof (cases "sp_dart s c")
  case DIdle
  then show ?thesis using assms by (auto simp: dart_step_def spin_upd call_defs split: if_splits)
next
  case DReset
  then show ?thesis using assms by (auto simp: dart_step_def spin_upd call_defs)
next
  case DArmed
  then show ?thesis using assms by (auto simp: dart_step_def spin_upd call_defs split: if_splits)
next
  case DPoll
  then show ?thesis using assms by (cases ch; cases "spin_flag (sp_slot s)") (auto simp: dart_step_def spin_upd call_defs)
next
  case DGaveUp
  then show ?thesis using assms by (cases "spin_flag (sp_slot s)") (auto simp: dart_step_def spin_upd call_defs)
next
  case DHit
  then show ?thesis using assms by (auto simp: dart_step_def spin_upd call_defs)
next
  case DFree
  then show ?thesis using assms by (auto simp: dart_step_def spin_upd call_defs)
qed (use assms in \<open>simp_all add: dart_step_def\<close>)

lemma worker_step_own: "call_ok result c s \<Longrightarrow> worker_step result c s = Some s' \<Longrightarrow> c > 0 \<Longrightarrow> call_ok result c s'"
  by (cases "sp_worker s c"; cases "sp_dart s c")
     (auto simp: worker_step_def spin_upd call_defs is_scalar_the [symmetric] split: if_splits)

text \<open>Where a step changes the slot, its call holds the claim or is polling.\<close>

lemma dart_step_slot:
  assumes "dart_step c ch s = Some s'"
  shows "sp_slot s' = sp_slot s \<or> spinning (sp_dart s c) \<or> sp_dart s c = DIdle \<and> owns 0 s"
  using assms by (cases "sp_dart s c") (auto simp: dart_step_def spin_upd spinning_def owns_def split: if_splits spin_state.splits)

lemma dart_step_claim:
  assumes "dart_step c ch s = Some s'"
  shows "spinId (sp_slot s') \<in> {spinId (sp_slot s), 0, c}"
  using assms by (cases "sp_dart s c") (auto simp: dart_step_def spin_upd split: if_splits spin_state.splits)

lemma dart_step_spins:
  assumes "dart_step c ch s = Some s'" "spinning (sp_dart s' c)"
  shows "spinning (sp_dart s c) \<or> sp_dart s c = DIdle \<and> owns c s'"
  using assms by (cases "sp_dart s c") (auto simp: dart_step_def spin_upd spinning_def owns_def split: if_splits)

lemma worker_step_slot:
  assumes "worker_step result c s = Some s'" "call_ok result c s"
  shows "sp_slot s' = sp_slot s \<or> owns c s"
  using assms by (cases "sp_worker s c"; cases "sp_dart s c") (auto simp: worker_step_def spin_upd call_defs split: if_splits)

lemma worker_step_claim:
  assumes "worker_step result c s = Some s'"
  shows "spinId (sp_slot s') \<in> {spinId (sp_slot s), 0}"
  using assms by (cases "sp_worker s c") (auto simp: worker_step_def spin_upd split: if_splits)

lemma spin_inv_dart:
  assumes inv: "spin_inv result s" and pos: "c > 0" and free: "sp_dart s c = DIdle \<longrightarrow> (\<forall>c'. \<not> spinning (sp_dart s c'))"
    and step: "dart_step c ch s = Some s'"
  shows "spin_inv result s'"
proof -
  note same = dart_step_others [OF step]
  note claim = dart_step_claim [OF step]
  have "call_ok result c' s'" if "c' > 0" for c'
  proof (cases "c' = c \<or> sp_slot s' = sp_slot s")
    case True
    then show ?thesis using dart_step_own [OF _ step pos] call_ok_same_slot [of result c' s s'] same [of c'] inv that by (auto simp: spin_inv_def)
  next
    case False
    then have ns: "\<not> spinning (sp_dart s c')" and no: "\<not> owns c' s"
      using dart_step_slot [OF step] inv free that pos by (auto simp: spin_inv_def owns_def)
    moreover have "\<not> owns c' s'" using claim no False that by (auto simp: owns_def)
    ultimately show ?thesis using call_ok_frame [of result c' s s'] same [of c'] False inv that by (auto simp: spin_inv_def)
  qed
  moreover have "sp_dart s' c' = DIdle \<and> sp_worker s' c' = WIdle" if "c' \<le> 0" for c' using same [of c'] inv that pos by (auto simp: spin_inv_def)
  moreover have "(owns c' s' \<or> owns 0 s') \<and> (\<forall>c''. spinning (sp_dart s' c'') \<longrightarrow> c'' = c')" if sp: "spinning (sp_dart s' c')" for c'
  proof (cases "c' = c")
    case True
    then show ?thesis using dart_step_spins [OF step] sp free same claim inv unfolding spin_inv_def owns_def by (metis insertE singletonD)
  next
    case False
    then have "spinning (sp_dart s c')" "\<not> spinning (sp_dart s c)" using sp same inv by (auto simp: spin_inv_def)
    then have "\<not> spinning (sp_dart s' c)" "sp_slot s' = sp_slot s" using dart_step_spins [OF step] dart_step_slot [OF step] free by auto
    then show ?thesis using inv \<open>spinning (sp_dart s c')\<close> same by (metis spin_inv_def owns_def)
  qed
  ultimately show ?thesis by (simp add: spin_inv_def)
qed

lemma spin_inv_worker:
  assumes inv: "spin_inv result s" and step: "worker_step result c s = Some s'"
  shows "spin_inv result s'"
proof -
  note same = worker_step_others [OF step] and dart = worker_step_dart [OF step]
  note claim = worker_step_claim [OF step]
  have pos: "c > 0" using step inv by (cases "c > 0") (auto simp: spin_inv_def worker_step_def)
  have slot: "sp_slot s' = sp_slot s \<or> owns c s" using worker_step_slot [OF step] inv pos by (simp add: spin_inv_def)
  have "call_ok result c' s'" if "c' > 0" for c'
  proof (cases "c' = c \<or> sp_slot s' = sp_slot s")
    case True
    then show ?thesis using worker_step_own [OF _ step pos] call_ok_same_slot [of result c' s s'] same [of c'] inv that by (auto simp: spin_inv_def)
  next
    case False
    then have "owns c s" using slot by simp
    then have ns: "\<not> spinning (sp_dart s c')" and no: "\<not> owns c' s" using False inv that pos by (auto simp: spin_inv_def owns_def)
    moreover have "\<not> owns c' s'" using claim no that by (auto simp: owns_def)
    ultimately show ?thesis using call_ok_frame [of result c' s s'] same [of c'] False inv that by (auto simp: spin_inv_def)
  qed
  moreover have "sp_worker s' c' = WIdle" if "c' \<le> 0" for c' using same [of c'] inv that pos by (auto simp: spin_inv_def)
  ultimately show ?thesis using inv dart claim by (auto simp: spin_inv_def owns_def)
qed

lemma spin_reach_inv: "spin_reach True result s \<Longrightarrow> spin_inv result s"
proof (induction rule: spin_reach.induct)
  case spin_init
  show ?case by (simp add: spin_inv_def call_defs new_spin_def new_slot_def spinning_def)
next
  case (spin_dart s c choice s')
  then show ?case using spin_inv_dart by blast
next
  case (spin_worker s c s')
  then show ?case using spin_inv_worker by blast
qed

text \<open>
  C22: with one isolate, a completion is delivered exactly once, whatever the interleaving of its poll, its decision to
  stop polling and the worker's post. What the isolate took from the slot is the call's own result, and then the
  worker did not post; the worker never posts twice; once the worker is done and the isolate no longer polls, the result has
  arrived one way or the other; and an isolate that still polls when the worker is done stops at its next poll.
\<close>

theorem spin_exactly_once:
  assumes "spin_reach True result s" "c > 0"
  shows "(\<forall>v. got s c = Some v \<longrightarrow> extractScalar (result c) = Some v \<and> posts s c = 0) \<and> posts s c \<le> 1 \<and>
    (sp_worker s c = WDone \<and> \<not> spinning (sp_dart s c) \<longrightarrow> (got s c \<noteq> None) \<noteq> (posts s c = 1)) \<and>
    (sp_worker s c = WDone \<and> sp_dart s c = DPoll \<longrightarrow> (\<exists>s'. dart_step c False s = Some s' \<and> sp_dart s' c \<in> {DHit, DPark}))"
proof -
  have ok: "call_ok result c s" using spin_reach_inv [OF assms(1)] assms(2) by (simp add: spin_inv_def)
  have "(\<forall>v. got s c = Some v \<longrightarrow> extractScalar (result c) = Some v \<and> posts s c = 0) \<and> posts s c \<le> 1"
    using ok by (cases "sp_dart s c") (auto simp: call_defs)
  moreover have "sp_worker s c = WDone \<and> \<not> spinning (sp_dart s c) \<longrightarrow> (got s c \<noteq> None) \<noteq> (posts s c = 1)"
    using ok by (cases "sp_dart s c") (auto simp: call_defs spinning_def is_scalar_def)
  moreover have "sp_worker s c = WDone \<and> sp_dart s c = DPoll \<longrightarrow> (\<exists>s'. dart_step c False s = Some s' \<and> sp_dart s' c \<in> {DHit, DPark})"
    using ok by (auto simp: call_defs dart_step_def dart_at_def)
  ultimately show ?thesis by blast
qed

section \<open>Runs\<close>

text \<open>A run given by its steps: a step of the worker of a call, or of its isolate with the isolate's decision.\<close>

fun spin_exec :: "(int \<Rightarrow> CObj) \<Rightarrow> (int \<times> bool option) list \<Rightarrow> Spin \<Rightarrow> Spin option" where
  "spin_exec result [] s = Some s"
| "spin_exec result ((c, None) # acts) s = (case worker_step result c s of None \<Rightarrow> None | Some s' \<Rightarrow> spin_exec result acts s')"
| "spin_exec result ((c, Some ch) # acts) s = (case dart_step c ch s of None \<Rightarrow> None | Some s' \<Rightarrow> spin_exec result acts s')"

definition in_call :: "Spin \<Rightarrow> int \<times> bool option \<Rightarrow> bool" where
  "in_call s a \<longleftrightarrow> (snd a \<noteq> None \<longrightarrow> sp_dart s (fst a) \<noteq> DIdle)"

lemma dart_step_in_call: "dart_step c ch s = Some s' \<Longrightarrow> sp_dart s c' \<noteq> DIdle \<Longrightarrow> sp_dart s' c' \<noteq> DIdle"
  by (cases "c' = c"; cases "sp_dart s c") (auto simp: dart_step_def spin_upd split: if_splits spin_state.splits)

lemma spin_exec_reach:
  "spin_reach solo result s \<Longrightarrow> spin_exec result acts s = Some s' \<Longrightarrow> list_all (\<lambda>a. fst a > 0 \<and> (solo \<longrightarrow> in_call s a)) acts \<Longrightarrow>
   spin_reach solo result s'"
proof (induction result acts s rule: spin_exec.induct)
  case (2 result c acts s)
  then obtain t where t: "worker_step result c s = Some t" by (auto split: option.splits)
  then have "spin_reach solo result t" using 2(2) by (rule spin_worker [rotated])
  then show ?case using 2 t worker_step_dart [OF t] by (simp add: in_call_def)
next
  case (3 result c ch acts s)
  then obtain t where t: "dart_step c ch s = Some t" by (auto split: option.splits)
  have "spin_reach solo result t" by (rule spin_dart [OF 3(2) _ _ t]) (use 3(4) in \<open>auto simp: in_call_def\<close>)
  moreover have "list_all (\<lambda>a. fst a > 0 \<and> (solo \<longrightarrow> in_call t a)) acts"
    using 3(4) dart_step_in_call [OF t] by (auto simp: list_all_iff in_call_def)
  ultimately show ?case using 3 t by simp
qed simp

text \<open>Run without interruption, the steps are the operations.\<close>

lemma spin_post_steps:
  assumes "sp_worker s c = WStart"
  shows "\<exists>n s'. spin_exec result (replicate n (c, None)) s = Some s' \<and> sp_slot s' = fst (spin_post c (result c) (sp_slot s)) \<and>
    sp_worker s' c = (if snd (spin_post c (result c) (sp_slot s)) then WErase else WPort)"
proof -
  note d = worker_step_def spin_upd spin_post_def is_scalar_def
  consider (other) "spinId (sp_slot s) \<noteq> c"
    | (hit) v where "spinId (sp_slot s) = c" "extractScalar (result c) = Some v" "spin_flag (sp_slot s) = kPending"
    | (late) v where "spinId (sp_slot s) = c" "extractScalar (result c) = Some v" "spin_flag (sp_slot s) \<noteq> kPending"
    | (obj) "spinId (sp_slot s) = c" "extractScalar (result c) = None"
    by (cases "extractScalar (result c)"; cases "spin_flag (sp_slot s) = kPending") blast+
  then show ?thesis
  proof cases
    case other
    then show ?thesis using assms by (intro exI [of _ 1]) (simp add: d)
  next
    case hit
    then show ?thesis using assms by (intro exI [of _ 3]) (simp add: d numeral_3_eq_3)
  next
    case late
    then show ?thesis using assms by (intro exI [of _ 4]) (simp add: d eval_nat_numeral)
  next
    case obj
    then show ?thesis using assms by (intro exI [of _ 3]) (simp add: d numeral_3_eq_3)
  qed
qed

lemma poll_steps:
  assumes "sp_dart s c = DPoll"
  shows "\<exists>acts s'. spin_exec result acts s = Some s' \<and> sp_slot s' = fst (poll c giveUp (sp_slot s)) \<and>
    (case snd (poll c giveUp (sp_slot s)) of
       (kDone, v) \<Rightarrow> got s' c = v \<and> sp_dart s' c = DGot | (kParked, _) \<Rightarrow> sp_dart s' c = DPark | (kPending, _) \<Rightarrow> sp_dart s' c = DPoll)"
proof -
  note d = dart_step_def spin_upd poll_def Let_def
  show ?thesis
  proof (cases giveUp)
    case True
    show ?thesis
    proof (cases "spin_flag (sp_slot s) = kDone")
      case h: True
      then show ?thesis using assms True by (intro exI [of _ "[(c, Some True), (c, Some False), (c, Some False), (c, Some False)]"]) (simp add: d)
    next
      case False
      then show ?thesis using assms True
        by (intro exI [of _ "[(c, Some True), (c, Some False)]"]) (cases "spin_flag (sp_slot s)"; simp add: d)
    qed
  next
    case False
    show ?thesis
    proof (cases "spin_flag (sp_slot s) = kDone")
      case True
      then show ?thesis using assms False by (intro exI [of _ "[(c, Some False), (c, Some False), (c, Some False)]"]) (simp add: d)
    next
      case n: False
      then show ?thesis using assms False by (intro exI [of _ "[(c, Some False)]"]) (cases "spin_flag (sp_slot s)"; simp add: d)
    qed
  qed
qed

definition ten_times :: "int \<Rightarrow> CObj" where
  "ten_times c = CInt64 (10 * c)"

text \<open>The isolate gives up just before the worker's exchange: the result goes to the port.\<close>

theorem spin_exactly_once_witness:
  "\<exists>s. spin_reach True ten_times s \<and> sp_worker s 1 = WDone \<and> sp_dart s 1 = DPark \<and> got s 1 = None \<and> posts s 1 = 1"
proof -
  let ?acts = "[(1, Some False), (1, Some False), (1, None), (1, None), (1, Some True), (1, None), (1, None), (1, None), (1, Some False)] :: (int \<times> bool option) list"
  define s0 where "s0 = the (dart_step 1 False new_spin)"
  have s0: "dart_step 1 False new_spin = Some s0" by (simp add: s0_def dart_step_def new_spin_def cas_claim_def new_slot_def)
  have r0: "spin_reach True ten_times s0" by (rule spin_dart [OF spin_init _ _ s0]) (simp_all add: new_spin_def spinning_def)
  have d0: "sp_dart s0 1 = DReset" by (simp add: s0_def dart_step_def new_spin_def cas_claim_def new_slot_def dart_at_def slot_at_def)
  have e: "map_option (\<lambda>s. (sp_worker s 1, sp_dart s 1)) (spin_exec ten_times ?acts s0) = Some (WDone, DPark)" unfolding s0_def by code_simp
  then obtain s where s: "spin_exec ten_times ?acts s0 = Some s" "sp_worker s 1 = WDone" "sp_dart s 1 = DPark" by auto
  have "map_option (\<lambda>s. got s 1) (spin_exec ten_times ?acts s0) = Some None" unfolding s0_def by code_simp
  then have g: "got s 1 = None" using s(1) by simp
  have r: "spin_reach True ten_times s" by (rule spin_exec_reach [OF r0 s(1)]) (simp add: in_call_def d0)
  have "posts s 1 = 1" using spin_exactly_once [OF r, of 1] s g by (simp add: spinning_def)
  then show ?thesis using r s g by blast
qed

text \<open>
  C23: with two isolates the slot can misdeliver. \<open>poll\<close> gives up with an exchange on the flag and then reads the flag again; in
  between, the worker sees the parked flag and frees the claim, and a second isolate arms the slot and has its
  call completed. The first isolate then reads \<open>kDone\<close>: it takes the second call's result from the slot as its own,
  and the worker still posts its own result to the port.
\<close>

theorem spin_slot_race:
  "\<exists>s. spin_reach False ten_times s \<and> got s 1 = extractScalar (ten_times 2) \<and> got s 1 \<noteq> extractScalar (ten_times 1) \<and> posts s 1 = 1"
proof -
  let ?acts = "[(1, Some False), (1, Some False), (1, Some False), (1, None), (1, None), (1, Some True), (1, None), (1, None),
    (2, Some False), (2, Some False), (2, Some False), (2, None), (2, None), (2, None), (1, Some False), (1, Some False), (1, Some False), (1, None)] :: (int \<times> bool option) list"
  have e: "map_option (\<lambda>s. (got s 1, posts s 1)) (spin_exec ten_times ?acts new_spin) = Some (extractScalar (ten_times 2), 1)" by code_simp
  then obtain s where s: "spin_exec ten_times ?acts new_spin = Some s" "got s 1 = extractScalar (ten_times 2)" "posts s 1 = 1" by auto
  have "spin_reach False ten_times s" by (rule spin_exec_reach [OF spin_init s(1)]) simp
  moreover have "extractScalar (ten_times 2) \<noteq> extractScalar (ten_times 1)" by (simp add: extractScalar_def ten_times_def)
  ultimately show ?thesis using s by auto
qed

end
