(* ===== verification/CompletionBatch.thy ===== *)
theory CompletionBatch
  imports SpinSlot
begin

text \<open>
  Completion batching (\<open>nitro_completion_batch.h\<close>): completions that arrive while the receiving isolate is still
  busy with the previous message are kept and travel as one message when it acknowledges. The tables are maps; a
  message is a port and the object posted to it. What a call does under the mutex is one step; the post that
  follows, outside the mutex, is another.
\<close>

section \<open>State\<close>

record PortState =
  inFlight :: bool
  port_pending :: "(int \<times> CObj) list"

definition new_port :: PortState where
  "new_port = \<lparr>inFlight = False, port_pending = []\<rparr>"

text \<open>\<open>freeItem\<close> is a function pointer, or null. \<open>released\<close> records the addresses passed to it, \<open>callbacks\<close> the external buffers a copy released.\<close>

record Batch =
  seq :: int
  bound :: "int \<Rightarrow> int option"
  coalesced :: "int \<Rightarrow> nat option option"
  ports :: "int \<Rightarrow> PortState option"
  spin :: Slot
  released :: "(nat \<times> int) list"
  callbacks :: "int list"

definition new_batch :: Batch where
  "new_batch = \<lparr>seq = 0, bound = (\<lambda>_. None), coalesced = (\<lambda>_. None), ports = (\<lambda>_. None), spin = new_slot, released = [], callbacks = []\<rparr>"

type_synonym msg = "int \<times> CObj"

definition postPairs :: "int \<Rightarrow> (int \<times> CObj) list \<Rightarrow> msg" where
  "postPairs port pairs = (port, CArray (concat (map (\<lambda>(i, x). [CInt64 i, x]) pairs)))"

definition postItems :: "int \<Rightarrow> CObj list \<Rightarrow> msg" where
  "postItems port items = (port, CArray items)"

definition freeItems :: "nat option \<Rightarrow> (int \<times> CObj) list \<Rightarrow> Batch \<Rightarrow> Batch" where
  "freeItems freeItem items b = (case freeItem of
       None \<Rightarrow> b
     | Some f \<Rightarrow> b\<lparr>released := released b @ concat (map (\<lambda>(_, x). case x of CInt64 a \<Rightarrow> if a \<noteq> 0 then [(f, a)] else [] | _ \<Rightarrow> []) items)\<rparr>)"

section \<open>Operations\<close>

definition bind_port :: "int \<Rightarrow> Batch \<Rightarrow> Batch \<times> int" where
  "bind_port batchPort b =
     (let i = seq b + 1 in (b\<lparr>seq := i, bound := (bound b)(i \<mapsto> batchPort)\<rparr>, i))"

definition coalesce :: "int \<Rightarrow> nat option \<Rightarrow> Batch \<Rightarrow> Batch" where
  "coalesce port freeItem b = b\<lparr>coalesced := (coalesced b)(port \<mapsto> freeItem)\<rparr>"

definition uncoalesce :: "int \<Rightarrow> Batch \<Rightarrow> Batch" where
  "uncoalesce port b =
     (let freeItem = (case coalesced b port of None \<Rightarrow> None | Some f \<Rightarrow> f);
          dropped = (case ports b port of None \<Rightarrow> [] | Some st \<Rightarrow> port_pending st)
      in freeItems freeItem dropped (b\<lparr>coalesced := (coalesced b)(port := None), ports := (ports b)(port := None)\<rparr>))"

text \<open>
  \<open>post\<close> under the mutex: the message to post afterwards, if there is one. \<open>operator[]\<close> makes the state of a port
  on first use.
\<close>

definition enqueue :: "int \<Rightarrow> bool \<Rightarrow> int \<Rightarrow> CObj \<Rightarrow> Batch \<Rightarrow> Batch \<times> msg option" where
  "enqueue batchPort stream i x b =
     (let st = (case ports b batchPort of None \<Rightarrow> new_port | Some st \<Rightarrow> st)
      in if inFlight st \<and> copyable x
         then (b\<lparr>ports := (ports b)(batchPort \<mapsto> st\<lparr>port_pending := port_pending st @ [(i, copy x)]\<rparr>), callbacks := callbacks b @ copy_releases x\<rparr>, None)
         else (b\<lparr>ports := (ports b)(batchPort \<mapsto> st\<lparr>inFlight := True\<rparr>)\<rparr>,
               Some (if stream then postItems batchPort [x] else postPairs batchPort [(i, x)])))"

definition post_locked :: "int \<Rightarrow> CObj \<Rightarrow> Batch \<Rightarrow> Batch \<times> msg option" where
  "post_locked i x b = (case bound b i of
       Some batchPort \<Rightarrow> enqueue batchPort False i x (b\<lparr>bound := (bound b)(i := None)\<rparr>)
     | None \<Rightarrow> if coalesced b i \<noteq> None then enqueue i True i x b else (b, Some (i, x)))"

text \<open>The whole of \<open>post\<close>; \<open>dart\<close> is \<open>Dart_PostCObject_DL\<close>.\<close>

definition post :: "(msg \<Rightarrow> bool) \<Rightarrow> int \<Rightarrow> CObj \<Rightarrow> Batch \<Rightarrow> Batch \<times> bool" where
  "post dart i x b = (case spin_post i x (spin b) of
       (v, True) \<Rightarrow> (b\<lparr>spin := v, bound := (bound b)(i := None)\<rparr>, True)
     | (v, False) \<Rightarrow> (case post_locked i x (b\<lparr>spin := v\<rparr>) of (b', None) \<Rightarrow> (b', True) | (b', Some m) \<Rightarrow> (b', dart m)))"

text \<open>\<open>ack\<close> under the mutex: what to post afterwards, and what frees the items if the port does not take them.\<close>

definition ack_locked :: "int \<Rightarrow> Batch \<Rightarrow> Batch \<times> (msg \<times> (int \<times> CObj) list \<times> nat option) option" where
  "ack_locked batchPort b = (case ports b batchPort of
       None \<Rightarrow> (b, None)
     | Some st \<Rightarrow>
         if port_pending st = [] then (b\<lparr>ports := (ports b)(batchPort \<mapsto> st\<lparr>inFlight := False\<rparr>)\<rparr>, None)
         else (b\<lparr>ports := (ports b)(batchPort \<mapsto> st\<lparr>port_pending := []\<rparr>)\<rparr>,
               Some (case coalesced b batchPort of
                       Some f \<Rightarrow> (postItems batchPort (map snd (port_pending st)), port_pending st, f)
                     | None \<Rightarrow> (postPairs batchPort (port_pending st), port_pending st, None))))"

definition ack_batch :: "(msg \<Rightarrow> bool) \<Rightarrow> int \<Rightarrow> Batch \<Rightarrow> Batch" where
  "ack_batch dart batchPort b = (case ack_locked batchPort b of
       (b', None) \<Rightarrow> b'
     | (b', Some (m, items, f)) \<Rightarrow> if dart m then b' else freeItems f items b')"

section \<open>The interleaving\<close>

text \<open>
  \<open>outbox\<close> holds the posts decided under the mutex and not made yet (with what frees them), \<open>inbox\<close> the messages the isolate has
  and has not handled, \<open>handled\<close> those it has. \<open>accepted p\<close> records, in the order of the mutex, what was posted for batch port
  \<open>p\<close>; \<open>gone\<close> the ports that were released. \<open>up p\<close> says that the isolate still listens on \<open>p\<close>.
\<close>

record Sys =
  sy_batch :: Batch
  outbox :: "(msg \<times> (int \<times> CObj) list \<times> nat option) list"
  inbox :: "msg list"
  handled :: "msg list"
  accepted :: "int \<Rightarrow> (int \<times> CObj) list"
  gone :: "int list"

definition new_sys :: Sys where
  "new_sys = \<lparr>sy_batch = new_batch, outbox = [], inbox = [], handled = [], accepted = (\<lambda>_. []), gone = []\<rparr>"

definition target :: "int \<Rightarrow> Batch \<Rightarrow> int option" where
  "target i b = (case bound b i of Some p \<Rightarrow> Some p | None \<Rightarrow> if coalesced b i \<noteq> None then Some i else None)"

definition sys_bind :: "int \<Rightarrow> Sys \<Rightarrow> Sys" where
  "sys_bind p s = s\<lparr>sy_batch := fst (bind_port p (sy_batch s))\<rparr>"

definition sys_coalesce :: "int \<Rightarrow> nat option \<Rightarrow> Sys \<Rightarrow> Sys" where
  "sys_coalesce p f s = s\<lparr>sy_batch := coalesce p f (sy_batch s)\<rparr>"

definition sys_uncoalesce :: "int \<Rightarrow> Sys \<Rightarrow> Sys" where
  "sys_uncoalesce p s = s\<lparr>sy_batch := uncoalesce p (sy_batch s), gone := p # gone s\<rparr>"

definition sys_post :: "int \<Rightarrow> CObj \<Rightarrow> Sys \<Rightarrow> Sys" where
  "sys_post i x s = (case post_locked i x (sy_batch s) of (b', m) \<Rightarrow>
     s\<lparr>sy_batch := b',
       outbox := outbox s @ (case m of None \<Rightarrow> [] | Some m \<Rightarrow> [(m, [], None)]),
       accepted := (case target i (sy_batch s) of None \<Rightarrow> accepted s | Some p \<Rightarrow> (accepted s)(p := accepted s p @ [(i, dart_value x)]))\<rparr>)"

definition sys_ack :: "msg list \<Rightarrow> msg \<Rightarrow> msg list \<Rightarrow> Sys \<Rightarrow> Sys" where
  "sys_ack ms m ms' s = (case ack_locked (fst m) (sy_batch s) of (b', r) \<Rightarrow>
     s\<lparr>sy_batch := b', inbox := ms @ ms', handled := handled s @ [m], outbox := outbox s @ (case r of None \<Rightarrow> [] | Some x \<Rightarrow> [x])\<rparr>)"

text \<open>
  The other side's protocol: stream ports and batch ports are different ports, a released port is not registered
  again, and a message is acknowledged on its port once it has been handled. The objects posted are those the bridge posts,
  all of which can be copied.
\<close>

inductive batch_reach :: "(int \<Rightarrow> bool) \<Rightarrow> Sys \<Rightarrow> bool" for up where
  b_init: "batch_reach up new_sys"
| b_bind: "batch_reach up s \<Longrightarrow> coalesced (sy_batch s) p = None \<Longrightarrow> batch_reach up (sys_bind p s)"
| b_coalesce: "batch_reach up s \<Longrightarrow> p \<notin> ran (bound (sy_batch s)) \<Longrightarrow> ports (sy_batch s) p = None \<Longrightarrow> p \<notin> set (gone s) \<Longrightarrow>
    batch_reach up (sys_coalesce p f s)"
| b_uncoalesce: "batch_reach up s \<Longrightarrow> batch_reach up (sys_uncoalesce p s)"
| b_post: "batch_reach up s \<Longrightarrow> copyable x \<Longrightarrow> target i (sy_batch s) \<noteq> None \<Longrightarrow> batch_reach up (sys_post i x s)"
| b_deliver: "batch_reach up s \<Longrightarrow> outbox s = xs @ (m, items, f) # ys \<Longrightarrow> up (fst m) \<Longrightarrow>
    batch_reach up (s\<lparr>outbox := xs @ ys, inbox := inbox s @ [m]\<rparr>)"
| b_lost: "batch_reach up s \<Longrightarrow> outbox s = xs @ (m, items, f) # ys \<Longrightarrow> \<not> up (fst m) \<Longrightarrow>
    batch_reach up (s\<lparr>outbox := xs @ ys, sy_batch := freeItems f items (sy_batch s)\<rparr>)"
| b_ack: "batch_reach up s \<Longrightarrow> inbox s = ms @ m # ms' \<Longrightarrow> batch_reach up (sys_ack ms m ms' s)"

section \<open>What the isolate reads\<close>

fun unpair :: "CObj list \<Rightarrow> (int \<times> CObj) list" where
  "unpair (CInt64 i # x # xs) = (i, dart_value x) # unpair xs"
| "unpair xs = []"

definition read_msg :: "bool \<Rightarrow> msg \<Rightarrow> (int \<times> CObj) list" where
  "read_msg stream m = (case snd m of
       CArray xs \<Rightarrow> if stream then map (\<lambda>x. (fst m, dart_value x)) xs else unpair xs
     | _ \<Rightarrow> [])"

definition for_port :: "int \<Rightarrow> msg list \<Rightarrow> msg list" where
  "for_port p ms = filter (\<lambda>m. fst m = p) ms"

definition read_all :: "bool \<Rightarrow> int \<Rightarrow> msg list \<Rightarrow> (int \<times> CObj) list" where
  "read_all stream p ms = concat (map (read_msg stream) (for_port p ms))"

definition seen :: "(int \<times> CObj) list \<Rightarrow> (int \<times> CObj) list" where
  "seen items = map (\<lambda>(i, x). (i, dart_value x)) items"

lemma for_port_simps [simp]:
  "for_port p [] = []" "for_port p (ms @ ms') = for_port p ms @ for_port p ms'"
  "for_port p (m # ms) = (if fst m = p then m # for_port p ms else for_port p ms)"
  by (simp_all add: for_port_def)

lemma read_all_append [simp]: "read_all stream p (ms @ ms') = read_all stream p ms @ read_all stream p ms'"
  by (simp add: read_all_def)

lemma read_all_one [simp]: "read_all stream p [m] = (if fst m = p then read_msg stream m else [])"
  by (simp add: read_all_def)

lemma read_all_none: "for_port p ms = [] \<Longrightarrow> read_all stream p ms = []"
  by (simp add: read_all_def)

lemma unpair_pairs: "unpair (concat (map (\<lambda>(i, x). [CInt64 i, x]) pairs)) = seen pairs"
  by (induction pairs) (auto simp: seen_def)

lemma read_pairs [simp]: "read_msg False (postPairs p pairs) = seen pairs" "fst (postPairs p pairs) = p"
  by (simp_all add: read_msg_def postPairs_def unpair_pairs)

lemma read_items: "(\<forall>(i, x) \<in> set items. i = p) \<Longrightarrow> read_msg True (postItems p (map snd items)) = seen items"
  by (auto simp: read_msg_def postItems_def seen_def)

lemma fst_postItems [simp]: "fst (postItems p xs) = p"
  by (simp add: postItems_def)

section \<open>In order, exactly once, one message at a time\<close>

text \<open>The messages of a port that are on their way: posted but not handled, or decided but not posted.\<close>

definition on_way :: "Sys \<Rightarrow> msg list" where
  "on_way s = inbox s @ map fst (outbox s)"

definition is_stream :: "int \<Rightarrow> Batch \<Rightarrow> bool" where
  "is_stream p b \<longleftrightarrow> coalesced b p \<noteq> None"

definition active_ok :: "int \<Rightarrow> bool \<Rightarrow> PortState \<Rightarrow> msg list \<Rightarrow> msg list \<Rightarrow> (int \<times> CObj) list \<Rightarrow> bool" where
  "active_ok p stream st hs ws acc \<longleftrightarrow>
     length (for_port p ws) = (if inFlight st then 1 else 0) \<and> (port_pending st \<noteq> [] \<longrightarrow> inFlight st) \<and>
     (stream \<longrightarrow> (\<forall>(i, x) \<in> set (port_pending st). i = p)) \<and>
     acc = read_all stream p hs @ read_all stream p ws @ seen (port_pending st)"

definition port_ok :: "int \<Rightarrow> Sys \<Rightarrow> bool" where
  "port_ok p s \<longleftrightarrow> (case ports (sy_batch s) p of
       None \<Rightarrow> accepted s p = [] \<and> for_port p (handled s) = [] \<and> for_port p (on_way s) = []
     | Some st \<Rightarrow> active_ok p (is_stream p (sy_batch s)) st (handled s) (on_way s) (accepted s p))"

definition batch_inv :: "(int \<Rightarrow> bool) \<Rightarrow> Sys \<Rightarrow> bool" where
  "batch_inv up s \<longleftrightarrow> (\<forall>i p. bound (sy_batch s) i = Some p \<longrightarrow> coalesced (sy_batch s) p = None) \<and>
     (\<forall>p. up p \<and> p \<notin> set (gone s) \<longrightarrow> port_ok p s)"

text \<open>What is known of a port depends on its own entries and messages only.\<close>

lemma port_ok_cong:
  assumes "port_ok p s" "ports (sy_batch s') p = ports (sy_batch s) p" "coalesced (sy_batch s') p = coalesced (sy_batch s) p"
    "accepted s' p = accepted s p" "for_port p (handled s') = for_port p (handled s)" "for_port p (on_way s') = for_port p (on_way s)"
  shows "port_ok p s'"
proof -
  have "is_stream p (sy_batch s') = is_stream p (sy_batch s)" using assms(3) by (simp add: is_stream_def)
  then show ?thesis using assms by (auto simp: port_ok_def active_ok_def read_all_def split: option.splits)
qed

text \<open>A registration of a port that has carried nothing yet.\<close>

lemma port_ok_fresh:
  assumes "port_ok p s" "ports (sy_batch s) p = None" "ports (sy_batch s') p = None"
    "accepted s' p = accepted s p" "handled s' = handled s" "on_way s' = on_way s"
  shows "port_ok p s'"
  using assms by (simp add: port_ok_def)

lemma freeItems_keeps [simp]:
  "ports (freeItems f items b) = ports b" "bound (freeItems f items b) = bound b" "coalesced (freeItems f items b) = coalesced b"
  by (simp_all add: freeItems_def split: option.splits)

lemma enqueue_keeps:
  "bound (fst (enqueue p stream i x b)) = bound b" "coalesced (fst (enqueue p stream i x b)) = coalesced b"
  "q \<noteq> p \<Longrightarrow> ports (fst (enqueue p stream i x b)) q = ports b q" "snd (enqueue p stream i x b) = Some m \<Longrightarrow> fst m = p"
  by (auto simp: enqueue_def Let_def split: if_splits option.splits)

lemma enqueue_ok:
  assumes ok: "port_ok p s" and x: "copyable x" and st: "stream \<longleftrightarrow> is_stream p (sy_batch s)" "stream \<longrightarrow> i = p"
    and b0: "ports b0 = ports (sy_batch s)" "coalesced b0 = coalesced (sy_batch s)"
    and s': "sy_batch s' = fst (enqueue p stream i x b0)" "on_way s' = on_way s @ (case snd (enqueue p stream i x b0) of None \<Rightarrow> [] | Some m \<Rightarrow> [m])"
      "handled s' = handled s" "accepted s' p = accepted s p @ [(i, dart_value x)]"
  shows "port_ok p s'"
proof -
  let ?m = "if stream then postItems p [x] else postPairs p [(i, x)]"
  have c: "is_stream p (sy_batch s') = stream" using enqueue_keeps(2) [of p stream i x b0] b0 s'(1) st(1) by (simp add: is_stream_def)
  have r: "read_msg stream ?m = [(i, dart_value x)]" "fst ?m = p"
    using st(2) read_items [of "[(i, x)]" p] by (simp_all add: seen_def)
  show ?thesis
  proof (cases "ports (sy_batch s) p")
    case None
    then have "ports (sy_batch s') p = Some \<lparr>inFlight = True, port_pending = []\<rparr>" "on_way s' = on_way s @ [?m]"
      using s' b0 by (simp_all add: enqueue_def new_port_def)
    then show ?thesis using ok s'(3, 4) c r None by (simp add: port_ok_def active_ok_def read_all_none seen_def)
  next
    case (Some t)
    then have a: "active_ok p stream t (handled s) (on_way s) (accepted s p)" using ok st(1) by (simp add: port_ok_def)
    show ?thesis
    proof (cases "inFlight t")
      case True
      then have "ports (sy_batch s') p = Some (t\<lparr>port_pending := port_pending t @ [(i, copy x)]\<rparr>)" "on_way s' = on_way s"
        using s' b0 x Some by (simp_all add: enqueue_def)
      then show ?thesis using a s'(3, 4) c True st(2) by (auto simp: port_ok_def active_ok_def seen_def)
    next
      case False
      then have "for_port p (on_way s) = []" "port_pending t = []" using a by (auto simp: active_ok_def)
      moreover have "ports (sy_batch s') p = Some (t\<lparr>inFlight := True\<rparr>)" "on_way s' = on_way s @ [?m]"
        using s' b0 Some False by (simp_all add: enqueue_def)
      ultimately show ?thesis using a s'(3, 4) c r by (simp add: port_ok_def active_ok_def read_all_none seen_def)
    qed
  qed
qed

lemma ack_ok:
  assumes ok: "port_ok (fst m) s" and m: "for_port (fst m) (on_way s) = [m]"
    and s': "sy_batch s' = fst (ack_locked (fst m) (sy_batch s))" "accepted s' = accepted s" "handled s' = handled s @ [m]"
      "for_port (fst m) (on_way s') = (case snd (ack_locked (fst m) (sy_batch s)) of None \<Rightarrow> [] | Some (m', _) \<Rightarrow> [m'])"
  shows "port_ok (fst m) s'"
proof -
  define p where "p = fst m"
  obtain st where st: "ports (sy_batch s) p = Some st" using ok m by (cases "ports (sy_batch s) p") (auto simp: port_ok_def p_def)
  define stream where "stream = is_stream p (sy_batch s)"
  have a: "active_ok p stream st (handled s) (on_way s) (accepted s p)" using ok st by (simp add: port_ok_def p_def stream_def)
  have rm: "read_all stream p (on_way s) = read_msg stream m" using m by (simp add: read_all_def p_def)
  have fl: "inFlight st" using a m by (auto simp: active_ok_def p_def split: if_splits)
  show ?thesis
  proof (cases "port_pending st = []")
    case True
    then have "ports (sy_batch s') p = Some (st\<lparr>inFlight := False\<rparr>)" "for_port p (on_way s') = []" "is_stream p (sy_batch s') = stream"
      using s' st by (simp_all add: ack_locked_def p_def stream_def is_stream_def)
    then show ?thesis using a True rm s'(2, 3) by (simp add: port_ok_def active_ok_def p_def [symmetric] read_all_none)
  next
    case False
    obtain m' where m': "for_port p (on_way s') = [m']" "read_msg stream m' = seen (port_pending st)"
    proof (cases "coalesced (sy_batch s) p")
      case None
      then show ?thesis using that [of "postPairs p (port_pending st)"] s'(4) st False by (simp add: ack_locked_def p_def stream_def is_stream_def)
    next
      case (Some f)
      then show ?thesis using that [of "postItems p (map snd (port_pending st))"] s'(4) st False a read_items [of "port_pending st" p]
        by (simp add: ack_locked_def p_def stream_def is_stream_def active_ok_def)
    qed
    moreover have "ports (sy_batch s') p = Some (st\<lparr>port_pending := []\<rparr>)" "is_stream p (sy_batch s') = stream"
      using s' st False by (simp_all add: ack_locked_def p_def stream_def is_stream_def)
    ultimately show ?thesis using a rm fl s'(2, 3) by (simp add: port_ok_def active_ok_def p_def [symmetric] read_all_def seen_def)
  qed
qed

lemma one_on_way: "port_ok p s \<Longrightarrow> length (for_port p (on_way s)) \<le> 1"
  by (auto simp: port_ok_def active_ok_def split: option.splits)

lemma ack_keeps:
  "bound (fst (ack_locked p b)) = bound b" "coalesced (fst (ack_locked p b)) = coalesced b"
  "q \<noteq> p \<Longrightarrow> ports (fst (ack_locked p b)) q = ports b q" "snd (ack_locked p b) = Some (m, r) \<Longrightarrow> fst m = p"
  by (auto simp: ack_locked_def split: if_splits option.splits)

lemma post_inv:
  assumes inv: "batch_inv up s" and x: "copyable x" and t: "target i (sy_batch s) = Some q"
  shows "batch_inv up (sys_post i x s)"
proof -
  define stream where "stream = is_stream q (sy_batch s)"
  define b0 where "b0 = (if stream then sy_batch s else (sy_batch s)\<lparr>bound := (bound (sy_batch s))(i := None)\<rparr>)"
  have pl: "post_locked i x (sy_batch s) = enqueue q stream i x b0" "stream \<longrightarrow> i = q"
    using t inv by (auto simp: target_def post_locked_def stream_def is_stream_def b0_def batch_inv_def split: option.splits if_splits)
  have b0: "ports b0 = ports (sy_batch s)" "coalesced b0 = coalesced (sy_batch s)" "bound b0 j = Some p \<Longrightarrow> bound (sy_batch s) j = Some p" for j p
    by (auto simp: b0_def split: if_splits)
  let ?s = "sys_post i x s"
  have f: "sy_batch ?s = fst (enqueue q stream i x b0)" "on_way ?s = on_way s @ (case snd (enqueue q stream i x b0) of None \<Rightarrow> [] | Some m \<Rightarrow> [m])"
    "handled ?s = handled s" "gone ?s = gone s" "accepted ?s p = (if p = q then accepted s q @ [(i, dart_value x)] else accepted s p)" for p
    using t by (simp_all add: sys_post_def pl(1) on_way_def split: prod.splits option.splits)
  have "port_ok p ?s" if "up p" "p \<notin> set (gone s)" for p
  proof (cases "p = q")
    case True
    then show ?thesis using enqueue_ok [of q s x stream i b0 ?s] inv that x pl(2) b0 f by (simp add: batch_inv_def stream_def)
  next
    case False
    then have "for_port p (on_way ?s) = for_port p (on_way s)" using enqueue_keeps(4) [of q stream i x b0] f(2) by (auto split: option.splits)
    then show ?thesis using port_ok_cong [of p s ?s] inv that False enqueue_keeps(1, 2) enqueue_keeps(3) [of p q] f b0 by (simp add: batch_inv_def)
  qed
  then show ?thesis using inv f(1, 4) by (auto simp: batch_inv_def enqueue_keeps(1, 2) b0(1, 2) dest!: b0(3))
qed

lemma ack_inv:
  assumes inv: "batch_inv up s" and m: "inbox s = ms @ m # ms'"
  shows "batch_inv up (sys_ack ms m ms' s)"
proof -
  let ?s = "sys_ack ms m ms' s" and ?r = "snd (ack_locked (fst m) (sy_batch s))"
  have f: "sy_batch ?s = fst (ack_locked (fst m) (sy_batch s))" "handled ?s = handled s @ [m]" "gone ?s = gone s" "accepted ?s = accepted s"
    "on_way ?s = ms @ ms' @ map fst (outbox s) @ (case ?r of None \<Rightarrow> [] | Some (m', _) \<Rightarrow> [m'])"
    by (simp_all add: sys_ack_def on_way_def split: prod.splits option.splits)
  have w: "on_way s = ms @ m # ms' @ map fst (outbox s)" by (simp add: on_way_def m)
  have q: "fst m' = fst m" if "?r = Some (m', z)" for m' z using ack_keeps(4) that by blast
  have "port_ok p ?s" if "up p" "p \<notin> set (gone s)" for p
  proof (cases "p = fst m")
    case True
    have ok: "port_ok p s" using inv that by (simp add: batch_inv_def)
    then have z: "for_port p ms = []" "for_port p (ms' @ map fst (outbox s)) = []" using one_on_way [OF ok] w True by auto
    then have "for_port p (on_way ?s) = (case ?r of None \<Rightarrow> [] | Some (m', _) \<Rightarrow> [m'])" using f(5) q True by (auto split: option.splits)
    then show ?thesis using ack_ok [of m s ?s] ok z w True f by simp
  next
    case False
    then have "for_port p (on_way ?s) = for_port p (on_way s)" using f(5) w q by (auto split: option.splits)
    then show ?thesis using port_ok_cong [of p s ?s] inv that False ack_keeps(1, 2) ack_keeps(3) [of p "fst m"] f by (simp add: batch_inv_def)
  qed
  then show ?thesis using inv f ack_keeps(1, 2) by (auto simp: batch_inv_def)
qed

lemma batch_reach_inv: "batch_reach up s \<Longrightarrow> batch_inv up s"
proof (induction rule: batch_reach.induct)
  case b_init
  show ?case by (simp add: batch_inv_def new_sys_def new_batch_def port_ok_def on_way_def)
next
  case (b_bind s p)
  have "port_ok q (sys_bind p s)" if "port_ok q s" for q
    by (rule port_ok_cong [OF that]) (simp_all add: sys_bind_def bind_port_def on_way_def Let_def)
  then show ?case using b_bind by (auto simp: batch_inv_def sys_bind_def bind_port_def Let_def)
next
  case (b_coalesce s p f)
  have "port_ok q (sys_coalesce p f s)" if "port_ok q s" for q
  proof (cases "q = p")
    case True
    show ?thesis by (rule port_ok_fresh [OF that]) (use b_coalesce True in \<open>simp_all add: sys_coalesce_def coalesce_def on_way_def\<close>)
  next
    case False
    then show ?thesis by (intro port_ok_cong [OF that]) (simp_all add: sys_coalesce_def coalesce_def on_way_def)
  qed
  then show ?case using b_coalesce by (auto simp: batch_inv_def sys_coalesce_def coalesce_def ran_def)
next
  case (b_uncoalesce s p)
  have "port_ok q (sys_uncoalesce p s)" if "port_ok q s" "q \<noteq> p" for q
    by (rule port_ok_cong [OF that(1)]) (use that in \<open>simp_all add: sys_uncoalesce_def uncoalesce_def on_way_def Let_def\<close>)
  then show ?case using b_uncoalesce by (auto simp: batch_inv_def sys_uncoalesce_def uncoalesce_def Let_def)
next
  case (b_post s x i)
  then show ?case using post_inv by blast
next
  case (b_deliver s xs m items f ys)
  let ?s = "s\<lparr>outbox := xs @ ys, inbox := inbox s @ [m]\<rparr>"
  have "port_ok q ?s" if "port_ok q s" for q
    by (rule port_ok_cong [OF that]) (use one_on_way [OF that] b_deliver.hyps in \<open>auto simp: on_way_def\<close>)
  then show ?case using b_deliver by (auto simp: batch_inv_def)
next
  case (b_lost s xs m items f ys)
  let ?s = "s\<lparr>outbox := xs @ ys, sy_batch := freeItems f items (sy_batch s)\<rparr>"
  have "port_ok q ?s" if "port_ok q s" "up q" for q
    by (rule port_ok_cong [OF that(1)]) (use b_lost.hyps that(2) in \<open>auto simp: on_way_def\<close>)
  then show ?case using b_lost by (auto simp: batch_inv_def)
next
  case (b_ack s ms m ms')
  then show ?case using ack_inv by blast
qed

text \<open>
  C9: batching loses, repeats and reorders nothing. For every port the isolate still listens on and has not released, in every
  interleaving of posts, deliveries and acknowledgements: the completions accepted for it are, in the order the
  mutex admitted them, what the isolate has read in the messages it handled, followed by the one message on its
  way, followed by those waiting; at most one message is on its way; and whenever one waits, a message is on its way, whose
  acknowledgement will flush it. In particular, with no message on its way everything accepted has been read.
\<close>

theorem batch_in_order:
  assumes "batch_reach up s" "up p" "p \<notin> set (gone s)"
  shows "(let b = sy_batch s; stream = (coalesced b p \<noteq> None);
            waiting = (case ports b p of None \<Rightarrow> [] | Some st \<Rightarrow> port_pending st)
          in accepted s p = read_all stream p (handled s) @ read_all stream p (on_way s) @ seen waiting \<and>
             length (for_port p (on_way s)) \<le> 1 \<and> (waiting \<noteq> [] \<longrightarrow> for_port p (on_way s) \<noteq> []) \<and>
             (for_port p (on_way s) = [] \<longrightarrow> accepted s p = read_all stream p (handled s)))"
proof -
  have ok: "port_ok p s" using batch_reach_inv [OF assms(1)] assms(2, 3) by (simp add: batch_inv_def)
  have sm: "(coalesced (sy_batch s) p \<noteq> None) = is_stream p (sy_batch s)" by (simp add: is_stream_def)
  show ?thesis
  proof (cases "ports (sy_batch s) p")
    case None
    then show ?thesis unfolding Let_def sm using ok by (simp add: port_ok_def read_all_none seen_def)
  next
    case (Some st)
    then have "active_ok p (is_stream p (sy_batch s)) st (handled s) (on_way s) (accepted s p)" using ok by (simp add: port_ok_def)
    then show ?thesis unfolding Let_def sm using Some by (auto simp: active_ok_def read_all_none seen_def split: if_splits)
  qed
qed

definition two_posts :: Sys where
  "two_posts = sys_post 2 (CBool True) (sys_post 1 (CInt64 7) (sys_bind 9 (sys_bind 9 new_sys)))"

theorem batch_in_order_witness:
  "batch_reach (\<lambda>_. True) two_posts \<and> accepted two_posts 9 = [(1, CInt64 7), (2, CBool True)] \<and>
   read_all False 9 (on_way two_posts) = [(1, CInt64 7)] \<and> length (for_port 9 (on_way two_posts)) \<le> 1"
proof -
  note d = two_posts_def sys_post_def sys_bind_def new_sys_def new_batch_def bind_port_def post_locked_def target_def enqueue_def new_port_def
  have r: "batch_reach (\<lambda>_. True) two_posts" unfolding two_posts_def
    by (intro b_post b_bind b_init) (simp_all add: d)
  have w: "on_way two_posts = [postPairs 9 [(1, CInt64 7)]]" by (simp add: d on_way_def)
  have a: "accepted two_posts 9 = [(1, CInt64 7), (2, CBool True)]" by (simp add: d)
  have "gone two_posts = []" by (simp add: d)
  then have "length (for_port 9 (on_way two_posts)) \<le> 1" using batch_in_order [OF r, of 9] by (simp add: Let_def)
  then show ?thesis using r a w by (simp add: seen_def)
qed

section \<open>What the single-message rule does not cover\<close>

text \<open>
  An object that cannot be copied is posted at once even while a message is in flight, and overtakes the
  completions that wait.
\<close>

lemma uncopyable_overtakes:
  assumes "ports b p = Some st" "inFlight st" "\<not> copyable x" "bound b i = Some p"
  shows "snd (post_locked i x b) = Some (postPairs p [(i, x)])"
    "\<exists>st'. ports (fst (post_locked i x b)) p = Some st' \<and> port_pending st' = port_pending st"
  using assms by (simp_all add: post_locked_def enqueue_def)

text \<open>Releasing a stream hands every item that waited and carries an address to its release function, once and in order.\<close>

lemma uncoalesce_frees:
  assumes "coalesced b p = Some (Some f)" "ports b p = Some st"
  shows "released (uncoalesce p b) = released b @ [(f, a). (_, CInt64 a) \<leftarrow> port_pending st, a \<noteq> 0]"
proof -
  have "concat (map (\<lambda>(_, x). case x of CInt64 a \<Rightarrow> if a \<noteq> 0 then [(f, a)] else [] | _ \<Rightarrow> []) items)
      = [(f, a). (_, CInt64 a) \<leftarrow> items, a \<noteq> 0]" for items :: "(int \<times> CObj) list"
    by (induction items) (auto split: CObj.splits)
  then show ?thesis using assms by (simp add: uncoalesce_def freeItems_def)
qed

end
