(* ===== verification/WorkerPool.thy ===== *)
theory WorkerPool
  imports Prelude
begin

text \<open>
  The thread pool that runs asynchronous calls (\<open>nitro_worker_pool.h\<close>). A job is its number. What a call or a worker
  does while it holds the mutex is one step; \<open>jobs_started\<close> records the order in which workers take jobs, \<open>jobs_dropped\<close> those a
  bounded call pushed out.
\<close>

record WorkerPool =
  job_queue :: "nat list"
  threads :: nat
  jobs_started :: "nat list"
  jobs_dropped :: "nat list"

definition new_pool :: WorkerPool where
  "new_pool = \<lparr>job_queue = [], threads = 0, jobs_started = [], jobs_dropped = []\<rparr>"

text \<open>\<open>start\<close>, on first use: between one and four threads, two when the hardware does not say.\<close>

definition pool_size :: "nat \<Rightarrow> nat" where
  "pool_size cores = (if cores = 0 then 2 else if cores > 4 then 4 else cores)"

definition start_threads :: "nat \<Rightarrow> WorkerPool \<Rightarrow> WorkerPool" where
  "start_threads cores p = (if threads p = 0 then p\<lparr>threads := pool_size cores\<rparr> else p)"

definition enqueue_job :: "nat \<Rightarrow> nat \<Rightarrow> WorkerPool \<Rightarrow> WorkerPool" where
  "enqueue_job cores j p = (let p1 = start_threads cores p in p1\<lparr>job_queue := job_queue p1 @ [j]\<rparr>)"

text \<open>\<open>None\<close> while the call has to wait for room. The result is false when a job was dropped.\<close>

definition enqueueBounded :: "nat \<Rightarrow> nat \<Rightarrow> nat \<Rightarrow> bool \<Rightarrow> WorkerPool \<Rightarrow> (WorkerPool \<times> bool) option" where
  "enqueueBounded cores j maxQueued dropOldest p =
     (let p1 = start_threads cores p in
      if maxQueued > 0 \<and> length (job_queue p1) \<ge> maxQueued then
        (if dropOldest
         then Some (p1\<lparr>job_queue := tl (job_queue p1) @ [j], jobs_dropped := jobs_dropped p1 @ [hd (job_queue p1)]\<rparr>, False)
         else None)
      else Some (p1\<lparr>job_queue := job_queue p1 @ [j]\<rparr>, True))"

text \<open>A worker takes the next job; \<open>None\<close> while there is none.\<close>

definition take_job :: "WorkerPool \<Rightarrow> WorkerPool option" where
  "take_job p = (case job_queue p of [] \<Rightarrow> None | j # js \<Rightarrow> Some (p\<lparr>job_queue := js, jobs_started := jobs_started p @ [j]\<rparr>))"

inductive pool_reach :: "nat \<Rightarrow> nat list \<Rightarrow> WorkerPool \<Rightarrow> bool" for cores where
  pool_init: "pool_reach cores [] new_pool"
| pool_enqueue: "pool_reach cores js p \<Longrightarrow> pool_reach cores (js @ [j]) (enqueue_job cores j p)"
| pool_bounded: "pool_reach cores js p \<Longrightarrow> enqueueBounded cores j m d p = Some (p', ok) \<Longrightarrow> pool_reach cores (js @ [j]) p'"
| pool_take: "pool_reach cores js p \<Longrightarrow> take_job p = Some p' \<Longrightarrow> pool_reach cores js p'"

section \<open>Order and bounds\<close>

lemma pool_size_bounds: "1 \<le> pool_size cores \<and> pool_size cores \<le> 4"
  by (simp add: pool_size_def)

text \<open>
  The jobs taken or pushed out, in their original order, are a prefix of the jobs enqueued and the queue is the rest: no job is
  run twice or overtaken, and without a bounded call nothing is lost.
\<close>

fun merges :: "'a list \<Rightarrow> 'a list \<Rightarrow> 'a list \<Rightarrow> bool" where
  "merges xs ys [] \<longleftrightarrow> xs = [] \<and> ys = []"
| "merges xs ys (z # zs) \<longleftrightarrow> (xs \<noteq> [] \<and> hd xs = z \<and> merges (tl xs) ys zs) \<or> (ys \<noteq> [] \<and> hd ys = z \<and> merges xs (tl ys) zs)"

lemma merges_snoc1: "merges xs ys zs \<Longrightarrow> merges (xs @ [z]) ys (zs @ [z])"
  by (induction zs arbitrary: xs ys) auto

lemma merges_snoc2: "merges xs ys zs \<Longrightarrow> merges xs (ys @ [z]) (zs @ [z])"
  by (induction zs arbitrary: xs ys) auto

lemma start_threads_keeps [simp]:
  "job_queue (start_threads cores p) = job_queue p" "jobs_started (start_threads cores p) = jobs_started p" "jobs_dropped (start_threads cores p) = jobs_dropped p"
  by (simp_all add: start_threads_def)

lemma pool_fifo: "pool_reach cores js p \<Longrightarrow> \<exists>out. js = out @ job_queue p \<and> merges (jobs_started p) (jobs_dropped p) out"
proof (induction rule: pool_reach.induct)
  case pool_init
  show ?case by (simp add: new_pool_def)
next
  case (pool_enqueue js p j)
  then show ?case by (auto simp: enqueue_job_def Let_def)
next
  case (pool_bounded js p j m d p' ok)
  then obtain out where out: "js = out @ job_queue p" "merges (jobs_started p) (jobs_dropped p) out" by blast
  show ?case
  proof (cases "m > 0 \<and> length (job_queue p) \<ge> m")
    case True
    then obtain x xs where q: "job_queue p = x # xs" by (cases "job_queue p") auto
    then have "job_queue p' = xs @ [j]" "jobs_started p' = jobs_started p" "jobs_dropped p' = jobs_dropped p @ [x]"
      using pool_bounded.hyps(2) True by (auto simp: enqueueBounded_def Let_def split: if_splits)
    then show ?thesis using out q merges_snoc2 by (intro exI [of _ "out @ [x]"]) simp
  next
    case False
    then have "job_queue p' = job_queue p @ [j]" "jobs_started p' = jobs_started p" "jobs_dropped p' = jobs_dropped p"
      using pool_bounded.hyps(2) by (auto simp: enqueueBounded_def Let_def)
    then show ?thesis using out by auto
  qed
next
  case (pool_take js p p')
  then obtain out where out: "js = out @ job_queue p" "merges (jobs_started p) (jobs_dropped p) out" by blast
  obtain x xs where q: "job_queue p = x # xs" using pool_take.hyps(2) by (auto simp: take_job_def split: list.splits)
  then show ?case using out pool_take.hyps(2) merges_snoc1 by (intro exI [of _ "out @ [x]"]) (auto simp: take_job_def)
qed

lemma bounded_within: "enqueueBounded cores j m d p = Some (p', ok) \<Longrightarrow> m > 0 \<Longrightarrow> length (job_queue p) \<le> m \<Longrightarrow> length (job_queue p') \<le> m"
  by (auto simp: enqueueBounded_def Let_def split: if_splits)

text \<open>
  A waiting call is woken by one notification per job taken. The notification may go to a call whose own bound is still
  reached while another call, with a larger bound, could proceed.
\<close>

lemma wrong_waiter:
  "\<exists>p. enqueueBounded cores 8 1 False p = None \<and> enqueueBounded cores 9 2 False p \<noteq> None \<and> enqueueBounded cores 9 2 False (p\<lparr>job_queue := 0 # job_queue p\<rparr>) = None"
  by (intro exI [of _ "\<lparr>job_queue = [1], threads = 1, jobs_started = [], jobs_dropped = []\<rparr>"]) (simp add: enqueueBounded_def start_threads_def)

end
