(* ===== verification/Http2.thy ===== *)
theory Http2
  imports ReactorHttp
begin

text \<open>
  An HTTP/2 connection (\<open>Http2Session.cpp\<close>). The framing, header compression and flow control are those of the
  \<open>nghttp2\<close> library: what it reports through the callbacks is the input of the model, what the session submits to
  it is logged, and how it serialises the submissions (\<open>pump\<close>) is outside. The map of streams is an association list; a sweep
  visits the streams in its order.
\<close>

section \<open>State\<close>

record H2Stream =
  s_requestId :: int
  s_method :: Method
  s_customMethod :: string
  s_path :: string
  s_query :: string
  s_scheme :: string
  s_authority :: string
  s_headers :: "header list"
  s_contentLength :: int
  s_rejected :: bool
  s_matched :: bool
  s_pattern :: string
  s_params :: "route_param list"
  s_maxBody :: int
  s_reserved :: int
  s_timeoutMs :: int
  s_emitted :: bool
  s_hasDeadline :: bool
  s_deadline :: int
  s_lastProgress :: int
  s_body :: string
  s_respBody :: string
  s_respOff :: nat

definition new_stream :: H2Stream where
  "new_stream = \<lparr>s_requestId = 0, s_method = Get, s_customMethod = [], s_path = [], s_query = [], s_scheme = [], s_authority = [],
     s_headers = [], s_contentLength = -1, s_rejected = False, s_matched = False, s_pattern = [], s_params = [], s_maxBody = -1,
     s_reserved = 0, s_timeoutMs = 0, s_emitted = False, s_hasDeadline = False, s_deadline = 0, s_lastProgress = 0, s_body = [],
     s_respBody = [], s_respOff = 0\<rparr>"

text \<open>What the session submits: a response (its fields, and whether a body follows through \<open>readBody\<close>), GOAWAY, SETTINGS.\<close>

datatype h2_submit =
    SubmitResponse int "header list" bool
  | SubmitGoaway
  | SubmitSettings "(nat \<times> nat) list"

record H2Session =
  h2_router :: router
  h2_clientIp :: string
  h2_maxBodyBytes :: int
  h2_defaultTimeoutMs :: int
  h2_bodyBudget :: int
  h2_reserved :: int
  goawaySent :: bool
  h2_stopped :: bool
  h2_nextId :: int
  streams :: "(int \<times> H2Stream) list"
  reqToStream :: "(int \<times> int) list"
  h2_submitted :: "h2_submit list"
  h2_emits :: "emit_call list"
  h2_ptr :: nat

text \<open>The constructor; the settings are \<open>MAX_CONCURRENT_STREAMS\<close> (3) and \<open>MAX_HEADER_LIST_SIZE\<close> (6).\<close>

definition new_session :: "router \<Rightarrow> string \<Rightarrow> int \<Rightarrow> int \<Rightarrow> int \<Rightarrow> H2Session" where
  "new_session rt ip maxBody timeoutMs budget = \<lparr>h2_router = rt, h2_clientIp = ip, h2_maxBodyBytes = maxBody,
     h2_defaultTimeoutMs = timeoutMs, h2_bodyBudget = budget, h2_reserved = 0, goawaySent = False, h2_stopped = False, h2_nextId = 1,
     streams = [], reqToStream = [], h2_submitted = [SubmitSettings [(3, 128), (6, 32768)]], h2_emits = [], h2_ptr = 0\<rparr>"

text \<open>
  What a callback reads besides: the clock, the admission check and the id allocator the reactor injects (\<open>None\<close> when it
  injects none), and which allocations succeed.
\<close>

record H2Env =
  v_now :: int
  v_admit :: "bool option"
  v_alloc :: "int option"
  v_malloc :: "nat \<Rightarrow> bool"

definition streamFor :: "int \<Rightarrow> H2Session \<Rightarrow> H2Stream option" where
  "streamFor sid h = map_of (streams h) sid"

definition upd_stream :: "int \<Rightarrow> (H2Stream \<Rightarrow> H2Stream) \<Rightarrow> H2Session \<Rightarrow> H2Session" where
  "upd_stream sid f h = h\<lparr>streams := map (\<lambda>(k, st). if k = sid then (k, f st) else (k, st)) (streams h)\<rparr>"

definition submit :: "h2_submit \<Rightarrow> H2Session \<Rightarrow> H2Session" where
  "submit x h = h\<lparr>h2_submitted := h2_submitted h @ [x]\<rparr>"

definition h2_emit :: "emit_call \<Rightarrow> H2Session \<Rightarrow> H2Session" where
  "h2_emit x h = h\<lparr>h2_emits := h2_emits h @ [x]\<rparr>"

section \<open>Callbacks\<close>

record h2_frame =
  f_headers :: bool
  f_data :: bool
  f_request :: bool
  f_endStream :: bool
  f_stream :: int

definition rejectStream :: "int \<Rightarrow> int \<Rightarrow> header list \<Rightarrow> H2Session \<Rightarrow> H2Session" where
  "rejectStream sid status extra h =
     submit (SubmitResponse sid (hdr '':status'' (to_string status) # extra) False)
       (upd_stream sid (\<lambda>st. st\<lparr>s_rejected := True, s_body := []\<rparr>) h)"

definition onBeginHeaders :: "H2Env \<Rightarrow> h2_frame \<Rightarrow> H2Session \<Rightarrow> H2Session" where
  "onBeginHeaders env f h =
     (if \<not> f_headers f \<or> \<not> f_request f then h
      else h\<lparr>streams := AList.update (f_stream f) (new_stream\<lparr>s_maxBody := h2_maxBodyBytes h, s_lastProgress := v_now env\<rparr>) (streams h)\<rparr>)"

text \<open>\<open>std::from_chars\<close> on a \<open>long long\<close>, then the check that the whole value was read and is not negative.\<close>

definition header_length :: "string \<Rightarrow> int" where
  "header_length v =
     (let neg = (v \<noteq> [] \<and> hd v = CHR ''-''); ds = (if neg then tl v else v);
          n = (if neg then - int (dec_val ds) else int (dec_val ds))
      in if ds \<noteq> [] \<and> list_all is_digit ds \<and> - (2 ^ 63) \<le> n \<and> n < 2 ^ 63 \<and> n \<ge> 0 then n else -1)"

definition store_header :: "string \<Rightarrow> string \<Rightarrow> H2Stream \<Rightarrow> H2Stream" where
  "store_header n v st =
     (if n = '':method'' then (case parseMethod v (s_customMethod st) of (m, c) \<Rightarrow> st\<lparr>s_method := m, s_customMethod := c\<rparr>)
      else if n = '':path'' then
        (case find_sub ''?'' v of
           None \<Rightarrow> st\<lparr>s_path := v\<rparr>
         | Some q \<Rightarrow> st\<lparr>s_path := take q v, s_query := drop (q + 1) v\<rparr>)
      else if n = '':scheme'' then st\<lparr>s_scheme := v\<rparr>
      else if n = '':authority'' then st\<lparr>s_authority := v\<rparr>
      else (if n = ''content-length'' then st\<lparr>s_contentLength := header_length v\<rparr> else st)\<lparr>s_headers := s_headers st @ [hdr n v]\<rparr>)"

definition onHeader :: "h2_frame \<Rightarrow> string \<Rightarrow> string \<Rightarrow> H2Session \<Rightarrow> H2Session" where
  "onHeader f n v h =
     (if \<not> f_request f then h
      else case streamFor (f_stream f) h of
        None \<Rightarrow> h
      | Some st \<Rightarrow>
          if s_rejected st then h
          else if \<not> validUtf8 (bytes_of v) then rejectStream (f_stream f) 400 [] h
          else if \<not> list_all (\<lambda>c. ord c < 0x80) n then rejectStream (f_stream f) 400 [] h
          else upd_stream (f_stream f) (store_header n v) h)"

definition onDataChunk :: "H2Env \<Rightarrow> int \<Rightarrow> string \<Rightarrow> H2Session \<Rightarrow> H2Session" where
  "onDataChunk env sid data h = (case streamFor sid h of
       None \<Rightarrow> h
     | Some st \<Rightarrow>
         if s_rejected st then h
         else
           let h1 = upd_stream sid (\<lambda>st. st\<lparr>s_lastProgress := v_now env\<rparr>) h in
           if s_maxBody st > 0 \<and> int (length (s_body st) + length data) > s_maxBody st then rejectStream sid 413 [] h1
           else upd_stream sid (\<lambda>st. st\<lparr>s_body := s_body st @ data\<rparr>) h1)"

definition take_id :: "H2Env \<Rightarrow> H2Session \<Rightarrow> H2Session \<times> int" where
  "take_id env h = (case v_alloc env of Some i \<Rightarrow> (h, i) | None \<Rightarrow> (h\<lparr>h2_nextId := h2_nextId h + 1\<rparr>, h2_nextId h))"

text \<open>The hand-over of a complete request, once it is admitted.\<close>

definition dispatch_stream2 :: "H2Env \<Rightarrow> int \<Rightarrow> H2Stream \<Rightarrow> H2Session \<Rightarrow> H2Session" where
  "dispatch_stream2 env sid st h =
     (case take_id env h of (h1, i) \<Rightarrow>
        let h2 = upd_stream sid (\<lambda>st. (if s_timeoutMs st > 0 then st\<lparr>s_deadline := v_now env + ms (s_timeoutMs st), s_hasDeadline := True\<rparr> else st)
                     \<lparr>s_requestId := i, s_emitted := True\<rparr>) (h1\<lparr>reqToStream := AList.update i sid (reqToStream h1)\<rparr>);
            hasBody = (s_body st \<noteq> []);
            h3 = h2_emit (EmitHead i (s_method st) (s_customMethod st) (s_path st) (s_query st) (s_headers st) (s_contentLength st)
                   hasBody (\<not> hasBody) (s_pattern st) (s_params st) (h2_clientIp h)) h2;
            h4 = (if \<not> hasBody then h3
                  else upd_stream sid (\<lambda>st. st\<lparr>s_body := []\<rparr>)
                    (if v_malloc env (length (s_body st))
                     then h2_emit (EmitBodyData i (h2_ptr h3) (bytes_of (s_body st))) (h3\<lparr>h2_ptr := h2_ptr h3 + 1\<rparr>) else h3))
        in h2_emit (EmitBodyEnd i) h4)"

definition emitComplete :: "H2Env \<Rightarrow> int \<Rightarrow> H2Session \<Rightarrow> H2Session" where
  "emitComplete env sid h = (case streamFor sid h of
       None \<Rightarrow> h
     | Some st \<Rightarrow>
         if v_admit env = Some False then rejectStream sid 503 [hdr ''retry-after'' ''1''] h
         else let allowed = (if s_matched st then [] else allowedMethods (h2_router h) (s_path st)) in
           if allowed \<noteq> [] then rejectStream sid 405 [hdr ''allow'' (join_allow allowed)] h
           else dispatch_stream2 env sid st h)"

text \<open>Routing on the HEADERS frame: the route's own cap and deadline replace the session's.\<close>

definition route_stream :: "H2Env \<Rightarrow> H2Session \<Rightarrow> H2Stream \<Rightarrow> H2Stream" where
  "route_stream env h st =
     (let m = match (h2_router h) (s_method st) (s_customMethod st) (s_path st);
          st1 = st\<lparr>s_lastProgress := v_now env, s_matched := mr_matched m, s_timeoutMs := h2_defaultTimeoutMs h\<rparr>
      in case mr_route m of
           None \<Rightarrow> st1
         | Some r \<Rightarrow> st1\<lparr>s_pattern := re_pattern r, s_params := mr_params m,
             s_maxBody := (if re_maxBodyBytes r \<ge> 0 then re_maxBodyBytes r else s_maxBody st),
             s_timeoutMs := (if re_timeoutMs r \<ge> 0 then re_timeoutMs r else h2_defaultTimeoutMs h)\<rparr>)"

definition body_want :: "bool \<Rightarrow> H2Stream \<Rightarrow> H2Session \<Rightarrow> int" where
  "body_want endStream st h =
     (if endStream then 0 else if s_contentLength st \<ge> 0 then s_contentLength st
      else if s_maxBody st > 0 then s_maxBody st else h2_bodyBudget h + 1)"

definition reserve_body :: "int \<Rightarrow> bool \<Rightarrow> H2Stream \<Rightarrow> H2Session \<Rightarrow> H2Session" where
  "reserve_body sid endStream st h =
     (let want = body_want endStream st h in
      if want > h2_bodyBudget h then rejectStream sid 413 [] h
      else if h2_reserved h + want > h2_bodyBudget h then rejectStream sid 503 [hdr ''retry-after'' ''1''] h
      else upd_stream sid (\<lambda>st. st\<lparr>s_reserved := want\<rparr>) (h\<lparr>h2_reserved := h2_reserved h + want\<rparr>))"

definition request_headers_done :: "H2Env \<Rightarrow> int \<Rightarrow> bool \<Rightarrow> H2Session \<Rightarrow> H2Session" where
  "request_headers_done env sid endStream h = (case streamFor sid h of
       None \<Rightarrow> h
     | Some st \<Rightarrow>
         let st1 = route_stream env h st; h1 = upd_stream sid (\<lambda>_. st1) h in
         if s_rejected st1 then h1
         else if s_maxBody st1 > 0 \<and> s_contentLength st1 > s_maxBody st1 then rejectStream sid 413 [] h1
         else if h2_bodyBudget h1 > 0 then reserve_body sid endStream st1 h1
         else h1)"

definition onFrameRecv :: "H2Env \<Rightarrow> h2_frame \<Rightarrow> H2Session \<Rightarrow> H2Session" where
  "onFrameRecv env f h =
     (let h1 = (if f_headers f \<and> f_request f then request_headers_done env (f_stream f) (f_endStream f) h else h)
      in if (f_headers f \<or> f_data f) \<and> f_endStream f then
           (case streamFor (f_stream f) h1 of
              None \<Rightarrow> h1
            | Some st \<Rightarrow> if s_rejected st then h1 else emitComplete env (f_stream f) h1)
         else h1)"

definition onStreamClose :: "int \<Rightarrow> H2Session \<Rightarrow> H2Session" where
  "onStreamClose sid h = (case streamFor sid h of
       None \<Rightarrow> h
     | Some st \<Rightarrow> h\<lparr>h2_reserved := h2_reserved h - s_reserved st, reqToStream := AList.delete (s_requestId st) (reqToStream h),
         streams := AList.delete sid (streams h)\<rparr>)"

section \<open>Calls from the reactor\<close>

definition goAway :: "H2Session \<Rightarrow> H2Session" where
  "goAway h = (if goawaySent h \<or> h2_stopped h then h else submit SubmitGoaway (h\<lparr>goawaySent := True\<rparr>))"

definition h2_stop :: "H2Session \<Rightarrow> H2Session" where
  "h2_stop h = h\<lparr>h2_stopped := True\<rparr>"

definition hasOpenStreams :: "H2Session \<Rightarrow> bool" where
  "hasOpenStreams h \<longleftrightarrow> streams h \<noteq> []"

definition sweep_stream :: "int \<Rightarrow> int \<Rightarrow> int \<Rightarrow> H2Session \<times> int list \<Rightarrow> H2Session \<times> int list" where
  "sweep_stream now bodyStallMs sid x = (case x of (h, expired) \<Rightarrow>
     (case streamFor sid h of
        None \<Rightarrow> x
      | Some st \<Rightarrow>
          if s_rejected st then x
          else if s_emitted st then
            (if s_hasDeadline st \<and> now \<ge> s_deadline st
             then (rejectStream sid 408 [] (h\<lparr>reqToStream := AList.delete (s_requestId st) (reqToStream h)\<rparr>), expired @ [s_requestId st])
             else x)
          else if bodyStallMs > 0 \<and> now - s_lastProgress st \<ge> ms bodyStallMs then (rejectStream sid 408 [] h, expired)
          else x))"

definition h2_sweep :: "int \<Rightarrow> int \<Rightarrow> H2Session \<Rightarrow> H2Session \<times> int list" where
  "h2_sweep now bodyStallMs h =
     (if h2_stopped h then (h, []) else fold (sweep_stream now bodyStallMs) (map fst (streams h)) (h, []))"

text \<open>The data source of a response: the next bytes, and whether they are the last.\<close>

definition readBody :: "nat \<Rightarrow> H2Stream \<Rightarrow> H2Stream \<times> string \<times> bool" where
  "readBody len st =
     (let n = min len (length (s_respBody st) - s_respOff st)
      in (st\<lparr>s_respOff := s_respOff st + n\<rparr>, take n (drop (s_respOff st) (s_respBody st)), s_respOff st + n = length (s_respBody st)))"

definition h2_respond :: "int \<Rightarrow> int \<Rightarrow> header list \<Rightarrow> string \<Rightarrow> H2Session \<Rightarrow> H2Session" where
  "h2_respond i status headers body h =
     (if h2_stopped h then h
      else case map_of (reqToStream h) i of
        None \<Rightarrow> h
      | Some sid \<Rightarrow>
          (case streamFor sid h of
             None \<Rightarrow> h
           | Some st \<Rightarrow>
               let rb = (if s_method st = Head \<or> bodyless status then [] else body)
               in submit (SubmitResponse sid (hdr '':status'' (to_string status) # headers) (rb \<noteq> []))
                    (upd_stream sid (\<lambda>st. st\<lparr>s_respBody := rb, s_respOff := 0\<rparr>) h)))"

text \<open>\<open>feed\<close>: the callbacks the library makes for the bytes, and whether it reports a fatal error.\<close>

datatype h2_event =
    BeginHeaders h2_frame
  | HeaderField h2_frame string string
  | DataChunk int string
  | FrameRecv h2_frame
  | StreamClose int

definition h2_event :: "H2Env \<Rightarrow> h2_event \<Rightarrow> H2Session \<Rightarrow> H2Session" where
  "h2_event env e h = (case e of
       BeginHeaders f \<Rightarrow> onBeginHeaders env f h
     | HeaderField f n v \<Rightarrow> onHeader f n v h
     | DataChunk sid data \<Rightarrow> onDataChunk env sid data h
     | FrameRecv f \<Rightarrow> onFrameRecv env f h
     | StreamClose sid \<Rightarrow> onStreamClose sid h)"

definition h2_feed :: "H2Env \<Rightarrow> h2_event list \<Rightarrow> bool \<Rightarrow> H2Session \<Rightarrow> H2Session \<times> bool" where
  "h2_feed env evs fatal h = (if h2_stopped h then (h, False) else (fold (h2_event env) evs h, \<not> fatal))"

section \<open>The body budget\<close>

text \<open>
  What the library promises of its callbacks: a request's HEADERS open a stream with a new id; its fields come before
  the frame is complete, its data after and before END\_STREAM; and, as it checks the declared length itself, it never
  delivers more data than \<open>content-length\<close> says. \<open>R\<close> holds the streams whose header block is complete, \<open>E\<close> those whose request is.
\<close>

definition h2_protocol :: "int set \<Rightarrow> int set \<Rightarrow> h2_event \<Rightarrow> H2Session \<Rightarrow> bool" where
  "h2_protocol R E e h = (case e of
       BeginHeaders f \<Rightarrow> f_stream f \<notin> R \<and> f_stream f \<notin> E \<and> streamFor (f_stream f) h = None
     | HeaderField f n v \<Rightarrow> f_request f \<longrightarrow> f_stream f \<notin> R
     | DataChunk sid data \<Rightarrow> sid \<in> R \<and> sid \<notin> E \<and>
         (case streamFor sid h of
            None \<Rightarrow> True
          | Some st \<Rightarrow> s_contentLength st \<ge> 0 \<and> \<not> s_rejected st \<longrightarrow> int (length (s_body st) + length data) \<le> s_contentLength st)
     | FrameRecv f \<Rightarrow> \<not> (f_headers f \<and> f_data f) \<and> f_stream f \<notin> E \<and> (f_headers f \<and> f_request f \<longrightarrow> f_stream f \<notin> R)
     | StreamClose sid \<Rightarrow> True)"

definition routed_after :: "h2_event \<Rightarrow> int set \<Rightarrow> int set" where
  "routed_after e R = (case e of FrameRecv f \<Rightarrow> if f_headers f \<and> f_request f then insert (f_stream f) R else R | _ \<Rightarrow> R)"

definition ended_after :: "h2_event \<Rightarrow> int set \<Rightarrow> int set" where
  "ended_after e E = (case e of FrameRecv f \<Rightarrow> if (f_headers f \<or> f_data f) \<and> f_endStream f then insert (f_stream f) E else E | _ \<Rightarrow> E)"

inductive h2_reach :: "int \<Rightarrow> int set \<Rightarrow> int set \<Rightarrow> H2Session \<Rightarrow> bool" for budget where
  h2_init: "h2_reach budget {} {} (new_session rt ip maxBody timeoutMs budget)"
| h2_callback: "h2_reach budget R E h \<Longrightarrow> h2_protocol R E e h \<Longrightarrow> h2_reach budget (routed_after e R) (ended_after e E) (h2_event env e h)"
| h2_answer: "h2_reach budget R E h \<Longrightarrow> h2_reach budget R E (h2_respond i status headers body h)"
| h2_timer: "h2_reach budget R E h \<Longrightarrow> h2_reach budget R E (fst (h2_sweep now stall h))"
| h2_drain: "h2_reach budget R E h \<Longrightarrow> h2_reach budget R E (goAway h)"
| h2_end: "h2_reach budget R E h \<Longrightarrow> h2_reach budget R E (h2_stop h)"
| h2_read: "h2_reach budget R E h \<Longrightarrow> h2_reach budget R E (upd_stream sid (\<lambda>st. fst (readBody n st)) h)"

text \<open>What one stream holds: nothing before its header block is complete or once it is refused or complete, otherwise at most what it reserved.\<close>

definition stream_ok :: "int \<Rightarrow> int set \<Rightarrow> int set \<Rightarrow> int \<Rightarrow> H2Stream \<Rightarrow> bool" where
  "stream_ok budget R E sid st \<longleftrightarrow>
     0 \<le> s_reserved st \<and> (s_rejected st \<or> sid \<in> E \<longrightarrow> s_body st = []) \<and> (sid \<notin> R \<longrightarrow> s_body st = [] \<and> s_reserved st = 0) \<and>
     (sid \<in> R \<and> sid \<notin> E \<and> \<not> s_rejected st \<and> budget > 0 \<longrightarrow>
        s_reserved st = (if s_contentLength st \<ge> 0 then s_contentLength st else s_maxBody st) \<and> (s_contentLength st \<ge> 0 \<or> s_maxBody st > 0)) \<and>
     (budget > 0 \<longrightarrow> int (length (s_body st)) \<le> s_reserved st)"

definition reserved_sum :: "(int \<times> H2Stream) list \<Rightarrow> int" where
  "reserved_sum ss = sum_list (map (\<lambda>x. s_reserved (snd x)) ss)"

definition body_sum :: "(int \<times> H2Stream) list \<Rightarrow> int" where
  "body_sum ss = sum_list (map (\<lambda>x. int (length (s_body (snd x)))) ss)"

definition h2_inv :: "int \<Rightarrow> int set \<Rightarrow> int set \<Rightarrow> H2Session \<Rightarrow> bool" where
  "h2_inv budget R E h \<longleftrightarrow> h2_bodyBudget h = budget \<and> distinct (map fst (streams h)) \<and>
     (\<forall>(k, st) \<in> set (streams h). stream_ok budget R E k st) \<and> h2_reserved h = reserved_sum (streams h) \<and>
     (budget > 0 \<longrightarrow> h2_reserved h \<le> budget)"

lemma streamFor_set: "streamFor sid h = Some st \<Longrightarrow> (sid, st) \<in> set (streams h)"
  by (simp add: streamFor_def map_of_SomeD)

lemma streamFor_unique: "h2_inv budget R E h \<Longrightarrow> (sid, st) \<in> set (streams h) \<Longrightarrow> streamFor sid h = Some st"
  by (simp add: h2_inv_def streamFor_def)

lemma streamFor_ok: "h2_inv budget R E h \<Longrightarrow> streamFor sid h = Some st \<Longrightarrow> stream_ok budget R E sid st"
  using streamFor_set by (fastforce simp: h2_inv_def)

lemma streamFor_upd [simp]: "streamFor k (upd_stream sid f h) = (if k = sid then map_option f (streamFor k h) else streamFor k h)"
proof -
  have "map_of (map (\<lambda>(k, st). if k = sid then (k, f st) else (k, st)) ss) k = (if k = sid then map_option f (map_of ss k) else map_of ss k)" for ss
    by (induction ss) auto
  then show ?thesis by (simp add: streamFor_def upd_stream_def)
qed

lemma upd_keys: "map fst (map (\<lambda>(k, st). if k = sid then (k, f st) else (k, st)) ss) = map fst ss"
  by (induction ss) auto

text \<open>A callback that changes one stream, not its reservation.\<close>

lemma h2_upd_inv:
  assumes inv: "h2_inv budget R E h"
    and f: "\<And>st. streamFor sid h = Some st \<Longrightarrow> s_reserved (f st) = s_reserved st \<and> stream_ok budget R' E' sid (f st)"
    and same: "\<And>k. k \<noteq> sid \<Longrightarrow> (k \<in> R') = (k \<in> R) \<and> (k \<in> E') = (k \<in> E)"
  shows "h2_inv budget R' E' (upd_stream sid f h)"
proof -
  have r: "reserved_sum (map (\<lambda>(k, st). if k = sid then (k, f st) else (k, st)) (streams h)) = reserved_sum (streams h)"
    unfolding reserved_sum_def map_map comp_def
    by (rule arg_cong [where f = sum_list], rule map_cong) (use f streamFor_unique [OF inv] in \<open>auto split: prod.splits\<close>)
  have o: "stream_ok budget R' E' k st'" if "(k, st') \<in> set (map (\<lambda>(k, st). if k = sid then (k, f st) else (k, st)) (streams h))" for k st'
  proof (cases "k = sid")
    case True
    then show ?thesis using that f streamFor_unique [OF inv] by (auto split: if_splits)
  next
    case False
    then have "stream_ok budget R E k st'" using that inv by (auto simp: h2_inv_def split: if_splits)
    then show ?thesis using same [OF False] by (simp add: stream_ok_def)
  qed
  have d: "distinct (map fst (map (\<lambda>(k, st). if k = sid then (k, f st) else (k, st)) (streams h)))"
    using inv unfolding upd_keys h2_inv_def by blast
  have h: "h2_bodyBudget h = budget" "h2_reserved h = reserved_sum (streams h)" "budget > 0 \<longrightarrow> h2_reserved h \<le> budget" using inv unfolding h2_inv_def by blast+
  have "streams (upd_stream sid f h) = map (\<lambda>(k, st). if k = sid then (k, f st) else (k, st)) (streams h)"
    "h2_reserved (upd_stream sid f h) = h2_reserved h" "h2_bodyBudget (upd_stream sid f h) = h2_bodyBudget h" by (simp_all add: upd_stream_def)
  then show ?thesis unfolding h2_inv_def using r o d h by (metis (no_types, lifting) case_prodI2)
qed

lemma inv_frame: "h2_inv budget R E h \<Longrightarrow> streams h' = streams h \<Longrightarrow> h2_reserved h' = h2_reserved h \<Longrightarrow> h2_bodyBudget h' = h2_bodyBudget h \<Longrightarrow> h2_inv budget R E h'"
  by (auto simp: h2_inv_def)

lemma submit_inv [simp]: "h2_inv budget R E (submit x h) = h2_inv budget R E h" "h2_inv budget R E (h2_emit y h) = h2_inv budget R E h"
  by (simp_all add: h2_inv_def submit_def h2_emit_def)

lemma reject_inv: "h2_inv budget R E h \<Longrightarrow> h2_inv budget R E (rejectStream sid status extra h)"
  unfolding rejectStream_def submit_inv
  by (rule h2_upd_inv) (auto dest: streamFor_ok simp: stream_ok_def)

lemma reject_ends: "h2_inv budget R E h \<Longrightarrow> h2_inv budget R (insert sid E) (rejectStream sid status extra h)"
  unfolding rejectStream_def submit_inv
  by (rule h2_upd_inv) (auto dest: streamFor_ok simp: stream_ok_def)

lemma dispatch_ends:
  assumes "h2_inv budget R E h" "streamFor sid h = Some st"
  shows "h2_inv budget R (insert sid E) (dispatch_stream2 env sid st h)"
proof -
  obtain h1 i where t: "take_id env h = (h1, i)" by fastforce
  have i1: "h2_inv budget R E h1" "streamFor sid h1 = Some st"
    using assms t by (auto simp: take_id_def h2_inv_def streamFor_def split: option.splits)
  have same: "(k \<in> R) = (k \<in> R) \<and> (k \<in> insert sid E) = (k \<in> E)" if "k \<noteq> sid" for k using that by simp
  have ok: "stream_ok budget R E sid st" using streamFor_ok [OF i1] .
  show ?thesis
  proof (cases "s_body st = []")
    case True
    have "h2_inv budget R (insert sid E) (upd_stream sid (\<lambda>st. (if s_timeoutMs st > 0 then st\<lparr>s_deadline := v_now env + ms (s_timeoutMs st), s_hasDeadline := True\<rparr> else st)
                     \<lparr>s_requestId := i, s_emitted := True\<rparr>) (h1\<lparr>reqToStream := AList.update i sid (reqToStream h1)\<rparr>))"
      by (rule h2_upd_inv [of budget R E]) (use i1 ok True same in \<open>auto simp: h2_inv_def streamFor_def stream_ok_def\<close>)
    then show ?thesis using True by (simp add: dispatch_stream2_def t Let_def)
  next
    case False
    let ?h2 = "upd_stream sid (\<lambda>st. (if s_timeoutMs st > 0 then st\<lparr>s_deadline := v_now env + ms (s_timeoutMs st), s_hasDeadline := True\<rparr> else st)
                     \<lparr>s_requestId := i, s_emitted := True\<rparr>) (h1\<lparr>reqToStream := AList.update i sid (reqToStream h1)\<rparr>)"
    have h2: "h2_inv budget R E ?h2"
      by (rule h2_upd_inv [of budget R E]) (use i1 ok in \<open>auto simp: h2_inv_def streamFor_def stream_ok_def\<close>)
    have "h2_inv budget R (insert sid E) (upd_stream sid (\<lambda>st. st\<lparr>s_body := []\<rparr>) x)" if x: "h2_inv budget R E x" for x
      by (rule h2_upd_inv [OF x]) (use streamFor_ok [OF x] same in \<open>auto simp: stream_ok_def\<close>)
    moreover have "h2_inv budget R E (x\<lparr>h2_ptr := n\<rparr>) = h2_inv budget R E x" for x n by (simp add: h2_inv_def)
    ultimately show ?thesis using False h2 by (simp add: dispatch_stream2_def t Let_def)
  qed
qed

lemma emit_ends: "h2_inv budget R E h \<Longrightarrow> streamFor sid h = Some st \<Longrightarrow> h2_inv budget R (insert sid E) (emitComplete env sid h)"
  by (simp add: emitComplete_def Let_def reject_ends dispatch_ends)

lemma refused_ends:
  assumes "h2_inv budget R E h" "\<And>st. streamFor sid h = Some st \<Longrightarrow> s_rejected st"
  shows "h2_inv budget R (insert sid E) h"
proof -
  have "stream_ok budget R (insert sid E) k st" if "(k, st) \<in> set (streams h)" for k st
    using that assms streamFor_unique [OF assms(1) that] by (cases "k = sid") (auto simp: h2_inv_def stream_ok_def)
  then show ?thesis using assms(1) by (auto simp: h2_inv_def)
qed

lemma reserved_sum_simps [simp]:
  "reserved_sum [] = 0" "reserved_sum (x # ss) = s_reserved (snd x) + reserved_sum ss" "reserved_sum (ss @ ss') = reserved_sum ss + reserved_sum ss'"
  by (simp_all add: reserved_sum_def)

lemma reserved_sum_upd:
  "distinct (map fst ss) \<Longrightarrow> map_of ss sid = Some st \<Longrightarrow>
   reserved_sum (map (\<lambda>(k, st). if k = sid then (k, f st) else (k, st)) ss) = reserved_sum ss - s_reserved st + s_reserved (f st)"
proof (induction ss)
  case (Cons x ss)
  have "map (\<lambda>(k, st). if k = sid then (k, f st) else (k, st)) ss = ss" if "sid \<notin> fst ` set ss"
    by (rule map_idI) (use that in force)
  then show ?case using Cons by (cases x) auto
qed simp

lemma reserved_sum_delete:
  "distinct (map fst ss) \<Longrightarrow> map_of ss sid = Some st \<Longrightarrow> reserved_sum (AList.delete sid ss) = reserved_sum ss - s_reserved st"
proof (induction ss)
  case (Cons x ss)
  have "AList.delete sid ss = ss" if "sid \<notin> fst ` set ss" using that by (simp add: AList.delete_eq filter_id_conv) force
  then show ?case using Cons by (cases x) auto
qed simp

lemma upd_stream_id: "upd_stream sid (\<lambda>st. st) h = h"
  by (simp add: upd_stream_def case_prod_beta)

text \<open>The header block of a stream is complete, and nothing more is to be reserved for it.\<close>

lemma settle_inv:
  assumes "h2_inv budget R E h" "sid \<notin> R" "\<And>st. streamFor sid h = Some st \<Longrightarrow> s_rejected st \<or> budget \<le> 0" "E' = E \<or> E' = insert sid E"
  shows "h2_inv budget (insert sid R) E' h"
proof -
  have "h2_inv budget (insert sid R) E' (upd_stream sid (\<lambda>st. st) h)"
    by (rule h2_upd_inv [OF assms(1)]) (use assms(2-4) streamFor_ok [OF assms(1)] in \<open>auto simp: stream_ok_def\<close>)
  then show ?thesis by (simp add: upd_stream_id)
qed

lemma reserve_inv:
  assumes inv: "h2_inv budget R E h" and sid: "sid \<notin> R" "streamFor sid h = Some st" and w: "0 \<le> want" "h2_reserved h + want \<le> budget"
    and ok: "stream_ok budget (insert sid R) E' sid (st\<lparr>s_reserved := want\<rparr>)" and E': "E' = E \<or> E' = insert sid E"
  shows "h2_inv budget (insert sid R) E' (upd_stream sid (\<lambda>st. st\<lparr>s_reserved := want\<rparr>) (h\<lparr>h2_reserved := h2_reserved h + want\<rparr>))"
proof -
  let ?ss = "map (\<lambda>(k, st). if k = sid then (k, st\<lparr>s_reserved := want\<rparr>) else (k, st)) (streams h)"
  have "s_reserved st = 0" using streamFor_ok [OF inv sid(2)] sid(1) by (simp add: stream_ok_def)
  then have r: "reserved_sum ?ss = reserved_sum (streams h) + want"
    using reserved_sum_upd [of "streams h" sid st] inv sid(2) by (simp add: h2_inv_def streamFor_def)
  have "stream_ok budget (insert sid R) E' k st'" if "(k, st') \<in> set ?ss" for k st'
  proof (cases "k = sid")
    case True
    then show ?thesis using that ok sid(2) streamFor_unique [OF inv] by (auto split: if_splits)
  next
    case False
    then have "stream_ok budget R E k st'" using that inv by (auto simp: h2_inv_def split: if_splits)
    then show ?thesis using False E' by (auto simp: stream_ok_def)
  qed
  moreover have "distinct (map fst ?ss)" using inv unfolding upd_keys h2_inv_def by blast
  moreover have "h2_bodyBudget h = budget" "h2_reserved h = reserved_sum (streams h)" using inv unfolding h2_inv_def by blast+
  moreover have "streams (upd_stream sid (\<lambda>st. st\<lparr>s_reserved := want\<rparr>) (h\<lparr>h2_reserved := h2_reserved h + want\<rparr>)) = ?ss"
    "h2_reserved (upd_stream sid (\<lambda>st. st\<lparr>s_reserved := want\<rparr>) (h\<lparr>h2_reserved := h2_reserved h + want\<rparr>)) = h2_reserved h + want"
    "h2_bodyBudget (upd_stream sid (\<lambda>st. st\<lparr>s_reserved := want\<rparr>) (h\<lparr>h2_reserved := h2_reserved h + want\<rparr>)) = h2_bodyBudget h" by (simp_all add: upd_stream_def)
  ultimately show ?thesis unfolding h2_inv_def using r w by (metis (no_types, lifting) case_prodI2)
qed

lemma route_keeps [simp]:
  "s_body (route_stream env h st) = s_body st" "s_reserved (route_stream env h st) = s_reserved st"
  "s_rejected (route_stream env h st) = s_rejected st" "s_contentLength (route_stream env h st) = s_contentLength st"
  by (simp_all add: route_stream_def Let_def split: option.splits)

lemma reject_rejects: "streamFor sid (rejectStream sid status extra h) = Some st \<Longrightarrow> s_rejected st"
  by (auto simp: rejectStream_def submit_def streamFor_def [of sid "_\<lparr>h2_submitted := _\<rparr>"] simp flip: streamFor_def)

lemma headers_done_inv:
  assumes inv: "h2_inv budget R E h" and sid: "sid \<notin> R"
  shows "h2_inv budget (insert sid R) (if endStream then insert sid E else E) (request_headers_done env sid endStream h)"
proof (cases "streamFor sid h")
  case None
  then show ?thesis using settle_inv [OF inv sid] by (simp add: request_headers_done_def)
next
  case (Some st)
  let ?E = "if endStream then insert sid E else E"
  have E: "?E = E \<or> ?E = insert sid E" by simp
  define st1 where "st1 = route_stream env h st"
  define h1 where "h1 = upd_stream sid (\<lambda>_. st1) h"
  have ok: "s_body st = []" "s_reserved st = 0" using streamFor_ok [OF inv Some] sid by (simp_all add: stream_ok_def)
  have i1: "h2_inv budget R E h1" unfolding h1_def
    by (rule h2_upd_inv [OF inv]) (use ok sid Some in \<open>auto simp: st1_def stream_ok_def\<close>)
  have f1: "streamFor sid h1 = Some st1" using Some by (simp add: h1_def)
  have b1: "h2_bodyBudget h1 = budget" using i1 by (simp add: h2_inv_def)
  have rej: "h2_inv budget (insert sid R) ?E (rejectStream sid status extra h1)" for status extra
    by (rule settle_inv [OF reject_inv [OF i1] sid _ E]) (use reject_rejects in blast)
  have res: "h2_inv budget (insert sid R) ?E (reserve_body sid endStream st1 h1)" if nr: "\<not> s_rejected st1" "budget > 0"
  proof (cases "body_want endStream st1 h1 > budget \<or> h2_reserved h1 + body_want endStream st1 h1 > budget")
    case True
    then show ?thesis using rej b1 by (auto simp: reserve_body_def Let_def)
  next
    case False
    have w: "0 \<le> body_want endStream st1 h1" using that b1 by (simp add: body_want_def)
    have "stream_ok budget (insert sid R) ?E sid (st1\<lparr>s_reserved := body_want endStream st1 h1\<rparr>)"
      using ok False w b1 by (auto simp: stream_ok_def st1_def body_want_def split: if_splits)
    then show ?thesis using reserve_inv [OF i1 sid f1 w, of ?E] False b1 E by (simp add: reserve_body_def Let_def)
  qed
  have set: "h2_inv budget (insert sid R) ?E h1" if "s_rejected st1 \<or> budget \<le> 0"
    by (rule settle_inv [OF i1 sid _ E]) (use that f1 in simp)
  show ?thesis unfolding request_headers_done_def using Some rej res set b1
    by (auto simp: Let_def st1_def [symmetric] h1_def [symmetric])
qed

lemma frame_inv:
  assumes inv: "h2_inv budget R E h" and p: "h2_protocol R E (FrameRecv f) h"
  shows "h2_inv budget (routed_after (FrameRecv f) R) (ended_after (FrameRecv f) E) (onFrameRecv env f h)"
proof -
  have fin: "h2_inv budget R' (insert sid E') (case streamFor sid x of None \<Rightarrow> x | Some st \<Rightarrow> if s_rejected st then x else emitComplete env sid x)"
    if "h2_inv budget R' E' x" for R' E' x sid
    using emit_ends [OF that] refused_ends [OF that, of sid] by (auto split: option.splits)
  show ?thesis
  proof (cases "f_headers f \<and> f_request f")
    case True
    have "h2_inv budget (insert (f_stream f) R) (if f_endStream f then insert (f_stream f) E else E) (request_headers_done env (f_stream f) (f_endStream f) h)"
      using headers_done_inv [OF inv] p True by (simp add: h2_protocol_def)
    then show ?thesis using True fin [of "insert (f_stream f) R" "insert (f_stream f) E" _ "f_stream f"]
      by (cases "f_endStream f") (simp_all add: onFrameRecv_def routed_after_def ended_after_def Let_def)
  next
    case False
    then show ?thesis using inv fin [OF inv, of "f_stream f"] by (auto simp: onFrameRecv_def routed_after_def ended_after_def Let_def)
  qed
qed

lemma data_inv:
  assumes inv: "h2_inv budget R E h" and p: "h2_protocol R E (DataChunk sid data) h"
  shows "h2_inv budget R E (onDataChunk env sid data h)"
proof (cases "streamFor sid h")
  case (Some st)
  let ?h = "upd_stream sid (\<lambda>st. st\<lparr>s_lastProgress := v_now env\<rparr>) h"
  have ok: "stream_ok budget R E sid st" using streamFor_ok [OF inv Some] .
  have i1: "h2_inv budget R E ?h" by (rule h2_upd_inv [OF inv]) (use ok Some in \<open>auto simp: stream_ok_def\<close>)
  have "h2_inv budget R E (upd_stream sid (\<lambda>st. st\<lparr>s_body := s_body st @ data\<rparr>) ?h)"
    if "\<not> s_rejected st" "\<not> (s_maxBody st > 0 \<and> int (length (s_body st) + length data) > s_maxBody st)"
    by (rule h2_upd_inv [OF i1]) (use ok Some p that in \<open>auto simp: stream_ok_def h2_protocol_def split: if_splits\<close>)
  then show ?thesis using Some inv reject_inv [OF i1] by (auto simp: onDataChunk_def Let_def)
qed (use inv in \<open>simp add: onDataChunk_def\<close>)

lemma store_header_keeps [simp]:
  "s_body (store_header n v st) = s_body st" "s_reserved (store_header n v st) = s_reserved st" "s_rejected (store_header n v st) = s_rejected st"
  by (auto simp: store_header_def split: prod.splits option.splits)

lemma header_inv:
  assumes inv: "h2_inv budget R E h" and p: "h2_protocol R E (HeaderField f n v) h"
  shows "h2_inv budget R E (onHeader f n v h)"
proof -
  have "h2_inv budget R E (upd_stream (f_stream f) (store_header n v) h)" if "f_request f"
    by (rule h2_upd_inv [OF inv]) (use p that in \<open>auto simp: h2_protocol_def stream_ok_def dest!: streamFor_ok [OF inv]\<close>)
  then show ?thesis using inv reject_inv [OF inv] by (simp add: onHeader_def split: option.splits)
qed

lemma begin_inv:
  assumes inv: "h2_inv budget R E h" and p: "h2_protocol R E (BeginHeaders f) h"
  shows "h2_inv budget R E (onBeginHeaders env f h)"
proof -
  let ?st = "new_stream\<lparr>s_maxBody := h2_maxBodyBytes h, s_lastProgress := v_now env\<rparr>"
  have n: "f_stream f \<notin> fst ` set (streams h)" using p by (simp add: h2_protocol_def streamFor_def map_of_eq_None_iff)
  have "k \<notin> fst ` set ss \<Longrightarrow> AList.update k x ss = ss @ [(k, x)]" for k x and ss :: "(int \<times> H2Stream) list" by (induction ss) auto
  then have "AList.update (f_stream f) ?st (streams h) = streams h @ [(f_stream f, ?st)]" using n by blast
  moreover have "stream_ok budget R E (f_stream f) ?st" using p by (simp add: stream_ok_def h2_protocol_def new_stream_def)
  ultimately show ?thesis using inv n by (auto simp: onBeginHeaders_def h2_inv_def new_stream_def)
qed

lemma close_inv: "h2_inv budget R E h \<Longrightarrow> h2_inv budget R E (onStreamClose sid h)"
proof (cases "streamFor sid h")
  case (Some st)
  assume inv: "h2_inv budget R E h"
  have "0 \<le> s_reserved st" using streamFor_ok [OF inv Some] by (simp add: stream_ok_def)
  moreover have "reserved_sum (AList.delete sid (streams h)) = reserved_sum (streams h) - s_reserved st"
    using reserved_sum_delete inv Some by (simp add: h2_inv_def streamFor_def)
  moreover have "\<forall>x \<in> set (AList.delete sid (streams h)). x \<in> set (streams h)" by (auto simp: AList.delete_eq)
  ultimately show ?thesis using inv Some AList.distinct_delete [of "streams h" sid] by (auto simp: onStreamClose_def h2_inv_def)
qed (simp add: onStreamClose_def)

lemma h2_sweep_inv: "h2_inv budget R E h \<Longrightarrow> h2_inv budget R E (fst (h2_sweep now stall h))"
proof -
  assume "h2_inv budget R E h"
  have one: "h2_inv budget R E (fst (sweep_stream now stall sid x))" if "h2_inv budget R E (fst x)" for sid x
  proof -
    have "h2_inv budget R E (h\<lparr>reqToStream := q\<rparr>) = h2_inv budget R E h" for h q by (simp add: h2_inv_def)
    then show ?thesis using that reject_inv by (cases x) (auto simp: sweep_stream_def split: option.splits)
  qed
  have "h2_inv budget R E (fst x) \<Longrightarrow> h2_inv budget R E (fst (fold (sweep_stream now stall) sids x))" for sids x
    by (induction sids arbitrary: x) (simp_all add: one)
  then show ?thesis using \<open>h2_inv budget R E h\<close> by (simp add: h2_sweep_def)
qed

lemma h2_respond_inv: "h2_inv budget R E h \<Longrightarrow> h2_inv budget R E (h2_respond i status headers body h)"
proof -
  assume inv: "h2_inv budget R E h"
  have "h2_inv budget R E (upd_stream sid (\<lambda>st. st\<lparr>s_respBody := rb, s_respOff := 0\<rparr>) h)" for sid rb
    by (rule h2_upd_inv [OF inv]) (auto simp: stream_ok_def dest: streamFor_ok [OF inv])
  then show ?thesis using inv by (auto simp: h2_respond_def Let_def split: option.splits)
qed

lemma h2_read_inv: "h2_inv budget R E h \<Longrightarrow> h2_inv budget R E (upd_stream sid (\<lambda>st. fst (readBody n st)) h)"
  by (rule h2_upd_inv) (auto simp: readBody_def Let_def stream_ok_def dest: streamFor_ok)

lemma h2_reach_inv: "h2_reach budget R E h \<Longrightarrow> h2_inv budget R E h"
proof (induction rule: h2_reach.induct)
  case (h2_init rt ip maxBody timeoutMs)
  show ?case by (simp add: h2_inv_def new_session_def)
next
  case (h2_callback R E h e env)
  then show ?case
    using frame_inv data_inv header_inv begin_inv close_inv
    by (cases e) (simp_all add: h2_event_def routed_after_def ended_after_def)
qed (auto simp: h2_respond_inv h2_sweep_inv h2_read_inv goAway_def h2_stop_def elim: inv_frame)


definition sample_frame :: h2_frame where
  "sample_frame = \<lparr>f_headers = True, f_data = False, f_request = True, f_endStream = False, f_stream = 1\<rparr>"

definition sample_env :: H2Env where
  "sample_env = \<lparr>v_now = 0, v_admit = None, v_alloc = None, v_malloc = (\<lambda>_. True)\<rparr>"

definition sample_upload :: "nat \<Rightarrow> H2Session" where
  "sample_upload n = fold (h2_event sample_env)
     (take n [BeginHeaders sample_frame, HeaderField sample_frame ''content-length'' ''5'', FrameRecv sample_frame, DataChunk 1 ''abc''])
     (new_session new_router [] (-1) 0 100)"

lemma settings_kept:
  "h2_router (onHeader f n v h) = h2_router h" "h2_bodyBudget (onHeader f n v h) = h2_bodyBudget h" "h2_reserved (onHeader f n v h) = h2_reserved h"
  "h2_defaultTimeoutMs (onHeader f n v h) = h2_defaultTimeoutMs h"
  "h2_router (onBeginHeaders env f h) = h2_router h" "h2_bodyBudget (onBeginHeaders env f h) = h2_bodyBudget h"
  "h2_reserved (onBeginHeaders env f h) = h2_reserved h" "h2_defaultTimeoutMs (onBeginHeaders env f h) = h2_defaultTimeoutMs h"
  by (simp_all add: onHeader_def onBeginHeaders_def rejectStream_def submit_def upd_stream_def split: option.splits)


text \<open>A response body is sent whole: reading it in pieces of any size gives its bytes in order, and the end is reported with the last.\<close>

lemma readBody_piece:
  assumes "s_respOff st \<le> length (s_respBody st)" "readBody n st = (st', bytes, eof)"
  shows "drop (s_respOff st) (s_respBody st) = bytes @ drop (s_respOff st') (s_respBody st')" "s_respBody st' = s_respBody st"
    "s_respOff st' \<le> length (s_respBody st')" "eof \<longleftrightarrow> s_respOff st' = length (s_respBody st')"
  using assms by (auto simp: readBody_def Let_def add.commute simp flip: drop_drop)

text \<open>A stream the deadline sweep answered ignores a late answer.\<close>

lemma late_answer_ignored: "map_of (reqToStream h) i = None \<Longrightarrow> h2_respond i status headers body h = h"
  by (simp add: h2_respond_def)

end
