(* ===== verification/InstanceTable.thy ===== *)
theory InstanceTable
  imports DartObject "HOL-Library.AList"
begin

text \<open>
  The generated dispatch layer (\<open>nitro_server.bridge.g.cpp\<close>): the table of instances behind the ids the other side holds,
  the lock-free cache in front of it, the stream subscriptions of each instance, and what an emitted item does with memory.
  An object is its address, a number. \<open>Dart_PostCObject_DL\<close> is an argument.
\<close>

section \<open>Instances\<close>

record InstSlot =
  sl_id :: int
  sl_ptr :: "nat option"

record Instances =
  inst_table :: "(int \<times> nat) list"
  next_instance :: int
  inst_cache :: "InstSlot list"

definition empty_slot :: InstSlot where
  "empty_slot = \<lparr>sl_id = -1, sl_ptr = None\<rparr>"

definition kNitroCacheWays :: nat where
  "kNitroCacheWays = 8"

definition new_instances :: Instances where
  "new_instances = \<lparr>inst_table = [], next_instance = 1, inst_cache = replicate kNitroCacheWays empty_slot\<rparr>"

text \<open>\<open>(uint64_t)id & (ways - 1)\<close>.\<close>

definition way :: "int \<Rightarrow> nat" where
  "way i = nat (i mod int kNitroCacheWays)"

definition nitro_get_instance :: "int \<Rightarrow> Instances \<Rightarrow> Instances \<times> nat option" where
  "nitro_get_instance i t =
     (if sl_id (inst_cache t ! way i) = i then (t, sl_ptr (inst_cache t ! way i))
      else case map_of (inst_table t) i of
        None \<Rightarrow> (t, None)
      | Some p \<Rightarrow> (t\<lparr>inst_cache := (inst_cache t)[way i := \<lparr>sl_id = i, sl_ptr = Some p\<rparr>]\<rparr>, Some p))"

definition nitro_invalidate_cache :: "Instances \<Rightarrow> Instances" where
  "nitro_invalidate_cache t = t\<lparr>inst_cache := map (\<lambda>_. empty_slot) (inst_cache t)\<rparr>"

definition register_impl :: "nat option \<Rightarrow> Instances \<Rightarrow> Instances" where
  "register_impl impl t = nitro_invalidate_cache (case impl of
       Some p \<Rightarrow> t\<lparr>inst_table := AList.update 0 p (inst_table t)\<rparr>
     | None \<Rightarrow> t\<lparr>inst_table := AList.delete 0 (inst_table t)\<rparr>)"

definition get_impl :: "Instances \<Rightarrow> Instances \<times> nat option" where
  "get_impl t = nitro_get_instance 0 t"

text \<open>\<open>made\<close> is what the factory returned: none registered, a null pointer, or an object.\<close>

definition create_instance :: "nat option option \<Rightarrow> Instances \<Rightarrow> Instances \<times> int" where
  "create_instance made t = (case made of
       None \<Rightarrow> (t, 0)
     | Some None \<Rightarrow> (t, -1)
     | Some (Some p) \<Rightarrow>
         let i = next_instance t + 1
         in (t\<lparr>next_instance := i, inst_table := AList.update i p (inst_table t)\<rparr>, i))"

section \<open>Streams\<close>

text \<open>The subscriptions of one stream, by instance; \<open>None\<close> is the null instance.\<close>

type_synonym stream_ports = "(nat option \<times> int list) list"

definition ports_add :: "nat option \<Rightarrow> int \<Rightarrow> stream_ports \<Rightarrow> stream_ports" where
  "ports_add inst p m = AList.update inst ((case map_of m inst of None \<Rightarrow> [] | Some v \<Rightarrow> v) @ [p]) m"

definition ports_remove :: "int \<Rightarrow> stream_ports \<Rightarrow> stream_ports" where
  "ports_remove p m = map (\<lambda>(k, v). (k, filter (\<lambda>q. q \<noteq> p) v)) m"

definition ports_dropInstance :: "nat option \<Rightarrow> stream_ports \<Rightarrow> stream_ports" where
  "ports_dropInstance inst m = AList.delete inst m"

definition snapshot :: "nat option \<Rightarrow> stream_ports \<Rightarrow> int list" where
  "snapshot inst m = (case map_of m inst of None \<Rightarrow> [] | Some v \<Rightarrow> v)"

text \<open>The four streams: requests, body chunks, events, WebSocket messages.\<close>

definition release_instance_streams :: "nat option \<Rightarrow> stream_ports list \<Rightarrow> stream_ports list" where
  "release_instance_streams impl ms = map (ports_dropInstance impl) ms"

definition destroy_instance :: "int \<Rightarrow> Instances \<times> stream_ports list \<Rightarrow> Instances \<times> stream_ports list" where
  "destroy_instance i x = (case x of (t, ms) \<Rightarrow>
     if i = 0 then (t, ms)
     else (nitro_invalidate_cache (t\<lparr>inst_table := AList.delete i (inst_table t)\<rparr>),
           case map_of (inst_table t) i of None \<Rightarrow> ms | Some p \<Rightarrow> release_instance_streams (Some p) ms))"

text \<open>
  Memory as far as emitted items use it: the next address, the blocks that are allocated, those the receiver has taken
  over, those freed. \<open>alloc\<close> says which allocations succeed.
\<close>

record Blocks =
  blk_next :: nat
  blk_given :: "nat list"
  blk_freed :: "nat list"

definition free_block :: "nat \<Rightarrow> Blocks \<Rightarrow> Blocks" where
  "free_block a b = b\<lparr>blk_freed := blk_freed b @ [a]\<rparr>"

text \<open>The loop over the subscribers: one copy each, freed again when the port does not take it.\<close>

fun emit_copies :: "(nat \<Rightarrow> bool) \<Rightarrow> (int \<times> CObj \<Rightarrow> bool) \<Rightarrow> int list \<Rightarrow> stream_ports \<times> Blocks \<Rightarrow> stream_ports \<times> Blocks" where
  "emit_copies alloc dart [] x = x"
| "emit_copies alloc dart (p # ps) (m, b) =
     (let a = blk_next b in
      if \<not> alloc a then (m, b)
      else let b1 = b\<lparr>blk_next := a + 1\<rparr> in
        if dart (p, CInt64 (int a)) then emit_copies alloc dart ps (m, b1\<lparr>blk_given := blk_given b1 @ [a]\<rparr>)
        else emit_copies alloc dart ps (ports_remove p m, free_block a b1))"

text \<open>\<open>emit_bodyChunks\<close> and \<open>emit_wsMessages\<close>: the struct itself is copied.\<close>

definition emit_struct :: "(nat \<Rightarrow> bool) \<Rightarrow> (int \<times> CObj \<Rightarrow> bool) \<Rightarrow> nat option \<Rightarrow> stream_ports \<times> Blocks \<Rightarrow> stream_ports \<times> Blocks" where
  "emit_struct alloc dart inst x = emit_copies alloc dart (snapshot inst (fst x)) x"

text \<open>\<open>emit_incomingRequests\<close> and \<open>emit_serverEvents\<close>: the item is a block whose ownership comes with the call, or null.\<close>

definition emit_record :: "(nat \<Rightarrow> bool) \<Rightarrow> (int \<times> CObj \<Rightarrow> bool) \<Rightarrow> nat option \<Rightarrow> nat option \<Rightarrow> stream_ports \<times> Blocks \<Rightarrow> stream_ports \<times> Blocks" where
  "emit_record alloc dart inst item x = (case x of (m, b) \<Rightarrow>
     let ps = snapshot inst m in
     if ps = [] then (m, case item of None \<Rightarrow> b | Some a \<Rightarrow> free_block a b)
     else case item of
       None \<Rightarrow> (fold (\<lambda>p m. if dart (p, CNull) then m else ports_remove p m) ps m, b)
     | Some a \<Rightarrow> (case emit_copies alloc dart ps (m, b) of (m', b') \<Rightarrow> (m', free_block a b')))"

section \<open>Calls\<close>

text \<open>The argument block of a record parameter: \<open>{ptr + 4, *(int32_t*)ptr}\<close>.\<close>

definition unwrap_block :: "bytes \<Rightarrow> bytes" where
  "unwrap_block b = take (unat (word_of_int (foldr (\<lambda>x a. uint x + 256 * a) (take 4 b) 0) :: 32 word)) (drop 4 b)"

datatype call_error = NoError | NotInitialized | CppException

text \<open>Every exported call: the error slot is cleared, the instance looked up, and an exception becomes an error and the default result.\<close>

definition guarded_call ::
  "int \<Rightarrow> 'r \<Rightarrow> (nat \<Rightarrow> 's \<Rightarrow> ('s \<times> 'r) option) \<Rightarrow> Instances \<times> 's \<Rightarrow> (Instances \<times> 's) \<times> 'r \<times> call_error" where
  "guarded_call i dflt f x = (case x of (t, s) \<Rightarrow>
     case nitro_get_instance i t of
       (t', None) \<Rightarrow> ((t', s), dflt, NotInitialized)
     | (t', Some p) \<Rightarrow>
         (case f p s of
            None \<Rightarrow> ((t', s), dflt, CppException)
          | Some (s', r) \<Rightarrow> ((t', s'), r, NoError)))"

section \<open>The cache agrees with the table\<close>

definition inst_ok :: "Instances \<Rightarrow> bool" where
  "inst_ok t \<longleftrightarrow> length (inst_cache t) = kNitroCacheWays \<and> 1 \<le> next_instance t \<and>
     (\<forall>i \<in> fst ` set (inst_table t). 0 \<le> i \<and> i \<le> next_instance t) \<and>
     (\<forall>sl \<in> set (inst_cache t). sl = empty_slot \<or> sl_ptr sl \<noteq> None \<and> sl_ptr sl = map_of (inst_table t) (sl_id sl))"

lemma way_bound: "way i < kNitroCacheWays"
  by (simp add: way_def kNitroCacheWays_def nat_less_iff)

lemma inst_ok_new: "inst_ok new_instances"
  by (simp add: inst_ok_def new_instances_def)

lemma get_instance_correct:
  assumes "inst_ok t"
  shows "snd (nitro_get_instance i t) = map_of (inst_table t) i" "inst_ok (fst (nitro_get_instance i t))"
    "inst_table (fst (nitro_get_instance i t)) = inst_table t"
proof -
  let ?sl = "inst_cache t ! way i"
  have sl: "?sl \<in> set (inst_cache t)" using assms way_bound [of i] by (simp add: inst_ok_def)
  have neg: "map_of (inst_table t) (- 1) = None" using assms by (force simp: inst_ok_def map_of_eq_None_iff)
  show "snd (nitro_get_instance i t) = map_of (inst_table t) i"
    using assms sl neg by (auto simp: nitro_get_instance_def inst_ok_def empty_slot_def split: option.splits)
  show "inst_ok (fst (nitro_get_instance i t))"
    using assms set_update_subset_insert [of "inst_cache t" "way i"] by (fastforce simp: nitro_get_instance_def inst_ok_def split: option.splits)
  show "inst_table (fst (nitro_get_instance i t)) = inst_table t"
    by (simp add: nitro_get_instance_def split: option.splits)
qed

lemma invalidate_ok: "inst_ok t \<Longrightarrow> (\<forall>i \<in> fst ` set tab. 0 \<le> i \<and> i \<le> next_instance t) \<Longrightarrow> inst_ok (nitro_invalidate_cache (t\<lparr>inst_table := tab\<rparr>))"
  by (auto simp: inst_ok_def nitro_invalidate_cache_def)

lemma register_impl_ok: "inst_ok t \<Longrightarrow> inst_ok (register_impl impl t)"
proof -
  assume t: "inst_ok t"
  have d: "\<forall>i \<in> fst ` set (inst_table t). 0 \<le> i \<and> i \<le> next_instance t" "1 \<le> next_instance t" using t by (auto simp: inst_ok_def)
  have "\<forall>i \<in> fst ` set (AList.update 0 p (inst_table t)). 0 \<le> i \<and> i \<le> next_instance t" for p using d by (auto simp: dom_update)
  moreover have "\<forall>i \<in> fst ` set (AList.delete 0 (inst_table t)). 0 \<le> i \<and> i \<le> next_instance t" using d by (auto simp: AList.delete_eq)
  ultimately show ?thesis using invalidate_ok [OF t] by (simp add: register_impl_def split: option.splits)
qed

lemma create_ok:
  assumes "inst_ok t"
  shows "inst_ok (fst (create_instance made t))"
proof (cases made)
  case (Some q)
  then show ?thesis using assms
  proof (cases q)
    case (Some p)
    have "map_of (inst_table t) (next_instance t + 1) = None" using assms by (force simp: inst_ok_def map_of_eq_None_iff)
    then show ?thesis using assms Some \<open>made = Some q\<close> by (fastforce simp: create_instance_def inst_ok_def Let_def dom_update update_conv)
  qed (simp add: create_instance_def)
qed (use assms in \<open>simp add: create_instance_def\<close>)

lemma destroy_ok: "inst_ok t \<Longrightarrow> inst_ok (fst (destroy_instance i (t, ms)))"
proof -
  assume t: "inst_ok t"
  have "\<forall>j \<in> fst ` set (AList.delete i (inst_table t)). 0 \<le> j \<and> j \<le> next_instance t" using t by (auto simp: inst_ok_def AList.delete_eq)
  then show ?thesis using invalidate_ok [OF t] t by (simp add: destroy_instance_def)
qed

text \<open>After an instance is destroyed no id leads to it, its cache entry included, and no stream has a subscriber of it.\<close>

lemma destroyed_gone:
  assumes "inst_ok t" "i \<noteq> 0" "destroy_instance i (t, ms) = (t', ms')"
  shows "snd (nitro_get_instance i t') = None" "map_of (inst_table t) i = Some p \<Longrightarrow> \<forall>m \<in> set ms'. snapshot (Some p) m = []"
proof -
  have t': "t' = fst (destroy_instance i (t, ms))" using assms(3) by simp
  show "snd (nitro_get_instance i t') = None"
    using get_instance_correct(1) [OF destroy_ok [OF assms(1)], of i i ms] assms(2) t' by (simp add: destroy_instance_def nitro_invalidate_cache_def delete_conv)
  show "map_of (inst_table t) i = Some p \<Longrightarrow> \<forall>m \<in> set ms'. snapshot (Some p) m = []"
    using assms(2, 3) by (auto simp: destroy_instance_def release_instance_streams_def ports_dropInstance_def snapshot_def delete_conv)
qed

section \<open>No emitted block is lost\<close>

text \<open>Every copy made is given to the receiver or freed, exactly once; the item itself is freed exactly once.\<close>

lemma emit_copies_owned:
  "emit_copies alloc dart ps (m, b) = (m', b') \<Longrightarrow>
   \<exists>given freed. blk_given b' = blk_given b @ given \<and> blk_freed b' = blk_freed b @ freed \<and> distinct (given @ freed) \<and>
     set (given @ freed) = {blk_next b ..< blk_next b'} \<and> blk_next b \<le> blk_next b' \<and> length given + length freed \<le> length ps"
proof (induction ps arbitrary: m b)
  case Nil
  then show ?case by simp
next
  case (Cons p ps)
  let ?a = "blk_next b" and ?b1 = "b\<lparr>blk_next := blk_next b + 1\<rparr>"
  consider (none) "\<not> alloc ?a" | (taken) "alloc ?a" "dart (p, CInt64 (int ?a))" | (refused) "alloc ?a" "\<not> dart (p, CInt64 (int ?a))" by blast
  then show ?case
  proof cases
    case none
    then show ?thesis using Cons.prems by simp
  next
    case taken
    then obtain gs fs where o: "blk_given b' = blk_given b @ ?a # gs" "blk_freed b' = blk_freed b @ fs" "distinct (gs @ fs)"
      "set (gs @ fs) = {?a + 1 ..< blk_next b'}" "?a + 1 \<le> blk_next b'" "length gs + length fs \<le> length ps"
      using Cons.IH [of m "?b1\<lparr>blk_given := blk_given ?b1 @ [?a]\<rparr>"] Cons.prems by (auto simp: Let_def)
    have "?a \<notin> set (gs @ fs)" unfolding o(4) by simp
    then show ?thesis using o by - (rule exI [of _ "?a # gs"], rule exI [of _ fs], auto)
  next
    case refused
    then obtain gs fs where o: "blk_given b' = blk_given b @ gs" "blk_freed b' = blk_freed b @ ?a # fs" "distinct (gs @ fs)"
      "set (gs @ fs) = {?a + 1 ..< blk_next b'}" "?a + 1 \<le> blk_next b'" "length gs + length fs \<le> length ps"
      using Cons.IH [of "ports_remove p m" "free_block ?a ?b1"] Cons.prems by (auto simp: Let_def free_block_def)
    have "?a \<notin> set (gs @ fs)" unfolding o(4) by simp
    then show ?thesis using o by - (rule exI [of _ gs], rule exI [of _ "?a # fs"], auto)
  qed
qed

lemma emit_record_frees:
  "emit_record alloc dart inst (Some a) (m, b) = (m', b') \<Longrightarrow> a < blk_next b \<Longrightarrow> a \<notin> set (blk_freed b) \<Longrightarrow> count_list (blk_freed b') a = 1"
  using emit_copies_owned [of alloc dart "snapshot inst m" m b]
  by (fastforce simp: emit_record_def Let_def free_block_def count_list_0_iff split: if_splits prod.splits)

section \<open>Readers that race\<close>

text \<open>
  The cache is read in two steps without the mutex, the id and then the pointer; it is written pointer first, then id.
  A reader of one id whose steps enclose the writer's first step gets the pointer of another instance of the same way.
\<close>

definition read_slot_id :: "int \<Rightarrow> Instances \<Rightarrow> bool" where
  "read_slot_id i t \<longleftrightarrow> sl_id (inst_cache t ! way i) = i"

definition read_slot_ptr :: "int \<Rightarrow> Instances \<Rightarrow> nat option" where
  "read_slot_ptr i t = sl_ptr (inst_cache t ! way i)"

definition write_slot_ptr :: "int \<Rightarrow> nat \<Rightarrow> Instances \<Rightarrow> Instances" where
  "write_slot_ptr i p t = t\<lparr>inst_cache := (inst_cache t)[way i := (inst_cache t ! way i)\<lparr>sl_ptr := Some p\<rparr>]\<rparr>"

definition two_instances :: Instances where
  "two_instances = fst (nitro_get_instance 2 (new_instances\<lparr>inst_table := [(2, 20), (10, 100)], next_instance := 10\<rparr>))"

lemma cache_race:
  "inst_ok two_instances" "read_slot_id 2 two_instances"
  "map_of (inst_table two_instances) 10 = Some 100" "read_slot_ptr 2 (write_slot_ptr 10 100 two_instances) = Some 100"
  "map_of (inst_table two_instances) 2 = Some 20"
  by (simp_all add: two_instances_def nitro_get_instance_def new_instances_def inst_ok_def way_def kNitroCacheWays_def empty_slot_def
      read_slot_id_def read_slot_ptr_def write_slot_ptr_def eval_nat_numeral)

end
