(* ===== verification/Background.thy ===== *)
theory Background
  imports DartObject "HOL-Library.AList" "HOL-Library.Multiset"
begin

text \<open>
  The table of background jobs (\<open>nitro_background.h\<close>). A job waits, is taken by a runner and is finished by a result, an end of
  stream, a failure or a cancellation; what it posts goes to the submitter's port. A call holds the mutex only while it
  reads or changes the table; what it does after that, posting and telling the host, is its remaining work, which other
  calls can overtake. A null C string is \<open>None\<close>.
\<close>

section \<open>The table\<close>

record BgJob =
  bj_id :: int
  bj_entry :: string
  bj_args :: bytes
  bj_port :: int

record BgTable =
  bg_next :: int
  bg_pending :: "BgJob list"
  bg_inflight :: "(int \<times> BgJob) list"
  bg_starter :: bool
  bg_done :: bool

definition new_bg :: BgTable where
  "new_bg = \<lparr>bg_next = 1, bg_pending = [], bg_inflight = [], bg_starter = False, bg_done = False\<rparr>"

definition registerHost :: "bool \<Rightarrow> bool \<Rightarrow> BgTable \<Rightarrow> BgTable" where
  "registerHost starter done t = t\<lparr>bg_starter := starter, bg_done := done\<rparr>"

definition hasHost :: "BgTable \<Rightarrow> bool" where
  "hasHost t = bg_starter t"

definition activeCount :: "BgTable \<Rightarrow> int" where
  "activeCount t = int (length (bg_pending t) + length (bg_inflight t))"

text \<open>Work a call does without the mutex: starting an engine, posting, telling the host. A post names the job it is for and
  whether it is the last one the code makes for it; the receiver sees only the port and the object.\<close>

datatype bg_work =
    Start "string option" int
  | Post int bool int CObj
  | Done int "string option"

text \<open>The locked part of \<open>submit\<close>: the new job is the youngest one waiting.\<close>

definition submit_job :: "string option \<Rightarrow> bytes option \<Rightarrow> int \<Rightarrow> BgTable \<Rightarrow> BgTable \<times> int \<times> bg_work list" where
  "submit_job entry args dartPort t =
     (let i = bg_next t
      in (t\<lparr>bg_next := i + 1, bg_pending := bg_pending t @
            [\<lparr>bj_id = i, bj_entry = string_or_empty entry, bj_args = (case args of None \<Rightarrow> [] | Some a \<Rightarrow> a), bj_port = dartPort\<rparr>]\<rparr>,
          i, if bg_starter t then [Start entry i] else []))"

definition wanted :: "string option \<Rightarrow> int \<Rightarrow> BgJob \<Rightarrow> bool" where
  "wanted entry i j \<longleftrightarrow> bj_entry j = string_or_empty entry \<and> (i = 0 \<or> bj_id j = i)"

fun remove_first :: "('a \<Rightarrow> bool) \<Rightarrow> 'a list \<Rightarrow> 'a list" where
  "remove_first f [] = []"
| "remove_first f (x # xs) = (if f x then xs else x # remove_first f xs)"

definition take_bg :: "string option \<Rightarrow> int \<Rightarrow> BgTable \<Rightarrow> BgTable \<times> (int \<times> bytes) option" where
  "take_bg entry i t = (case find (wanted entry i) (bg_pending t) of
       None \<Rightarrow> (t, None)
     | Some j \<Rightarrow> (t\<lparr>bg_inflight := AList.update (bj_id j) j (bg_inflight t), bg_pending := remove_first (wanted entry i) (bg_pending t)\<rparr>,
                 Some (bj_id j, bj_args j)))"

definition pop_bg :: "int \<Rightarrow> BgTable \<Rightarrow> (BgTable \<times> BgJob) option" where
  "pop_bg i t = (case map_of (bg_inflight t) i of
       Some j \<Rightarrow> Some (t\<lparr>bg_inflight := AList.delete i (bg_inflight t)\<rparr>, j)
     | None \<Rightarrow> (case find (\<lambda>j. bj_id j = i) (bg_pending t) of
         None \<Rightarrow> None
       | Some j \<Rightarrow> Some (t\<lparr>bg_pending := remove_first (\<lambda>j. bj_id j = i) (bg_pending t)\<rparr>, j)))"

section \<open>Finishing a job\<close>

definition postBlob :: "int \<Rightarrow> bool \<Rightarrow> int \<Rightarrow> bytes option \<Rightarrow> bg_work list" where
  "postBlob i final port data =
     (if port = 0 then [] else let d = (case data of None \<Rightarrow> [] | Some d \<Rightarrow> d) in [Post i final port (CTypedData TUint8 (length d) d)])"

text \<open>How a job is finished, and the work that remains once it has left the table.\<close>

datatype bg_finish =
    Complete "bytes option"
  | End
  | Cancel
  | Fail "string option" "string option"

definition fail_text :: "string option \<Rightarrow> string" where
  "fail_text error = (case error of None \<Rightarrow> ''background job failed'' | Some e \<Rightarrow> e)"

definition finish_work :: "bg_finish \<Rightarrow> int \<Rightarrow> BgJob \<Rightarrow> bg_work list" where
  "finish_work f i j = (case f of
       Complete result \<Rightarrow> postBlob i True (bj_port j) result @ [Done i None]
     | End \<Rightarrow> (if bj_port j \<noteq> 0 then [Post i True (bj_port j) CNull] else []) @ [Done i None]
     | Cancel \<Rightarrow> [Done i None]
     | Fail error stackTrace \<Rightarrow>
         (if bj_port j = 0 then []
          else [Post i True (bj_port j) (CArray [CString (Some (fail_text error)), CString (Some (string_or_empty stackTrace)), CString (Some (bj_entry j))])])
         @ [Done i (Some (fail_text error))])"

definition finish_job :: "bg_finish \<Rightarrow> int \<Rightarrow> BgTable \<Rightarrow> (BgTable \<times> bg_work list) option" where
  "finish_job f i t = (case pop_bg i t of None \<Rightarrow> None | Some (t', j) \<Rightarrow> Some (t', finish_work f i j))"

text \<open>The locked part of \<open>emit\<close>: only a job that was taken can post an item.\<close>

definition emit_item :: "int \<Rightarrow> bytes option \<Rightarrow> BgTable \<Rightarrow> bg_work list option" where
  "emit_item i data t = map_option (\<lambda>j. postBlob i False (bj_port j) data) (map_of (bg_inflight t) i)"

section \<open>Calls that interleave\<close>

text \<open>The calls that have work left, what the outside has seen (engines asked for, messages posted, notifications of the host), and
  the notifications there was no host for.\<close>

record BgSys =
  sys_table :: BgTable
  sys_calls :: "bg_work list list"
  sys_seen :: "bg_work list"
  sys_skipped :: "bg_work list"

text \<open>One piece of remaining work: \<open>notifyDone\<close> reads the callback when it runs.\<close>

definition perform :: "bg_work \<Rightarrow> BgSys \<Rightarrow> BgSys" where
  "perform w s = (case w of
       Done i e \<Rightarrow> if bg_done (sys_table s) then s\<lparr>sys_seen := sys_seen s @ [w]\<rparr> else s\<lparr>sys_skipped := sys_skipped s @ [w]\<rparr>
     | _ \<Rightarrow> s\<lparr>sys_seen := sys_seen s @ [w]\<rparr>)"

definition call_rest :: "bg_work list \<Rightarrow> BgTable \<Rightarrow> BgSys \<Rightarrow> BgSys" where
  "call_rest ws t s = s\<lparr>sys_table := t, sys_calls := sys_calls s @ [ws]\<rparr>"

text \<open>
  \<open>runNative\<close> on its own, with \<open>started\<close> what the starter returned: the job is cancelled when no engine took it up.
  A call run without interruption performs its work at once.
\<close>

definition runNative :: "bool \<Rightarrow> string option \<Rightarrow> bytes option \<Rightarrow> BgSys \<Rightarrow> BgSys \<times> int" where
  "runNative started entry args s =
     (if \<not> hasHost (sys_table s) then (s, -1)
      else case submit_job entry args 0 (sys_table s) of (t, i, ws) \<Rightarrow>
        let s1 = fold perform ws (s\<lparr>sys_table := t\<rparr>)
        in if started then (s1, i)
           else (case finish_job Cancel i (sys_table s1) of
                   None \<Rightarrow> (s1, -1)
                 | Some (t', ws') \<Rightarrow> (fold perform ws' (s1\<lparr>sys_table := t'\<rparr>), -1)))"

inductive bg_step :: "BgSys \<Rightarrow> BgSys \<Rightarrow> bool" where
  bg_register: "bg_step s (s\<lparr>sys_table := registerHost a b (sys_table s)\<rparr>)"
| bg_submit: "submit_job entry args port (sys_table s) = (t, i, ws) \<Longrightarrow> bg_step s (call_rest ws t s)"
| bg_take: "take_bg entry i (sys_table s) = (t, r) \<Longrightarrow> bg_step s (s\<lparr>sys_table := t\<rparr>)"
| bg_finish: "finish_job f i (sys_table s) = Some (t, ws) \<Longrightarrow> bg_step s (call_rest ws t s)"
| bg_emit: "emit_item i data (sys_table s) = Some ws \<Longrightarrow> bg_step s (call_rest ws (sys_table s) s)"
| bg_work: "k < length (sys_calls s) \<Longrightarrow> sys_calls s ! k = w # ws \<Longrightarrow> bg_step s (perform w (s\<lparr>sys_calls := (sys_calls s)[k := ws]\<rparr>))"

definition bg_start :: BgSys where
  "bg_start = \<lparr>sys_table = new_bg, sys_calls = [], sys_seen = [], sys_skipped = []\<rparr>"

definition bg_reach :: "BgSys \<Rightarrow> bool" where
  "bg_reach s \<longleftrightarrow> bg_step\<^sup>*\<^sup>* bg_start s"

section \<open>A job is finished once\<close>

text \<open>The ids in the table, and the work for a job, done or still to do.\<close>

definition active_ids :: "BgTable \<Rightarrow> int list" where
  "active_ids t = map bj_id (bg_pending t) @ map fst (bg_inflight t)"

fun is_last :: "int \<Rightarrow> bg_work \<Rightarrow> bool" where
  "is_last i (Post j final p x) \<longleftrightarrow> final \<and> j = i"
| "is_last i w \<longleftrightarrow> False"

fun is_done :: "int \<Rightarrow> bg_work \<Rightarrow> bool" where
  "is_done i (Done j e) \<longleftrightarrow> j = i"
| "is_done i w \<longleftrightarrow> False"

definition all_work :: "BgSys \<Rightarrow> bg_work multiset" where
  "all_work s = mset (sys_seen s) + mset (sys_skipped s) + mset (concat (sys_calls s))"

definition tally :: "(bg_work \<Rightarrow> bool) \<Rightarrow> BgSys \<Rightarrow> nat" where
  "tally f s = size (filter_mset f (all_work s))"

definition keyed :: "BgTable \<Rightarrow> bool" where
  "keyed t \<longleftrightarrow> (\<forall>(k, j) \<in> set (bg_inflight t). bj_id j = k)"

definition bg_inv :: "BgSys \<Rightarrow> bool" where
  "bg_inv s \<longleftrightarrow> 0 < bg_next (sys_table s) \<and> keyed (sys_table s) \<and>
     (\<forall>i. count (mset (active_ids (sys_table s))) i + tally (is_done i) s = (if 0 < i \<and> i < bg_next (sys_table s) then 1 else 0)) \<and>
     (\<forall>i. tally (is_last i) s \<le> tally (is_done i) s)"

text \<open>Doing remaining work neither adds nor loses any; a call that starts adds its own.\<close>

lemma perform_work [simp]: "sys_table (perform w s) = sys_table s" "all_work (perform w s) = add_mset w (all_work s)"
  by (simp_all add: perform_def all_work_def split: bg_work.splits)

lemma step_work:
  assumes "k < length (sys_calls s)" "sys_calls s ! k = w # ws"
  shows "all_work (perform w (s\<lparr>sys_calls := (sys_calls s)[k := ws]\<rparr>)) = all_work s"
proof -
  have "mset (concat (sys_calls s)) = add_mset w (mset (concat ((sys_calls s)[k := ws])))"
    using assms id_take_nth_drop [OF assms(1)] upd_conv_take_nth_drop [OF assms(1), of ws]
    by (metis (no_types, lifting) append_Cons concat.simps(2) concat_append mset.simps(2) mset_append union_mset_add_mset_left union_mset_add_mset_right)
  then show ?thesis unfolding perform_work(2) by (simp add: all_work_def)
qed

lemma call_work [simp]: "sys_table (call_rest ws t s) = t" "all_work (call_rest ws t s) = all_work s + mset ws"
  by (simp_all add: call_rest_def all_work_def)

lemma remove_first_mset: "find f xs = Some x \<Longrightarrow> mset xs = add_mset x (mset (remove_first f xs))"
  by (induction xs) (auto split: if_splits)

lemma find_in: "find f xs = Some x \<Longrightarrow> f x \<and> x \<in> set xs"
  by (induction xs) (auto split: if_splits)

lemma update_new: "k \<notin> fst ` set xs \<Longrightarrow> AList.update k v xs = xs @ [(k, v)]"
  by (induction xs) auto

lemma delete_mset: "distinct (map fst xs) \<Longrightarrow> map_of xs k = Some v \<Longrightarrow> mset (map fst xs) = add_mset k (mset (map fst (AList.delete k xs)))"
proof (induction xs)
  case (Cons x xs)
  show ?case
  proof (cases "fst x = k")
    case True
    then have "\<forall>y \<in> set xs. fst y \<noteq> k" using Cons.prems(1) by (simp add: image_iff) metis
    then have "AList.delete k xs = xs" by (auto simp: AList.delete_eq filter_id_conv)
    then show ?thesis using True by (cases x) simp
  next
    case False
    then have "mset (map fst xs) = add_mset k (mset (map fst (AList.delete k xs)))" using Cons by (cases x) auto
    then show ?thesis using False by (simp add: AList.delete_eq split_beta)
  qed
qed simp

lemma inv_distinct: "bg_inv s \<Longrightarrow> distinct (active_ids (sys_table s))"
proof -
  assume inv: "bg_inv s"
  have "count (mset (active_ids (sys_table s))) i \<le> 1" for i
    using inv unfolding bg_inv_def by (metis add_leD1 le_numeral_extra(4) zero_le_one)
  then show ?thesis unfolding distinct_count_atmost_1 by (metis One_nat_def Suc_leI count_greater_zero_iff count_mset_0_iff le_antisym set_mset_mset)
qed

text \<open>Taking a job keeps the ids; finishing one takes its id out.\<close>

lemma take_keeps:
  assumes "distinct (active_ids t)" "keyed t" "take_bg entry i t = (t', r)"
  shows "mset (active_ids t') = mset (active_ids t)" "keyed t'" "bg_next t' = bg_next t"
proof -
  have "mset (active_ids t') = mset (active_ids t) \<and> keyed t' \<and> bg_next t' = bg_next t"
  proof (cases "find (wanted entry i) (bg_pending t)")
    case (Some j)
    have "bj_id j \<notin> fst ` set (bg_inflight t)" using find_in [OF Some] assms(1) by (force simp: active_ids_def)
    then have "t' = t\<lparr>bg_inflight := bg_inflight t @ [(bj_id j, j)], bg_pending := remove_first (wanted entry i) (bg_pending t)\<rparr>"
      using assms(3) Some by (auto simp: take_bg_def update_new)
    then show ?thesis using remove_first_mset [OF Some] assms(2) by (auto simp: active_ids_def keyed_def)
  qed (use assms in \<open>simp add: take_bg_def\<close>)
  then show "mset (active_ids t') = mset (active_ids t)" "keyed t'" "bg_next t' = bg_next t" by auto
qed

lemma pop_removes:
  assumes "distinct (active_ids t)" "keyed t" "pop_bg i t = Some (t', j)"
  shows "mset (active_ids t) = add_mset i (mset (active_ids t'))" "keyed t'" "bg_next t' = bg_next t" "bj_id j = i"
proof -
  have "mset (active_ids t) = add_mset i (mset (active_ids t')) \<and> keyed t' \<and> bg_next t' = bg_next t \<and> bj_id j = i"
  proof (cases "map_of (bg_inflight t) i")
    case None
    then obtain j' where f: "find (\<lambda>j. bj_id j = i) (bg_pending t) = Some j'" using assms(3) by (auto simp: pop_bg_def split: option.splits)
    show ?thesis using f None assms remove_first_mset [OF f] find_in [OF f] by (auto simp: pop_bg_def active_ids_def keyed_def)
  next
    case (Some j')
    have d: "distinct (map fst (bg_inflight t))" using assms(1) by (simp add: active_ids_def)
    have "bj_id j' = i" using map_of_SomeD [OF Some] assms(2) by (auto simp: keyed_def)
    then show ?thesis using assms Some delete_mset [OF d Some] by (auto simp: pop_bg_def active_ids_def keyed_def AList.delete_eq)
  qed
  then show "mset (active_ids t) = add_mset i (mset (active_ids t'))" "keyed t'" "bg_next t' = bg_next t" "bj_id j = i" by auto
qed

text \<open>The work of a finished job: exactly one notification, at most one last message, both for it.\<close>

lemma finish_work_counts:
  "length (filter (is_done k) (finish_work f i j)) = (if k = i then 1 else 0)"
  "length (filter (is_last k) (finish_work f i j)) \<le> (if k = i then 1 else 0)"
  by (auto simp: finish_work_def postBlob_def Let_def split: bg_finish.splits)

lemma other_work_counts:
  "filter (is_done k) (postBlob i False p d) = []" "filter (is_last k) (postBlob i False p d) = []"
  by (simp_all add: postBlob_def Let_def)

lemma bg_step_inv: "bg_step s s' \<Longrightarrow> bg_inv s \<Longrightarrow> bg_inv s'"
proof (induction rule: bg_step.induct)
  case (bg_register s a b)
  then show ?case by (simp add: bg_inv_def registerHost_def active_ids_def keyed_def tally_def all_work_def)
next
  case (bg_submit entry args port s t i ws)
  have t: "bg_next t = i + 1" "active_ids t = map bj_id (bg_pending (sys_table s)) @ i # map fst (bg_inflight (sys_table s))" "keyed t" "i = bg_next (sys_table s)"
    using bg_submit by (auto simp: submit_job_def Let_def active_ids_def keyed_def bg_inv_def)
  have c: "tally (is_done k) (call_rest ws t s) = tally (is_done k) s" "tally (is_last k) (call_rest ws t s) = tally (is_last k) s" for k
    using bg_submit(1) by (auto simp: submit_job_def Let_def tally_def)
  have m: "count (mset (active_ids t)) k = count (mset (active_ids (sys_table s))) k + (if k = i then 1 else 0)" for k
    unfolding t(2) by (simp add: active_ids_def)
  have "count (mset (active_ids t)) k + tally (is_done k) s = (if 0 < k \<and> k < i + 1 then 1 else 0)" for k
    using bg_submit(2) unfolding m bg_inv_def t(4) [symmetric] by (cases "k = i") (auto dest!: spec [of _ k])
  then show ?case using bg_submit(2) t c by (auto simp: bg_inv_def)
next
  case (bg_take entry i s t r)
  then show ?case using take_keeps [OF inv_distinct [OF bg_take(2)] _ bg_take(1)] by (simp add: bg_inv_def tally_def all_work_def)
next
  case (bg_finish f i s t ws)
  then obtain j where p: "pop_bg i (sys_table s) = Some (t, j)" and ws: "ws = finish_work f i j"
    by (auto simp: finish_job_def split: option.splits)
  have kd: "keyed (sys_table s)" using bg_finish by (simp add: bg_inv_def)
  note q = pop_removes [OF inv_distinct [OF bg_finish(2)] kd p]
  have c: "tally (is_done k) (call_rest ws t s) = tally (is_done k) s + (if k = i then 1 else 0)"
    "tally (is_last k) (call_rest ws t s) \<le> tally (is_last k) s + (if k = i then 1 else 0)" for k
    using finish_work_counts [where f = f and i = i and j = j and k = k] unfolding ws by (simp_all add: tally_def flip: mset_filter)
  have "tally (is_last k) (call_rest ws t s) \<le> tally (is_done k) (call_rest ws t s)" for k
    using c [of k] bg_finish(2) by (auto simp: bg_inv_def intro: order_trans)
  then show ?case using bg_finish(2) q c(1) unfolding bg_inv_def by (auto split: if_splits)
next
  case (bg_emit i data s ws)
  then obtain p where ws: "ws = postBlob i False p data" by (auto simp: emit_item_def)
  have "tally (is_done k) (call_rest ws t s) = tally (is_done k) s" "tally (is_last k) (call_rest ws t s) = tally (is_last k) s" for k t
    using other_work_counts unfolding ws by (simp_all add: tally_def flip: mset_filter)
  then show ?case using bg_emit(2) by (simp add: bg_inv_def)
next
  case (bg_work k s w ws)
  then show ?case using step_work [OF bg_work(1, 2)] by (simp add: bg_inv_def tally_def)
qed

lemma bg_reach_inv: "bg_reach s \<Longrightarrow> bg_inv s"
proof -
  have "bg_inv bg_start" by (simp add: bg_start_def bg_inv_def new_bg_def active_ids_def keyed_def tally_def all_work_def)
  moreover assume "bg_reach s"
  ultimately show ?thesis unfolding bg_reach_def by (metis (no_types, lifting) bg_step_inv rtranclp_induct)
qed

text \<open>
  C35: a background job is finished exactly once. Whatever the calls and however they interleave, an id that was given out is either
  active, once, waiting or taken, or it has left the table and the host is told exactly once (it has been, it is about to be, or
  there was no host to tell); the submitter gets at most one last message (result, end or failure), and none while the job is active.
\<close>

theorem bg_finished_once:
  assumes "bg_reach s" "0 < i" "i < bg_next (sys_table s)"
  shows "distinct (active_ids (sys_table s)) \<and>
    (if i \<in> set (active_ids (sys_table s)) then tally (is_done i) s = 0 \<and> tally (is_last i) s = 0
     else tally (is_done i) s = 1 \<and> tally (is_last i) s \<le> 1)"
proof -
  have inv: "bg_inv s" using bg_reach_inv [OF assms(1)] .
  have n: "count (mset (active_ids (sys_table s))) i + tally (is_done i) s = 1" "tally (is_last i) s \<le> tally (is_done i) s"
    using inv assms(2, 3) by (auto simp: bg_inv_def)
  have c: "count (mset (active_ids (sys_table s))) i = (if i \<in> set (active_ids (sys_table s)) then 1 else 0)"
    using inv_distinct [OF inv] unfolding distinct_count_atmost_1 by blast
  show ?thesis using n c inv_distinct [OF inv] by (auto split: if_splits)
qed

text \<open>A job submitted to port 9, taken, about to post an item while another call ends the stream.\<close>

definition bg_sample :: "nat \<Rightarrow> BgSys" where
  "bg_sample n =
     (let s1 = (case submit_job (Some ''e'') None 9 new_bg of (t, i, ws) \<Rightarrow> call_rest ws t bg_start);
          s2 = s1\<lparr>sys_table := fst (take_bg (Some ''e'') 1 (sys_table s1))\<rparr>;
          s3 = call_rest (the (emit_item 1 (Some [7]) (sys_table s2))) (sys_table s2) s2;
          s4 = (case the (finish_job End 1 (sys_table s3)) of (t, ws) \<Rightarrow> call_rest ws t s3);
          s5 = perform (Post 1 True 9 CNull) (s4\<lparr>sys_calls := (sys_calls s4)[2 := [Done 1 None]]\<rparr>);
          s6 = perform (Post 1 False 9 (CTypedData TUint8 1 [7])) (s5\<lparr>sys_calls := (sys_calls s5)[1 := []]\<rparr>)
      in [bg_start, s1, s2, s3, s4, s5, s6] ! n)"

lemma bg_sample_states:
  "sys_table (bg_sample 1) = \<lparr>bg_next = 2, bg_pending = [\<lparr>bj_id = 1, bj_entry = ''e'', bj_args = [], bj_port = 9\<rparr>], bg_inflight = [], bg_starter = False, bg_done = False\<rparr>"
  "sys_table (bg_sample 2) = \<lparr>bg_next = 2, bg_pending = [], bg_inflight = [(1, \<lparr>bj_id = 1, bj_entry = ''e'', bj_args = [], bj_port = 9\<rparr>)], bg_starter = False, bg_done = False\<rparr>"
  "bg_sample 4 = \<lparr>sys_table = \<lparr>bg_next = 2, bg_pending = [], bg_inflight = [], bg_starter = False, bg_done = False\<rparr>,
     sys_calls = [[], [Post 1 False 9 (CTypedData TUint8 1 [7])], [Post 1 True 9 CNull, Done 1 None]], sys_seen = [], sys_skipped = []\<rparr>"
  "sys_seen (bg_sample 6) = [Post 1 True 9 CNull, Post 1 False 9 (CTypedData TUint8 1 [7])]"
  "sys_table (bg_sample 6) = \<lparr>bg_next = 2, bg_pending = [], bg_inflight = [], bg_starter = False, bg_done = False\<rparr>"
  "sys_calls (bg_sample 5) = [[], [Post 1 False 9 (CTypedData TUint8 1 [7])], [Done 1 None]]"
  "sys_calls (bg_sample 6) = [[], [], [Done 1 None]]" "sys_skipped (bg_sample 6) = []"
  by code_simp+

lemma bg_sample_reach: "bg_reach (bg_sample 6)"
proof -
  have "bg_step (bg_sample 0) (bg_sample 1)" unfolding bg_sample_def Let_def
    using bg_submit [of "Some ''e''" None 9 bg_start] by (simp add: bg_start_def split: prod.splits)
  moreover have "bg_step (bg_sample 1) (bg_sample 2)"
    using bg_take [of "Some ''e''" 1 "bg_sample 1"] unfolding bg_sample_def Let_def by (simp add: prod_eq_iff)
  moreover have "bg_step (bg_sample 2) (bg_sample 3)"
    using bg_emit [of 1 "Some [7]" "bg_sample 2"] bg_sample_states(2) unfolding bg_sample_def Let_def by (simp add: emit_item_def)
  moreover have "bg_step (bg_sample 3) (bg_sample 4)"
    using bg_finish [of End 1 "bg_sample 3"] bg_sample_states(2) unfolding bg_sample_def Let_def
    by (simp add: finish_job_def pop_bg_def)
  moreover have "bg_step (bg_sample 4) (bg_sample 5)"
    using bg_work [of 2 "bg_sample 4" "Post 1 True 9 CNull" "[Done 1 None]"] bg_sample_states(3) unfolding bg_sample_def Let_def by simp
  moreover have "bg_step (bg_sample 5) (bg_sample 6)"
    using bg_work [of 1 "bg_sample 5" "Post 1 False 9 (CTypedData TUint8 1 [7])" "[]"] bg_sample_states(6) unfolding bg_sample_def Let_def by simp
  moreover have "bg_sample 0 = bg_start" by (simp add: bg_sample_def)
  ultimately show ?thesis unfolding bg_reach_def by (metis rtranclp.rtrancl_into_rtrancl rtranclp.rtrancl_refl)
qed

theorem bg_finished_once_witness:
  "bg_reach (bg_sample 6) \<and> 1 < bg_next (sys_table (bg_sample 6)) \<and> tally (is_done 1) (bg_sample 6) = 1 \<and> tally (is_last 1) (bg_sample 6) \<le> 1"
  using bg_finished_once [OF bg_sample_reach, of 1] bg_sample_reach bg_sample_states(5) by (simp add: active_ids_def)

text \<open>The same run shows that a stream's item can be posted after its end: \<open>emit\<close> posts after it has released the mutex.\<close>

lemma item_after_end:
  "bg_reach (bg_sample 6)" "sys_seen (bg_sample 6) = [Post 1 True 9 CNull, Post 1 False 9 (CTypedData TUint8 1 [7])]"
  using bg_sample_reach bg_sample_states(4) by simp_all

end
