(* ===== verification/WebPost.thy ===== *)
theory WebPost
  imports DartObject
begin

text \<open>
  \<open>Dart_PostCObject_DL\<close> of a web build (\<open>nitro_wasm_compat.h\<close>), which calls one JavaScript function with a tag and plain
  numbers. On the main thread the payload is borrowed for the call; a worker copies it and the main thread delivers the copy. An
  element of an array is read as the member of the union the code expects; \<open>bits\<close> is what reading the integer member of an
  object of another kind gives. Following a pointer that is none is \<open>Fault\<close>.
\<close>

datatype payload =
    WNull
  | WInt int
  | WDouble u64
  | WString "string option"
  | WInts "int list"
  | WStrings "string option list"
  | WBytes bytes

datatype web_result = Delivered int nat payload | NotPosted | Fault

record web_env =
  w_postFn :: bool
  w_offMain :: bool
  w_malloc :: "nat \<Rightarrow> bool"
  w_bits :: "CObj \<Rightarrow> int"

text \<open>\<open>_nitro_post_from_worker\<close>: the packet, allocated as the last block, carries the copy to the main thread.\<close>

definition post_from_worker :: "web_env \<Rightarrow> nat \<Rightarrow> int \<Rightarrow> nat \<Rightarrow> payload \<Rightarrow> web_result" where
  "post_from_worker env k port tag p = (if w_malloc env k then Delivered port tag p else NotPosted)"

definition post_plain :: "web_env \<Rightarrow> int \<Rightarrow> nat \<Rightarrow> payload \<Rightarrow> web_result" where
  "post_plain env port tag p = (if w_offMain env then post_from_worker env 0 port tag p else Delivered port tag p)"

definition is_string :: "CObj \<Rightarrow> bool" where
  "is_string x \<longleftrightarrow> (case x of CString _ \<Rightarrow> True | _ \<Rightarrow> False)"

definition as_int64 :: "web_env \<Rightarrow> CObj \<Rightarrow> int" where
  "as_int64 env x = (case x of CInt64 i \<Rightarrow> i | _ \<Rightarrow> w_bits env x)"

fun as_strings :: "CObj list \<Rightarrow> string option list option" where
  "as_strings [] = Some []"
| "as_strings (CString s # xs) = map_option (Cons s) (as_strings xs)"
| "as_strings (x # xs) = None"

text \<open>The bytes of a string array as one block: the pointers, then the strings. A null string is followed by \<open>strlen\<close>.\<close>

definition post_strings :: "web_env \<Rightarrow> int \<Rightarrow> CObj list \<Rightarrow> web_result" where
  "post_strings env port xs =
     (if \<not> w_malloc env 0 then NotPosted
      else case as_strings xs of
        None \<Rightarrow> Fault
      | Some ss \<Rightarrow>
          if \<not> w_offMain env then Delivered port 5 (WStrings ss)
          else if None \<in> set ss then Fault
          else if \<not> w_malloc env 1 then NotPosted
          else post_from_worker env 2 port 5 (WStrings ss))"

definition post_ints :: "web_env \<Rightarrow> int \<Rightarrow> CObj list \<Rightarrow> web_result" where
  "post_ints env port xs =
     (if \<not> w_malloc env 0 \<and> xs \<noteq> [] then NotPosted
      else let p = WInts (map (as_int64 env) xs)
           in if w_offMain env then post_from_worker env 1 port 4 p else Delivered port 4 p)"

definition post_bytes :: "web_env \<Rightarrow> int \<Rightarrow> TypedType \<Rightarrow> nat \<Rightarrow> bytes \<Rightarrow> web_result" where
  "post_bytes env port t n d =
     (let p = WBytes (take (n * elemSize t) d)
      in if w_offMain env then (if w_malloc env 0 then post_from_worker env 1 port 6 p else NotPosted) else Delivered port 6 p)"

definition web_post :: "web_env \<Rightarrow> int \<Rightarrow> CObj \<Rightarrow> web_result" where
  "web_post env port x =
     (if \<not> w_postFn env then NotPosted
      else case x of
        CNull \<Rightarrow> post_plain env port 0 WNull
      | CBool b \<Rightarrow> post_plain env port 1 (WInt (if b then 1 else 0))
      | CInt32 i \<Rightarrow> post_plain env port 1 (WInt i)
      | CInt64 i \<Rightarrow> post_plain env port 1 (WInt i)
      | CDouble d \<Rightarrow> post_plain env port 2 (WDouble d)
      | CString s \<Rightarrow>
          if \<not> w_offMain env then Delivered port 3 (WString s)
          else if s = None then Fault
          else if w_malloc env 0 then post_from_worker env 1 port 3 (WString s) else NotPosted
      | CArray xs \<Rightarrow> if xs \<noteq> [] \<and> is_string (hd xs) then post_strings env port xs else post_ints env port xs
      | CTypedData t n d \<Rightarrow> post_bytes env port t n d
      | CExternal t n d peer \<Rightarrow> NotPosted
      | COther n \<Rightarrow> NotPosted)"

text \<open>A worker's message arrives as the main thread's would, unless memory runs out or a string is a null pointer.\<close>

fun no_null :: "CObj \<Rightarrow> bool" where
  "no_null (CString s) \<longleftrightarrow> s \<noteq> None"
| "no_null (CArray xs) \<longleftrightarrow> list_all (\<lambda>x. x \<noteq> CString None) xs"
| "no_null x \<longleftrightarrow> True"

lemma as_strings_no_null: "as_strings xs = Some ss \<Longrightarrow> list_all (\<lambda>x. x \<noteq> CString None) xs \<Longrightarrow> None \<notin> set ss"
  by (induction xs arbitrary: ss rule: as_strings.induct) auto

lemma worker_like_main:
  assumes "no_null x" "\<forall>k. w_malloc env k"
  shows "web_post (env\<lparr>w_offMain := True\<rparr>) port x = web_post (env\<lparr>w_offMain := False\<rparr>) port x"
proof (cases x)
  case (CArray xs)
  have "as_int64 (env\<lparr>w_offMain := a\<rparr>) = as_int64 env" for a by (simp add: as_int64_def fun_eq_iff split: CObj.splits)
  then show ?thesis using CArray assms as_strings_no_null [of xs]
    by (auto simp: web_post_def post_strings_def post_ints_def post_from_worker_def Let_def split: option.splits)
qed (use assms in \<open>auto simp: web_post_def post_plain_def post_from_worker_def post_bytes_def Let_def\<close>)

text \<open>
  Arrays of integers arrive whole. A batch of completions, though, alternates an id and a value of any kind: whatever the
  reader of the union makes of a double or a string is what arrives.
\<close>

lemma ints_arrive: "w_postFn env \<Longrightarrow> \<not> w_offMain env \<Longrightarrow> w_malloc env 0 \<Longrightarrow> web_post env port (CArray (map CInt64 is)) = Delivered port 4 (WInts is)"
  by (cases "is") (simp_all add: web_post_def post_ints_def is_string_def as_int64_def Let_def comp_def)

lemma batch_value_misread:
  "w_postFn env \<Longrightarrow> \<not> w_offMain env \<Longrightarrow> w_malloc env 0 \<Longrightarrow>
   web_post env port (CArray [CInt64 i, CDouble d]) = Delivered port 4 (WInts [i, w_bits env (CDouble d)])"
  by (simp add: web_post_def post_ints_def is_string_def as_int64_def Let_def)

end
