(* ===== verification/Codecs.thy ===== *)
theory Codecs
  imports Prelude
begin

text \<open>
  Two loops around library functions, which are arguments here: the output buffer \<open>Brotli.cpp\<close> grows until the
  decompressor is content, and the precision \<open>Dtoa.h\<close> raises until a printed double reads back.
\<close>

section \<open>Brotli\<close>

text \<open>A \<open>size_t\<close> is a word, so the capacity wraps. \<open>None\<close> is \<open>{nullptr, 0}\<close>, also the answer of a build without the library.\<close>

definition encode_br :: "(u64 \<Rightarrow> u64) \<Rightarrow> (u64 \<Rightarrow> bool) \<Rightarrow> (u64 \<Rightarrow> bytes option) \<Rightarrow> u64 \<Rightarrow> bytes option" where
  "encode_br maxSize malloc compress len =
     (let cap = (if maxSize len = 0 then len + 1024 else maxSize len)
      in if malloc cap then compress cap else None)"

text \<open>The attempts that are left, the capacity; also the capacities allocated on the way.\<close>

fun decode_loop :: "(u64 \<Rightarrow> bool) \<Rightarrow> (u64 \<Rightarrow> bytes option) \<Rightarrow> nat \<Rightarrow> u64 \<Rightarrow> bytes option \<times> u64 list" where
  "decode_loop malloc decompress 0 cap = (None, [])"
| "decode_loop malloc decompress (Suc n) cap =
     (if \<not> malloc cap then (None, [])
      else case decompress cap of
        Some out \<Rightarrow> (Some out, [cap])
      | None \<Rightarrow> (case decode_loop malloc decompress n (cap * 2) of (r, caps) \<Rightarrow> (r, cap # caps)))"

definition decode_br :: "(u64 \<Rightarrow> bool) \<Rightarrow> (u64 \<Rightarrow> bytes option) \<Rightarrow> u64 \<Rightarrow> bytes option \<times> u64 list" where
  "decode_br malloc decompress len = decode_loop malloc decompress 12 (len * 4 + 64)"

text \<open>With a decompressor that succeeds exactly when the output fits, a loop that cannot wrap finds any output below its last capacity.\<close>

lemma decode_loop_turn:
  "\<forall>c. malloc c \<Longrightarrow> fst (decode_loop malloc decompress (Suc n) cap) = (case decompress cap of Some out \<Rightarrow> Some out | None \<Rightarrow> fst (decode_loop malloc decompress n (cap * 2)))"
  by (simp add: split_beta split: option.splits)

lemma decode_loop_finds:
  assumes m: "\<forall>c. malloc c" and d: "\<forall>c. decompress c = (if length plain \<le> unat c then Some plain else None)" and n: "unat cap * 2 ^ n < 2 ^ 64"
  shows "fst (decode_loop malloc decompress (Suc n) cap) = (if length plain \<le> unat cap * 2 ^ n then Some plain else None)"
  using n
proof (induction n arbitrary: cap)
  case 0
  then show ?case using m d by simp
next
  case (Suc n)
  have le: "unat cap \<le> unat cap * 2 ^ Suc n" "unat cap * 2 \<le> unat cap * 2 ^ Suc n" by (simp_all add: mult.assoc [symmetric])
  then have "unat cap * 2 < 2 ^ 64" using Suc.prems by linarith
  then have u: "unat (cap * 2) = unat cap * 2" by (simp add: unat_word_ariths)
  have IH: "fst (decode_loop malloc decompress (Suc n) (cap * 2)) = (if length plain \<le> unat cap * 2 ^ Suc n then Some plain else None)"
    using Suc.IH [of "cap * 2"] Suc.prems by (simp add: u mult.assoc)
  show ?case unfolding decode_loop_turn [OF m, of decompress "Suc n" cap] IH using d le_trans [OF _ le(1), of "length plain"] by (simp del: power_Suc)
qed

text \<open>Garbage costs as much as the largest output: all twelve buffers are allocated, one after the other.\<close>

lemma decode_garbage:
  "\<forall>c. malloc c \<Longrightarrow> \<forall>c. decompress c = None \<Longrightarrow> decode_br malloc decompress len = (None, map (\<lambda>k. (len * 4 + 64) * 2 ^ k) [0 ..< 12])"
  by (simp add: decode_br_def eval_nat_numeral upt_rec mult.assoc)

section \<open>Shortest digits\<close>

fun sci_loop :: "(nat \<Rightarrow> 'd \<Rightarrow> string) \<Rightarrow> (string \<Rightarrow> 'd) \<Rightarrow> 'd \<Rightarrow> nat list \<Rightarrow> string" where
  "sci_loop printf strtod v [] = printf 17 v"
| "sci_loop printf strtod v (p # ps) = (let s = printf p v in if strtod s = v then s else sci_loop printf strtod v ps)"

definition sciShortestPortable :: "(nat \<Rightarrow> 'd \<Rightarrow> string) \<Rightarrow> (string \<Rightarrow> 'd) \<Rightarrow> 'd \<Rightarrow> string" where
  "sciShortestPortable printf strtod v = sci_loop printf strtod v [0 ..< 18]"

text \<open>As 17 digits determine a double, the text reads back; and no smaller precision does.\<close>

lemma sci_loop_find: "sci_loop printf strtod v ps = (case find (\<lambda>p. strtod (printf p v) = v) ps of None \<Rightarrow> printf 17 v | Some p \<Rightarrow> printf p v)"
  by (induction ps) (simp_all add: Let_def)

lemma sci_shortest:
  assumes "strtod (printf 17 v) = v"
  obtains p where "sciShortestPortable printf strtod v = printf p v" "strtod (printf p v) = v" "\<And>q. q < p \<Longrightarrow> strtod (printf q v) \<noteq> v"
proof -
  have "find (\<lambda>p. strtod (printf p v) = v) [0 ..< 18] \<noteq> None" using assms by (auto simp: find_None_iff intro!: exI [of _ 17])
  then obtain p where p: "find (\<lambda>p. strtod (printf p v) = v) [0 ..< 18] = Some p" by blast
  then obtain i where "i < 18" "p = i" "strtod (printf i v) = v" "\<forall>j<i. strtod (printf j v) \<noteq> v" by (auto simp: find_Some_iff)
  then show thesis using that p by (auto simp: sciShortestPortable_def sci_loop_find)
qed

end
