(* ===== verification/H2Reactor.thy ===== *)
theory H2Reactor
  imports Http2 ReactorLoop
begin

text \<open>
  HTTP/2 in the reactor (the \<open>NITRO_SERVER_HTTP2\<close> parts of \<open>UvReactor.cpp\<close>): how a connection becomes one, how its session's
  requests get ids and reach the handlers, and how answers come back. \<open>hx_core\<close> is the reactor of the other theories; the
  \<open>isH2\<close> flag of a request is membership in \<open>hx_h2ids\<close>, and the queue entries with that flag are \<open>hx_queue\<close>, apart from the others
  (an entry of either kind only concerns connections of its kind). What \<open>nghttp2\<close> reports for the bytes it is fed, and whether it
  still wants to read or write, are arguments. \<open>None\<close> is a call through a null pointer.
\<close>

section \<open>State\<close>

record H2Accum =
  ac_status :: int
  ac_headers :: "header list"
  ac_body :: string

record H2Pending =
  hp_connId :: int
  hp_reqId :: int
  hp_status :: int
  hp_headers :: "header list"
  hp_bytes :: string

record H2Reactor =
  hx_core :: Reactor
  hx_sessions :: "(int \<times> nat option \<times> H2Session) list"
  hx_h2ids :: "int list"
  hx_accum :: "(int \<times> H2Accum) list"
  hx_queue :: "(nat \<times> H2Pending) list"

definition with_core :: "(Reactor \<Rightarrow> Reactor) \<Rightarrow> H2Reactor \<Rightarrow> H2Reactor" where
  "with_core f x = x\<lparr>hx_core := f (hx_core x)\<rparr>"

section \<open>From bytes to a session\<close>

definition kH2Preface :: string where
  "kH2Preface = ''PRI * HTTP/2.0'' @ crlf @ crlf @ ''SM'' @ crlf @ crlf"

datatype h2_start = Http1 | AwaitPreface | StartH2

text \<open>The comparison of the first bytes of a fresh connection with the preface.\<close>

definition preface_check :: "string \<Rightarrow> h2_start" where
  "preface_check buf =
     (let have = min (length buf) (length kH2Preface) in
      if take have buf = take have kH2Preface then (if length buf < length kH2Preface then AwaitPreface else StartH2) else Http1)"

definition h2c_start :: "int \<Rightarrow> Reactor \<Rightarrow> h2_start" where
  "h2c_start c r =
     (let k = conns r c in
      if http2 (cfg r) \<and> c_served k = 0 \<and> \<not> c_busy k \<and> c_buf k \<noteq> [] then preface_check (c_buf k) else Http1)"

text \<open>The sink is chosen once per connection; with no sink registered it is null.\<close>

definition createH2Session :: "int \<Rightarrow> H2Reactor \<Rightarrow> H2Reactor" where
  "createH2Session c x =
     (case nextEmitter (hx_core x) of (r, em) \<Rightarrow>
        x\<lparr>hx_core := r, hx_sessions := AList.update c
           (em, new_session (rt_table r) (c_clientIp (conns r c)) (maxBodyBytes (cfg r)) (defaultTimeoutMs (cfg r)) (maxBufferedBodyBytes (cfg r)))
           (hx_sessions x)\<rparr>)"

text \<open>
  One callback of the session of a connection. The allocator it was given takes the next id of the reactor and enters it in the
  request table; the admission check is the in-flight budget. What the session emits goes to its sink.
\<close>

definition callback_env :: "Env \<Rightarrow> Reactor \<Rightarrow> H2Env" where
  "callback_env env r = \<lparr>v_now = e_now env, v_admit = Some (\<not> overInFlightBudget r), v_alloc = Some (nextId r), v_malloc = (\<lambda>_. e_malloc env (next_ptr r))\<rparr>"

definition forward_emits :: "nat option \<Rightarrow> emit_call list \<Rightarrow> Reactor \<Rightarrow> Reactor option" where
  "forward_emits em xs r = (case em of Some e \<Rightarrow> Some (fold (emit e) xs r) | None \<Rightarrow> if xs = [] then Some r else None)"

definition take_new_id :: "int \<Rightarrow> Reactor \<Rightarrow> Reactor" where
  "take_new_id c r = r\<lparr>nextId := nextId r + 1, reqLoc := AList.update (nextId r)
      \<lparr>rl_loopIdx = c_lp (conns r c), rl_connId = c, rl_isHead = False, rl_keepAlive = False\<rparr> (reqLoc r)\<rparr>"

definition session_event :: "Env \<Rightarrow> int \<Rightarrow> h2_event \<Rightarrow> H2Reactor \<Rightarrow> H2Reactor option" where
  "session_event env c e x = (case map_of (hx_sessions x) c of
       None \<Rightarrow> Some x
     | Some (em, h) \<Rightarrow>
         let r = hx_core x; i = nextId r;
             h' = h2_event (callback_env env r) e (h\<lparr>h2_ptr := next_ptr r\<rparr>);
             used = (map_of (reqToStream h) i = None \<and> map_of (reqToStream h') i \<noteq> None);
             r1 = (if used then take_new_id c r else r)\<lparr>next_ptr := h2_ptr h'\<rparr>
         in map_option (\<lambda>r2. x\<lparr>hx_core := r2, hx_sessions := AList.update c (em, h') (hx_sessions x),
                hx_h2ids := (if used then i # hx_h2ids x else hx_h2ids x)\<rparr>)
              (forward_emits em (drop (length (h2_emits h)) (h2_emits h')) r1))"

fun session_events :: "Env \<Rightarrow> int \<Rightarrow> h2_event list \<Rightarrow> H2Reactor \<Rightarrow> H2Reactor option" where
  "session_events env c [] x = Some x"
| "session_events env c (e # es) x = (case session_event env c e x of None \<Rightarrow> None | Some x' \<Rightarrow> session_events env c es x')"

definition session_of :: "int \<Rightarrow> H2Reactor \<Rightarrow> H2Session option" where
  "session_of c x = map_option snd (map_of (hx_sessions x) c)"

definition close_h2 :: "int \<Rightarrow> H2Reactor \<Rightarrow> H2Reactor" where
  "close_h2 c x = with_core (\<lambda>r. close_if_open c (upd_conn c (\<lambda>k. k\<lparr>c_closing := True\<rparr>) r)) x"

definition open_streams :: "int \<Rightarrow> H2Reactor \<Rightarrow> bool" where
  "open_streams c x = (case session_of c x of None \<Rightarrow> False | Some h \<Rightarrow> hasOpenStreams h)"

definition feedH2 :: "Env \<Rightarrow> int \<Rightarrow> h2_event list \<Rightarrow> bool \<Rightarrow> bool \<Rightarrow> H2Reactor \<Rightarrow> H2Reactor option" where
  "feedH2 env c evs fatal wants x =
     (let empty = (c_buf (conns (hx_core x) c) = []);
          stopped = (case session_of c x of None \<Rightarrow> False | Some h \<Rightarrow> h2_stopped h);
          x1 = (if empty then x else with_core (upd_conn c (\<lambda>k. k\<lparr>c_lastActive := e_now env, c_buf := []\<rparr>)) x)
      in map_option (\<lambda>x2.
           let bad = (\<not> empty \<and> (stopped \<or> fatal)); finished = (\<not> wants \<and> \<not> open_streams c x2)
           in if (bad \<or> finished) \<and> \<not> c_closing (conns (hx_core x2) c) then close_h2 c x2 else x2)
         (if empty \<or> stopped then Some x1 else session_events env c evs x1))"

section \<open>Answers\<close>

definition h2_push :: "ReqLoc \<Rightarrow> int \<Rightarrow> int \<Rightarrow> header list \<Rightarrow> string \<Rightarrow> H2Reactor \<Rightarrow> H2Reactor" where
  "h2_push loc i status headers body x =
     with_core (log_effect (UvAsyncSend (rl_loopIdx loc)))
       (x\<lparr>hx_queue := hx_queue x @ [(rl_loopIdx loc, \<lparr>hp_connId = rl_connId loc, hp_reqId = i, hp_status = status, hp_headers = headers, hp_bytes = body\<rparr>)]\<rparr>)"

definition respond2 :: "Env \<Rightarrow> int \<Rightarrow> int \<Rightarrow> header list \<Rightarrow> string option \<Rightarrow> nat \<Rightarrow> H2Reactor \<Rightarrow> H2Reactor" where
  "respond2 env i status headers body bodyLen x =
     (if i \<notin> set (hx_h2ids x) then with_core (respond env i status headers body bodyLen) x
      else if \<not> running (hx_core x) then x
      else case lookupReq i True (hx_core x) of
        (r1, None) \<Rightarrow> x\<lparr>hx_core := r1\<rparr>
      | (r1, Some loc) \<Rightarrow>
          h2_push loc i status headers (case body of None \<Rightarrow> [] | Some b \<Rightarrow> take bodyLen b) (x\<lparr>hx_core := r1\<lparr>completions := completions r1 + 1\<rparr>\<rparr>))"

definition startStream2 :: "Env \<Rightarrow> int \<Rightarrow> int \<Rightarrow> header list \<Rightarrow> H2Reactor \<Rightarrow> H2Reactor" where
  "startStream2 env i status headers x =
     (if i \<notin> set (hx_h2ids x) then with_core (startStream env i status headers) x
      else if \<not> running (hx_core x) then x
      else case lookupReq i False (hx_core x) of
        (r1, None) \<Rightarrow> x
      | (r1, Some loc) \<Rightarrow>
          if rl_isHead loc
          then h2_push loc i status headers [] (with_core (\<lambda>r. r\<lparr>reqLoc := AList.delete i (reqLoc r), completions := completions r + 1\<rparr>) x)
          else x\<lparr>hx_accum := AList.update i \<lparr>ac_status = status, ac_headers = headers, ac_body = []\<rparr> (hx_accum x)\<rparr>)"

text \<open>The end of a buffered answer: out of the table and the accumulator, into the queue.\<close>

definition flush_accum :: "ReqLoc \<Rightarrow> int \<Rightarrow> int \<Rightarrow> header list \<Rightarrow> string \<Rightarrow> H2Reactor \<Rightarrow> H2Reactor" where
  "flush_accum loc i status headers body x =
     h2_push loc i status headers body
       (with_core (\<lambda>r. r\<lparr>reqLoc := AList.delete i (reqLoc r), completions := completions r + 1\<rparr>) (x\<lparr>hx_accum := AList.delete i (hx_accum x)\<rparr>))"

definition overflow_text :: string where
  "overflow_text = ''response exceeded the server buffer cap''"

definition sendStreamChunk2 :: "int \<Rightarrow> string \<Rightarrow> bool \<Rightarrow> H2Reactor \<Rightarrow> H2Reactor" where
  "sendStreamChunk2 i chunk isLast x =
     (if i \<notin> set (hx_h2ids x) then with_core (sendStreamChunk i chunk isLast) x
      else if \<not> running (hx_core x) \<or> (chunk = [] \<and> \<not> isLast) then x
      else case lookupReq i False (hx_core x) of
        (r1, None) \<Rightarrow> x
      | (r1, Some loc) \<Rightarrow>
          (case map_of (hx_accum x) i of
             None \<Rightarrow> x
           | Some a \<Rightarrow>
               let cap = maxBodyBytes (cfg (hx_core x)); body = ac_body a @ chunk in
               if cap > 0 \<and> int (length body) > cap
               then flush_accum loc i 503 [hdr ''content-type'' ''text/plain; charset=utf-8''] overflow_text x
               else if isLast then flush_accum loc i (ac_status a) (ac_headers a) body x
               else x\<lparr>hx_accum := AList.update i (a\<lparr>ac_body := body\<rparr>) (hx_accum x)\<rparr>))"

text \<open>One entry of the queue, on the loop's thread; \<open>wants\<close> is what the session says after the answer.\<close>

definition run_h2_entry :: "bool \<Rightarrow> nat \<Rightarrow> H2Pending \<Rightarrow> H2Reactor \<Rightarrow> H2Reactor" where
  "run_h2_entry wants l p x =
     (if hp_connId p \<notin> set (lp_conns (loops (hx_core x) ! l)) \<or> c_closing (conns (hx_core x) (hp_connId p)) then x
      else case map_of (hx_sessions x) (hp_connId p) of
        None \<Rightarrow> x
      | Some (em, h) \<Rightarrow>
          let x1 = x\<lparr>hx_sessions := AList.update (hp_connId p) (em, h2_respond (hp_reqId p) (hp_status p) (hp_headers p) (hp_bytes p) h) (hx_sessions x)\<rparr>
          in if wants then x1 else close_h2 (hp_connId p) x1)"

section \<open>The timer, and the end of a connection\<close>

definition expire_request :: "int \<Rightarrow> H2Reactor \<Rightarrow> H2Reactor" where
  "expire_request i x = (case lookupReq i True (hx_core x) of
       (r, None) \<Rightarrow> x\<lparr>hx_core := r\<rparr>
     | (r, Some loc) \<Rightarrow> x\<lparr>hx_core := broadcastEvent HandlerTimeout i ''handler timed out'' r\<rparr>)"

definition sweep_body_ms :: "Reactor \<Rightarrow> int" where
  "sweep_body_ms r = (if bodyTimeoutMs (cfg r) > 0 then bodyTimeoutMs (cfg r) else keepAliveTimeoutMs (cfg r))"

text \<open>The HTTP/2 part of the sweep; the result says whether the connection is closed as idle, skipped, or looked at further.\<close>

datatype sweep_verdict = SweepIdle | SweepSkip | SweepOn

definition sweep_h2_conn :: "Env \<Rightarrow> bool \<Rightarrow> int \<Rightarrow> H2Reactor \<Rightarrow> H2Reactor \<times> sweep_verdict" where
  "sweep_h2_conn env wants c x = (case map_of (hx_sessions x) c of
       None \<Rightarrow> (x, SweepOn)
     | Some (em, h) \<Rightarrow>
         let h1 = (if draining (hx_core x) then goAway h else h);
             (h2, expired) = h2_sweep (e_now env) (sweep_body_ms (hx_core x)) h1;
             x1 = fold expire_request expired (x\<lparr>hx_sessions := AList.update c (em, h2) (hx_sessions x)\<rparr>)
         in (x1, if \<not> wants then SweepIdle else if hasOpenStreams h2 then SweepSkip
                 else if c_ageExpired (conns (hx_core x1) c) then SweepIdle else SweepOn))"

definition close_h2_conn :: "int \<Rightarrow> H2Reactor \<Rightarrow> H2Reactor" where
  "close_h2_conn c x =
     (let dropped = map fst (filter (\<lambda>(i, loc). rl_connId loc = c) (reqLoc (hx_core x)))
      in (with_core (onCloseConn c) x)\<lparr>hx_accum := (if c_ws (conns (hx_core x) c) then hx_accum x else fold AList.delete dropped (hx_accum x)),
           hx_sessions := AList.delete c (hx_sessions x)\<rparr>)"

section \<open>A decision that does not depend on how bytes arrive\<close>

lemma preface_stable: "preface_check b \<noteq> AwaitPreface \<Longrightarrow> preface_check (b @ b') = preface_check b"
proof (cases "length kH2Preface \<le> length b")
  case False
  assume "preface_check b \<noteq> AwaitPreface"
  then have "preface_check b = Http1" "take (length b) b \<noteq> take (length b) kH2Preface" using False by (auto simp: preface_check_def Let_def min_def split: if_splits)
  moreover define n where "n = min (length (b @ b')) (length kH2Preface)"
  moreover have "length b \<le> n" using False by (simp add: n_def)
  then have "take (length b) (take n (b @ b')) = take (length b) b" "take (length b) (take n kH2Preface) = take (length b) kH2Preface" by (simp_all add: min_def)
  ultimately have "take n (b @ b') \<noteq> take n kH2Preface" by metis
  then show ?thesis using \<open>preface_check b = Http1\<close> unfolding preface_check_def [of "b @ b'"] Let_def n_def [symmetric] by simp
qed (simp add: preface_check_def Let_def min_def)

section \<open>A streamed answer\<close>

text \<open>An answer being collected, and one that has been handed over.\<close>

definition collecting :: "int \<Rightarrow> ReqLoc \<Rightarrow> H2Accum \<Rightarrow> (nat \<times> H2Pending) list \<Rightarrow> int \<Rightarrow> H2Reactor \<Rightarrow> bool" where
  "collecting i loc a q cap x \<longleftrightarrow> i \<in> set (hx_h2ids x) \<and> running (hx_core x) \<and> map_of (reqLoc (hx_core x)) i = Some loc \<and>
     map_of (hx_accum x) i = Some a \<and> hx_queue x = q \<and> maxBodyBytes (cfg (hx_core x)) = cap"

definition handed_over :: "int \<Rightarrow> (nat \<times> H2Pending) list \<Rightarrow> H2Reactor \<Rightarrow> bool" where
  "handed_over i q x \<longleftrightarrow> i \<in> set (hx_h2ids x) \<and> map_of (reqLoc (hx_core x)) i = None \<and> map_of (hx_accum x) i = None \<and> hx_queue x = q"

definition answer_entry :: "int \<Rightarrow> ReqLoc \<Rightarrow> H2Accum \<Rightarrow> nat \<times> H2Pending" where
  "answer_entry i loc a = (rl_loopIdx loc, \<lparr>hp_connId = rl_connId loc, hp_reqId = i, hp_status = ac_status a, hp_headers = ac_headers a, hp_bytes = ac_body a\<rparr>)"

definition overflow_entry :: "int \<Rightarrow> ReqLoc \<Rightarrow> nat \<times> H2Pending" where
  "overflow_entry i loc = answer_entry i loc \<lparr>ac_status = 503, ac_headers = [hdr ''content-type'' ''text/plain; charset=utf-8''], ac_body = overflow_text\<rparr>"

definition past_cap :: "int \<Rightarrow> string \<Rightarrow> bool" where
  "past_cap cap body \<longleftrightarrow> cap > 0 \<and> int (length body) > cap"

lemma flush_hands_over: "i \<in> set (hx_h2ids x) \<Longrightarrow> handed_over i (hx_queue x @ [answer_entry i loc a]) (flush_accum loc i (ac_status a) (ac_headers a) (ac_body a) x)"
  by (simp add: handed_over_def flush_accum_def h2_push_def with_core_def answer_entry_def log_effect_def delete_conv)

lemma chunk_collects:
  assumes "collecting i loc a q cap x" "\<not> past_cap cap (ac_body a @ c)"
  shows "collecting i loc (a\<lparr>ac_body := ac_body a @ c\<rparr>) q cap (sendStreamChunk2 i c False x)"
  using assms by (auto simp: collecting_def past_cap_def sendStreamChunk2_def lookupReq_def Let_def update_conv)

lemma chunk_overflows:
  assumes "collecting i loc a q cap x" "past_cap cap (ac_body a @ c)" "c \<noteq> [] \<or> isLast"
  shows "handed_over i (q @ [overflow_entry i loc]) (sendStreamChunk2 i c isLast x)"
  using assms flush_hands_over [where x = x and i = i and loc = loc and a = "\<lparr>ac_status = 503, ac_headers = [hdr ''content-type'' ''text/plain; charset=utf-8''], ac_body = overflow_text\<rparr>"]
  by (auto simp: collecting_def past_cap_def sendStreamChunk2_def lookupReq_def Let_def overflow_entry_def)

lemma last_chunk_answers:
  assumes "collecting i loc a q cap x" "\<not> past_cap cap (ac_body a @ c)"
  shows "handed_over i (q @ [answer_entry i loc (a\<lparr>ac_body := ac_body a @ c\<rparr>)]) (sendStreamChunk2 i c True x)"
  using assms flush_hands_over [where x = x and i = i and loc = loc and a = "a\<lparr>ac_body := ac_body a @ c\<rparr>"]
  by (auto simp: collecting_def past_cap_def sendStreamChunk2_def lookupReq_def Let_def)

lemma chunk_after: "handed_over i q x \<Longrightarrow> sendStreamChunk2 i c isLast x = x"
  by (simp add: handed_over_def sendStreamChunk2_def lookupReq_def)

lemma past_cap_append: "past_cap cap b \<Longrightarrow> past_cap cap (b @ c)"
  by (simp add: past_cap_def)

lemma chunks_collect:
  assumes "collecting i loc a q cap x" "\<not> past_cap cap (ac_body a)"
  shows "if past_cap cap (ac_body a @ concat cs) then handed_over i (q @ [overflow_entry i loc]) (fold (\<lambda>c. sendStreamChunk2 i c False) cs x)
    else collecting i loc (a\<lparr>ac_body := ac_body a @ concat cs\<rparr>) q cap (fold (\<lambda>c. sendStreamChunk2 i c False) cs x)"
  using assms
proof (induction cs arbitrary: a x)
  case (Cons c cs)
  show ?case
  proof (cases "past_cap cap (ac_body a @ c)")
    case True
    then have "c \<noteq> []" using Cons.prems(2) by auto
    then have h: "handed_over i (q @ [overflow_entry i loc]) (sendStreamChunk2 i c False x)" using chunk_overflows [OF Cons.prems(1) True] by blast
    then have "fold (\<lambda>c. sendStreamChunk2 i c False) cs (sendStreamChunk2 i c False x) = sendStreamChunk2 i c False x"
      by (induction cs) (simp_all add: chunk_after)
    then show ?thesis using h past_cap_append [OF True] by simp
  next
    case False
    then show ?thesis using Cons.IH [OF chunk_collects [OF Cons.prems(1) False]] by (simp split: if_splits)
  qed
qed simp

text \<open>
  C29: a streamed answer to an HTTP/2 request goes out once and whole. However it is cut into chunks, starting the stream, sending the
  chunks and then the last one puts exactly one entry in the loop's queue: the status, the headers and all the bytes in order,
  or a 503 when they exceed the cap; the request is then out of the table, nothing of it is buffered, and every later chunk changes nothing.
\<close>

theorem h2_streamed_answer:
  assumes "i \<in> set (hx_h2ids x)" "running (hx_core x)" "map_of (reqLoc (hx_core x)) i = Some loc" "\<not> rl_isHead loc"
    and "y = sendStreamChunk2 i z True (fold (\<lambda>c. sendStreamChunk2 i c False) cs (startStream2 env i status headers x))"
  shows "hx_queue y = hx_queue x @ [if past_cap (maxBodyBytes (cfg (hx_core x))) (concat cs @ z) then overflow_entry i loc
      else answer_entry i loc \<lparr>ac_status = status, ac_headers = headers, ac_body = concat cs @ z\<rparr>] \<and>
    map_of (reqLoc (hx_core y)) i = None \<and> map_of (hx_accum y) i = None \<and> sendStreamChunk2 i c isLast y = y"
proof -
  let ?cap = "maxBodyBytes (cfg (hx_core x))" and ?a = "\<lparr>ac_status = status, ac_headers = headers, ac_body = []\<rparr>"
  let ?w = "fold (\<lambda>c. sendStreamChunk2 i c False) cs (startStream2 env i status headers x)"
  have "collecting i loc ?a (hx_queue x) ?cap (startStream2 env i status headers x)"
    using assms(1-4) by (simp add: collecting_def startStream2_def lookupReq_def update_conv)
  from chunks_collect [OF this, of cs]
  have w: "if past_cap ?cap (concat cs) then handed_over i (hx_queue x @ [overflow_entry i loc]) ?w
    else collecting i loc (?a\<lparr>ac_body := concat cs\<rparr>) (hx_queue x) ?cap ?w" by (simp add: past_cap_def split: if_splits)
  have "handed_over i (hx_queue x @ [if past_cap ?cap (concat cs @ z) then overflow_entry i loc else answer_entry i loc (?a\<lparr>ac_body := concat cs @ z\<rparr>)]) y"
  proof (cases "past_cap ?cap (concat cs)")
    case True
    then show ?thesis using w chunk_after past_cap_append [OF True] assms(5) by simp
  next
    case False
    then have c: "collecting i loc (?a\<lparr>ac_body := concat cs\<rparr>) (hx_queue x) ?cap ?w" using w by simp
    show ?thesis using chunk_overflows [OF c, of z True] last_chunk_answers [OF c, of z] unfolding assms(5) by simp
  qed
  then show ?thesis using chunk_after by (auto simp: handed_over_def)
qed

definition sample_h2 :: H2Reactor where
  "sample_h2 = \<lparr>hx_core = new_reactor\<lparr>running := True, reqLoc := [(1, \<lparr>rl_loopIdx = 0, rl_connId = 5, rl_isHead = False, rl_keepAlive = False\<rparr>)]\<rparr>,
     hx_sessions = [], hx_h2ids = [1], hx_accum = [], hx_queue = []\<rparr>"

definition sample_env1 :: Env where
  "sample_env1 = \<lparr>e_now = 0, e_time = 0, e_malloc = (\<lambda>_. True), e_pton = (\<lambda>_ _. False), e_ntop = (\<lambda>_ _. None), e_read = (\<lambda>_ _ _. None)\<rparr>"

theorem h2_streamed_answer_witness:
  "hx_queue (sendStreamChunk2 1 ''c'' True (fold (\<lambda>c. sendStreamChunk2 1 c False) [''a'', ''b''] (startStream2 sample_env1 1 200 [] sample_h2))) =
   [(0, \<lparr>hp_connId = 5, hp_reqId = 1, hp_status = 200, hp_headers = [], hp_bytes = ''abc''\<rparr>)]"
  using h2_streamed_answer [where x = sample_h2 and i = 1 and loc = "\<lparr>rl_loopIdx = 0, rl_connId = 5, rl_isHead = False, rl_keepAlive = False\<rparr>"
      and cs = "[''a'', ''b'']" and z = "''c''" and env = sample_env1 and status = 200 and headers = "[]", OF _ _ _ _ refl]
  by (simp add: sample_h2_def new_reactor_def default_config_def past_cap_def answer_entry_def)

section \<open>What is left behind\<close>

text \<open>
  A streamed answer whose deadline passes leaves its buffer: the sweep takes the request out of the table, so later chunks find
  nothing, and the end of the connection only clears the buffers of requests still in the table.
\<close>

lemma buffer_left_behind:
  assumes "i \<in> set (hx_h2ids x)" "map_of (reqLoc (hx_core x)) i = Some loc" "map_of (hx_accum x) i = Some a"
  shows "map_of (hx_accum (expire_request i x)) i = Some a" "sendStreamChunk2 i c isLast (expire_request i x) = expire_request i x"
proof -
  show "map_of (hx_accum (expire_request i x)) i = Some a" using assms by (simp add: expire_request_def lookupReq_def)
  show "sendStreamChunk2 i c isLast (expire_request i x) = expire_request i x"
    using assms by (simp add: expire_request_def lookupReq_def sendStreamChunk2_def delete_conv)
qed

text \<open>
  A request body of an HTTP/2 request is handed to the sink without an entry in the payload log, so the acknowledgement that
  frees the bodies of HTTP/1.1 requests finds nothing to free.
\<close>

lemma h2_body_untracked:
  assumes "session_event env c e x = Some x'" "log_of (pending (hx_core x)) i = None"
  shows "pending (hx_core x') = pending (hx_core x)" "pending (ackBody i n (hx_core x')) = pending (hx_core x)"
proof -
  have e: "pending (fold (emit em) xs r) = pending r" for em xs r by (induction xs arbitrary: r) (simp_all add: emit_def log_effect_def)
  show p: "pending (hx_core x') = pending (hx_core x)"
    using assms(1) e by (auto simp: session_event_def forward_emits_def take_new_id_def Let_def split: option.splits if_splits)
  show "pending (ackBody i n (hx_core x')) = pending (hx_core x)" using assms(2) p by (simp add: ackBody_def ack_def)
qed

end
