(* ===== verification/Tls.thy ===== *)
theory Tls
  imports ReactorLoop
begin

text \<open>
  The TLS parts of \<open>UvReactor.cpp\<close>: the protocol offered in the handshake, building a context from certificates and policy,
  replacing it while the server runs, and the reads and writes of an encrypted connection. What OpenSSL answers is an argument:
  a record of the results of its calls, the ciphertext it has ready and the plaintext it yields.
\<close>

section \<open>The protocol of a connection\<close>

text \<open>Names with their length byte in front, the server's in its order of preference. \<open>select\<close> is \<open>SSL_select_next_proto\<close>.\<close>

definition alpn_prefs :: "bool \<Rightarrow> string list" where
  "alpn_prefs on = (if on then [''h2'', ''http/1.1''] else [''http/1.1''])"

definition reactorAlpnSelect :: "(string list \<Rightarrow> string list \<Rightarrow> string option) \<Rightarrow> bool \<Rightarrow> string list \<Rightarrow> string option" where
  "reactorAlpnSelect select on offered = select (alpn_prefs on) offered"

section \<open>Contexts\<close>

record ssl_api =
  o_ctx :: bool
  o_error :: "string option"
  o_ciphers :: "string \<Rightarrow> bool"
  o_suites :: "string \<Rightarrow> bool"
  o_caPem :: "string \<Rightarrow> bool list"
  o_caFile :: "string \<Rightarrow> nat option"
  o_certPem :: "string \<Rightarrow> bool"
  o_certFile :: "string \<Rightarrow> bool"
  o_keyPem :: "string \<Rightarrow> bool"
  o_keyFile :: "string \<Rightarrow> bool"
  o_match :: bool

record ssl_ctx =
  x_min13 :: bool
  x_ciphers :: string
  x_suites :: string
  x_clientAuth :: bool
  x_cert :: string
  x_key :: string

definition tls_error :: "string \<Rightarrow> StatusResult" where
  "tls_error msg = \<lparr>kind = TlsError, message = msg, boundPort = 0\<rparr>"

definition fail_msg :: "ssl_api \<Rightarrow> string \<Rightarrow> StatusResult" where
  "fail_msg api what = tls_error (case o_error api of None \<Rightarrow> what | Some e \<Rightarrow> what @ '': '' @ e)"

text \<open>The certificates the client-certificate policy could load.\<close>

definition client_anchors :: "ssl_api \<Rightarrow> ServerConfig \<Rightarrow> nat" where
  "client_anchors api g = (if tlsClientCaPem g \<noteq> [] then length (filter id (o_caPem api (tlsClientCaPem g)))
     else case o_caFile api (tlsClientCaFile g) of None \<Rightarrow> 0 | Some n \<Rightarrow> n)"

definition wants_client_cert :: "ServerConfig \<Rightarrow> bool" where
  "wants_client_cert g \<longleftrightarrow> tlsClientCaPem g \<noteq> [] \<or> tlsClientCaFile g \<noteq> []"

text \<open>\<open>buildSslCtx\<close>: the first check that fails, in the order of the code (each such path frees the context), or the context.\<close>

definition buildSslCtx :: "ssl_api \<Rightarrow> ServerConfig \<Rightarrow> string \<Rightarrow> string \<Rightarrow> string \<Rightarrow> string \<Rightarrow> StatusResult + ssl_ctx" where
  "buildSslCtx api g certPem keyPem certFile keyFile =
     (if \<not> o_ctx api then Inl (fail_msg api ''SSL_CTX_new failed'')
      else if tlsMinVersion g \<noteq> 12 \<and> tlsMinVersion g \<noteq> 13 then Inl (tls_error ''tlsMinVersion must be 12 or 13'')
      else if tlsCiphers g \<noteq> [] \<and> \<not> o_ciphers api (tlsCiphers g) then Inl (fail_msg api ''no usable TLS 1.2 cipher in tlsCiphers'')
      else if tlsCipherSuites g \<noteq> [] \<and> \<not> o_suites api (tlsCipherSuites g)
        then Inl (fail_msg api ''no usable TLS 1.3 cipher suite in tlsCipherSuites'')
      else if wants_client_cert g \<and> client_anchors api g = 0 then Inl (fail_msg api ''no client CA certificate could be loaded'')
      else if certPem \<noteq> [] \<and> \<not> o_certPem api certPem then Inl (fail_msg api ''invalid TLS certificate PEM'')
      else if certPem = [] \<and> certFile \<noteq> [] \<and> \<not> o_certFile api certFile then Inl (fail_msg api ''cannot load TLS certificate file'')
      else if certPem = [] \<and> certFile = [] then Inl (tls_error ''TLS requested without a certificate'')
      else if keyPem \<noteq> [] \<and> \<not> o_keyPem api keyPem then Inl (fail_msg api ''invalid TLS private key PEM'')
      else if keyPem = [] \<and> keyFile \<noteq> [] \<and> \<not> o_keyFile api keyFile then Inl (fail_msg api ''cannot load TLS private key file'')
      else if keyPem = [] \<and> keyFile = [] then Inl (tls_error ''TLS requested without a private key'')
      else if \<not> o_match api then Inl (tls_error ''certificate and private key do not match'')
      else Inr \<lparr>x_min13 = (tlsMinVersion g = 13), x_ciphers = tlsCiphers g, x_suites = tlsCipherSuites g, x_clientAuth = wants_client_cert g,
        x_cert = (if certPem \<noteq> [] then certPem else certFile), x_key = (if keyPem \<noteq> [] then keyPem else keyFile)\<rparr>)"

definition setupTls :: "ssl_api \<Rightarrow> ServerConfig \<Rightarrow> ssl_ctx option \<Rightarrow> ssl_ctx option \<times> StatusResult" where
  "setupTls api g ctx = (case buildSslCtx api g (tlsCertPem g) (tlsKeyPem g) (tlsCertFile g) (tlsKeyFile g) of
       Inl e \<Rightarrow> (ctx, e) | Inr x \<Rightarrow> (Some x, status_ok))"

definition reloadTls :: "ssl_api \<Rightarrow> ServerConfig \<Rightarrow> string \<Rightarrow> string \<Rightarrow> string \<Rightarrow> string \<Rightarrow> ssl_ctx option \<Rightarrow> ssl_ctx option \<times> StatusResult" where
  "reloadTls api g certPem keyPem certFile keyFile ctx = (case ctx of
       None \<Rightarrow> (None, tls_error ''server was not started with TLS'')
     | Some _ \<Rightarrow> (case buildSslCtx api g certPem keyPem certFile keyFile of Inl e \<Rightarrow> (ctx, e) | Inr x \<Rightarrow> (Some x, status_ok)))"

section \<open>Encrypted connections\<close>

text \<open>\<open>tlsRawWrite\<close>: unlike \<open>writeRaw\<close> and \<open>writeAnswer\<close>, the bytes are not added to \<open>writePending\<close>.\<close>

definition tlsRawWrite :: "int \<Rightarrow> string \<Rightarrow> Reactor \<Rightarrow> Reactor" where
  "tlsRawWrite c cipher r =
     (if cipher = [] then r
      else log_effect (UvWrite c cipher)
        (upd_conn c (\<lambda>k. k\<lparr>h_writes := h_writes k @ [\<lparr>wc_payload = cipher, wc_keepAlive = True, wc_finish = False\<rparr>]\<rparr>) r))"

text \<open>\<open>tlsDrain\<close>: the pieces \<open>BIO_read\<close> gives until it has none.\<close>

definition tlsDrain :: "string list \<Rightarrow> string" where
  "tlsDrain pieces = concat (takeWhile (\<lambda>p. p \<noteq> []) pieces)"

datatype accept_result = Accepted | WantMore | AcceptFailed

text \<open>
  \<open>tlsOnRead\<close>: the handshake step with the flight it produced, then the plaintext and what reading it produced. The first result says
  whether the handshake is done. A connection that negotiated \<open>h2\<close> gets its session here; that part is the HTTP/2 theory's.
\<close>

definition tlsOnRead :: "Env \<Rightarrow> int \<Rightarrow> bool \<Rightarrow> accept_result \<Rightarrow> string list \<Rightarrow> string list \<Rightarrow> string list \<Rightarrow> Reactor \<Rightarrow> bool \<times> Reactor" where
  "tlsOnRead env c handshakeDone acc flight clear produced r =
     (let r1 = (if handshakeDone then r else tlsRawWrite c (tlsDrain flight) r)
      in if \<not> handshakeDone \<and> acc \<noteq> Accepted then
           (False, if acc = AcceptFailed then close_if_open c (upd_conn c (\<lambda>k. k\<lparr>c_closing := True\<rparr>) r1) else r1)
         else
           let r2 = tlsRawWrite c (tlsDrain produced) (upd_conn c (\<lambda>k. k\<lparr>c_buf := c_buf k @ tlsDrain clear\<rparr>) r1)
           in (True, feed env c [] r2))"

section \<open>Properties\<close>

text \<open>A context exists only with the whole policy in force: a known floor, loadable ciphers, anchors for every client check, a matching pair.\<close>

lemma built_context_policy:
  assumes "buildSslCtx api g certPem keyPem certFile keyFile = Inr x"
  shows "tlsMinVersion g \<in> {12, 13}" "x_min13 x \<longleftrightarrow> tlsMinVersion g = 13" "x_clientAuth x \<longleftrightarrow> wants_client_cert g"
    "x_clientAuth x \<Longrightarrow> client_anchors api g > 0" "x_cert x \<noteq> []" "x_key x \<noteq> []" "o_match api"
    "x_ciphers x \<noteq> [] \<Longrightarrow> o_ciphers api (x_ciphers x)" "x_suites x \<noteq> [] \<Longrightarrow> o_suites api (x_suites x)"
  using assms by (auto simp: buildSslCtx_def split: if_splits)

definition tls_failure :: "StatusResult + ssl_ctx \<Rightarrow> bool" where
  "tls_failure v \<longleftrightarrow> (case v of Inl e \<Rightarrow> kind e = TlsError | Inr _ \<Rightarrow> True)"

lemma tls_failure_intros:
  "tls_failure x \<Longrightarrow> tls_failure y \<Longrightarrow> tls_failure (if c then x else y)" "tls_failure (Inl (tls_error m))" "tls_failure (Inl (fail_msg api m))" "tls_failure (Inr z)"
  by (simp_all add: tls_failure_def fail_msg_def tls_error_def)

lemma build_error_kind: "buildSslCtx api g certPem keyPem certFile keyFile = Inl e \<Longrightarrow> kind e = TlsError"
proof -
  have "tls_failure (buildSslCtx api g certPem keyPem certFile keyFile)" unfolding buildSslCtx_def by (intro tls_failure_intros)
  then show "buildSslCtx api g certPem keyPem certFile keyFile = Inl e \<Longrightarrow> kind e = TlsError" by (simp add: tls_failure_def)
qed

text \<open>A reload that fails keeps the live context, and the result says so.\<close>

lemma reload_all_or_nothing:
  assumes "reloadTls api g certPem keyPem certFile keyFile ctx = (ctx', res)"
  shows "kind res = TlsError \<and> ctx' = ctx \<or> res = status_ok \<and> ctx \<noteq> None \<and> buildSslCtx api g certPem keyPem certFile keyFile = Inr (the ctx')"
  using assms build_error_kind [of api g certPem keyPem certFile keyFile]
  by (auto simp: reloadTls_def tls_error_def split: option.splits sum.splits)

text \<open>
  As the ciphertext of a handshake is not counted when its write starts but is subtracted when it lands, the count can read zero
  while bytes are on their way; on a connection that sends a file, the next chunk is then read too early.
\<close>

lemma tls_pending_lost:
  fixes env :: Env and r :: Reactor
  defines "r1 \<equiv> start_write env 1 ''abc'' True False (tlsRawWrite 1 ''xyz'' r)"
  assumes "h_writes (conns r 1) = []" "c_writePending (conns r 1) = 0" "c_fileFd (conns r 1) = -1"
  shows "c_writePending (conns r1 1) = 3" "c_writePending (conns (onWrite env 1 0 r1) 1) = 0"
    "map wc_payload (h_writes (conns (onWrite env 1 0 r1) 1)) = [''abc'']"
  using assms by (simp_all add: r1_def start_write_def tlsRawWrite_def onWrite_def upd_conn_def log_effect_def Let_def)

end
