(* ===== verification/Spec2Isabelle.thy ===== *)
theory Spec2Isabelle
  imports Prelude Common WsCodec WsUtf8 Router RouterProps RouterMatch HttpParse HttpHead HttpBody PendingTable DispatchController Proxy ReactorState ReactorWs ReactorStream ReactorHttp ReactorLoop ReactorInv ReactorSafety ReactorTurns ReactorReach ReactorProps ReactorQueue JsonWriter RecordCodec Bridge DartObject SpinSlot CompletionBatch WorkerPool Http2 InstanceTable Background WebPost Codecs H2Reactor Tls
begin

text \<open>
  A verification library for the native engine of nitro\_server, an embedded HTTP/1.1, HTTP/2 and WebSocket server whose
  handlers run in Dart. Paths below are relative to \<open>src/src\<close> unless they start otherwise.

  \<^bold>\<open>The program.\<close> A reactor (\<open>engine/UvReactor.cpp\<close>) runs one libuv loop per listening socket. A connection's bytes pass an
  optional PROXY header, then go to the HTTP/1.1 request loop, a WebSocket session, a streamed upload or an HTTP/2 session. The
  request loop parses a head, checks its framing, routes it and emits it to one of the sinks, an isolate each; the handler
  answers from any thread by request id, through a queue the loop drains. Payloads given to a handler stay in a table until it
  acknowledges them. Around the engine stand the bridge object (\<open>HybridNitroServer.cpp\<close>), the record codec and dispatch layer
  generated for it, the batching of messages to the isolates, and a JSON writer handlers call.

  \<^bold>\<open>Theories.\<close>
  \<^item> \<open>Prelude\<close>: words, bytes and characters, the searches of \<open>std::string\<close>, decimal digits, the theorem collections, and the locale
    \<open>keyed_store\<close> (lookup after insert and delete), interpreted by the routing trie and both halves of the pending table.
  \<^item> \<open>Common\<close>: \<open>engine/Common.h\<close>, \<open>EngineTypes.h\<close>: methods, status texts, configuration, results, the calls a sink receives.
  \<^item> \<open>WsCodec\<close>, \<open>WsUtf8\<close>: \<open>engine/WsCodec.h\<close>: SHA-1, base64, accept key, frames (what is encoded is parsed back), close codes, and
    the UTF-8 check against the encoding of scalar values.
  \<^item> \<open>Router\<close>, \<open>RouterProps\<close>, \<open>RouterMatch\<close>: \<open>engine/Router.cpp\<close>: the trie refines a table keyed by pattern shape and method; the
    search returns a fitting route of the greatest rank; the Allow list agrees with it.
  \<^item> \<open>HttpParse\<close>, \<open>HttpHead\<close>, \<open>HttpBody\<close>: \<open>engine/HttpParse.cpp\<close> and the HTTP helpers of \<open>UvReactor.cpp\<close>: parsing and printing a
    head, response heads that cannot be split, the framing checks exactly, chunked coding and its stability under more bytes.
  \<^item> \<open>PendingTable\<close>, \<open>DispatchController\<close>, \<open>Proxy\<close>: \<open>engine/PendingTable.h\<close> (ownership of payloads), \<open>DispatchController.h\<close>
    (width and probing), the PROXY header.
  \<^item> \<open>ReactorState\<close>, \<open>ReactorWs\<close>, \<open>ReactorStream\<close>, \<open>ReactorHttp\<close>, \<open>ReactorLoop\<close>: \<open>engine/UvReactor.cpp\<close>. The record \<open>Reactor\<close> holds the
    fields of the class, \<open>Conn\<close> those of a connection with what libuv keeps for its handle; an operation is a function of the
    surroundings (\<open>Env\<close>: clocks, allocation, address conversion, files) and the state; calls that leave the engine are in \<open>effects\<close>.
  \<^item> \<open>ReactorInv\<close> states what an invariant of the reactor has to satisfy per operation, as a locale, and proves once that the composed
    operations keep it; \<open>ReactorSafety\<close> and \<open>ReactorTurns\<close> interpret it five times (structure, pending bytes, closed handles,
    admission counters, one answer at a time); \<open>ReactorReach\<close> is the step relation (libuv's callbacks and calls from other threads,
    in any order) and carries the invariants to all reachable states. \<open>ReactorProps\<close> and \<open>ReactorQueue\<close> are about single operations.
  \<^item> \<open>Http2\<close>: \<open>engine/Http2Session.cpp\<close>, with the body budget as an invariant of a step relation; \<open>H2Reactor\<close>: how the reactor holds
    sessions, gives out ids and buffers streamed answers. \<open>Tls\<close>: context policy, reload, encrypted reads and writes.
  \<^item> \<open>RecordCodec\<close>, \<open>Bridge\<close>: the record codec of \<open>src/lib/src/generated/cpp/nitro_server.native.g.h\<close> (the locale \<open>codec\<close>, interpreted for
    every record) and \<open>HybridNitroServer.cpp\<close>, \<open>engine/EngineRegistry.cpp\<close>, \<open>engine/Wire.h\<close> over it. \<open>InstanceTable\<close>: the instance table,
    cache, subscriptions and calls of \<open>nitro_server.bridge.g.cpp\<close>.
  \<^item> \<open>DartObject\<close>, \<open>SpinSlot\<close>, \<open>CompletionBatch\<close>: \<open>native/nitro_completion_batch.h\<close>: exactly-once and ordered delivery over all
    interleavings; \<open>WorkerPool\<close>: \<open>native/nitro_worker_pool.h\<close>; \<open>Background\<close>: \<open>native/nitro_background.h\<close>, jobs finished once;
    \<open>WebPost\<close>: \<open>native/nitro_wasm_compat.h\<close>.
  \<^item> \<open>JsonWriter\<close>: \<open>engine/JsonWriter.cpp\<close>: the text written is the document's, is read back, and never leaves the buffer. \<open>Codecs\<close>:
    the loops of \<open>engine/Brotli.cpp\<close> and \<open>engine/Dtoa.h\<close>.

  \<^bold>\<open>Conventions.\<close> A byte string of the network is a \<open>string\<close>, raw memory a list of 8-bit words. Sizes are natural numbers and
  \<open>int64_t\<close> an integer, except where the code can wrap: there the value is a word or the wrap is written out. An operation that can
  fail returns an option or a sum. Loops are structural, or \<open>function\<close> with a measure (the bytes left); the walk up
  the frames of the router's search has the length of the arena as fuel, which is enough as a parent precedes its child; and
  the request loop, which the code bounds only by its state, is shown to end after one turn. A step of a step relation
  is a critical section, an atomic access or a callback. Hash maps are association lists, so a loop over one runs in a fixed order.
  C++ exceptions for lack of memory are not modelled; a checked \<open>malloc\<close> can fail.

  \<^bold>\<open>Outside.\<close> libuv, nghttp2, OpenSSL, brotli and the Dart API are not part of the repository: what they report is an
  argument, what they are told is logged, and hypotheses such as \<open>h2_protocol\<close> state what they document. The reactor theories are of plain
  connections; an encrypted one differs in its reads and writes, which \<open>Tls\<close> has. The Windows listener of \<open>start\<close>, thread
  creation and the C-level memory layout are left out.

  \<^bold>\<open>Not modelled.\<close> \<open>ProtocolSession.h\<close> (an abstract class), \<open>EngineUnity.cpp\<close> (includes), the vendored Dart headers, generated starter
  and test code, tests and benchmarks, the example's platform runners, and the Dart library.
\<close>

end
